(* ===== verification/Prelude.thy ===== *)
theory Prelude
  imports Main "HOL-Library.Word"
begin

text \<open>
  Shared vocabulary of the development.

  \<^item> Types: a Go \<open>byte\<close> is an 8-bit word, \<open>[]byte\<close> a list of them, a Go \<open>string\<close> a HOL
    \<open>string\<close> (a list of 8-bit characters), an unsigned integer of width \<open>w\<close> a \<open>w word\<close>; Go's
    \<open>int\<close> where it only counts is \<open>nat\<close> or \<open>int\<close>; points in time and durations are \<open>int\<close>
    nanoseconds, and the clock is an argument of every operation that reads it.
  \<^item> Errors: a Go function that returns \<open>(T, error)\<close> returns a value of a sum type
    \<open>'e + 't\<close> (\<open>Inl\<close> the error); \<^verbatim>\<open>if err != nil { return err }\<close> is \<open>rbind\<close>.
  \<^item> Interfaces: the locales that several components interpret. \<open>codec\<close> is an encoder with a
    decoder for whole messages, \<open>stream_codec\<close> one that reads from a byte stream and leaves the
    rest, \<open>machine\<close> a state machine with an invariant.
  \<^item> Collections: \<open>codec_simps\<close> for the facts that evaluate encoders and decoders,
    \<open>go_simps\<close> for the library functions of Go's \<open>strings\<close> and \<open>net\<close> packages,
    \<open>inv_intros\<close> for invariant preservation.
\<close>

named_theorems codec_simps "equations that evaluate an encoder followed by its decoder"
named_theorems go_simps "equations of the modelled Go library functions"
named_theorems inv_intros "preservation of invariants"

type_synonym byte = "8 word"
type_synonym bytes = "byte list"
type_synonym u16 = "16 word"
type_synonym u32 = "32 word"
type_synonym u64 = "64 word"
type_synonym nanos = int

section \<open>Signed integers\<close>

text \<open>The value of an \<open>int64\<close> (a \<open>time.Duration\<close>, a Go \<open>int\<close>) after wrap-around.\<close>

definition wrap64 :: "int \<Rightarrow> int" where
  "wrap64 i = (i + 2 ^ 63) mod 2 ^ 64 - 2 ^ 63"

lemma wrap64_id [simp]: "- (2 ^ 63) \<le> i \<Longrightarrow> i < 2 ^ 63 \<Longrightarrow> wrap64 i = i"
  by (simp add: wrap64_def)

section \<open>Results\<close>

definition rbind :: "'e + 'a \<Rightarrow> ('a \<Rightarrow> 'e + 'b) \<Rightarrow> 'e + 'b" where
  "rbind m f = (case m of Inl e \<Rightarrow> Inl e | Inr x \<Rightarrow> f x)"

lemma rbind_simps [simp]:
  "rbind (Inl e) f = Inl e"
  "rbind (Inr x) f = f x"
  by (simp_all add: rbind_def)

lemma rbind_eq_Inr: "rbind m f = Inr y \<longleftrightarrow> (\<exists>x. m = Inr x \<and> f x = Inr y)"
  by (cases m) auto

lemma rbind_eq_Inl: "rbind m f = Inl e \<longleftrightarrow> m = Inl e \<or> (\<exists>x. m = Inr x \<and> f x = Inl e)"
  by (cases m) auto

lemma rbind_cong [fundef_cong]:
  "m = m' \<Longrightarrow> (\<And>x. m' = Inr x \<Longrightarrow> f x = f' x) \<Longrightarrow> rbind m f = rbind m' f'"
  by (cases m') auto

text \<open>Wrapping an error of a callee, Go's \<^verbatim>\<open>fmt.Errorf("...: %w", err)\<close>.\<close>

definition map_err :: "('e \<Rightarrow> 'f) \<Rightarrow> 'e + 'a \<Rightarrow> 'f + 'a" where
  "map_err g m = (case m of Inl e \<Rightarrow> Inl (g e) | Inr x \<Rightarrow> Inr x)"

lemma map_err_simps [simp]:
  "map_err g (Inl e) = Inl (g e)"
  "map_err g (Inr x) = Inr x"
  by (simp_all add: map_err_def)

lemma map_err_eq_Inr [simp]: "map_err g m = Inr x \<longleftrightarrow> m = Inr x"
  by (cases m) auto

text \<open>A loop that stops at the first error: \<^verbatim>\<open>for _, x := range xs { y, err := f(x); ... }\<close>.\<close>

fun rmap :: "('a \<Rightarrow> 'e + 'b) \<Rightarrow> 'a list \<Rightarrow> 'e + 'b list" where
  "rmap f [] = Inr []"
| "rmap f (x # xs) = rbind (f x) (\<lambda>y. rbind (rmap f xs) (\<lambda>ys. Inr (y # ys)))"

lemma rmap_Inr_length: "rmap f xs = Inr ys \<Longrightarrow> length ys = length xs"
  by (induction xs arbitrary: ys) (auto simp: rbind_eq_Inr)

lemma rmap_Inr_iff: "rmap f xs = Inr ys \<longleftrightarrow> list_all2 (\<lambda>x y. f x = Inr y) xs ys"
  by (induction xs arbitrary: ys) (auto simp: rbind_eq_Inr list_all2_Cons1)

lemma rmap_Inr_map: "(\<And>x. x \<in> set xs \<Longrightarrow> f x = Inr (g x)) \<Longrightarrow> rmap f xs = Inr (map g xs)"
  by (induction xs) auto

lemma rmap_Inl_ex: "rmap f xs = Inl e \<Longrightarrow> \<exists>x\<in>set xs. f x = Inl e"
  by (induction xs) (auto simp: rbind_eq_Inl)

section \<open>Lists\<close>

text \<open>The last element that satisfies a partial function, as an accumulating loop computes it.\<close>

fun last_some :: "('a \<Rightarrow> 'b option) \<Rightarrow> 'a list \<Rightarrow> 'b option" where
  "last_some f [] = None"
| "last_some f (x # xs) = (case last_some f xs of Some y \<Rightarrow> Some y | None \<Rightarrow> f x)"

lemma last_some_append:
  "last_some f (xs @ ys) = (case last_some f ys of Some y \<Rightarrow> Some y | None \<Rightarrow> last_some f xs)"
  by (induction xs) (auto split: option.splits)

lemma last_some_None: "last_some f xs = None \<longleftrightarrow> (\<forall>x\<in>set xs. f x = None)"
  by (induction xs) (auto split: option.splits)

lemma last_some_map: "last_some f (map g xs) = last_some (f \<circ> g) xs"
  by (induction xs) (auto split: option.splits)

lemma last_some_cong:
  "(\<And>x. x \<in> set xs \<Longrightarrow> f x = g x) \<Longrightarrow> last_some f xs = last_some g xs"
  by (induction xs) (auto split: option.splits)

lemma last_some_SomeD:
  "last_some f xs = Some y \<Longrightarrow> \<exists>x\<in>set xs. f x = Some y"
  by (induction xs) (auto split: option.splits)

lemma last_some_snoc: "last_some f (xs @ [x]) = (case f x of Some y \<Rightarrow> Some y | None \<Rightarrow> last_some f xs)"
  by (simp add: last_some_append split: option.splits)

section \<open>Interfaces\<close>

text \<open>A message codec: what a well-formed value encodes to decodes to that value.\<close>

locale codec =
  fixes enc :: "'a \<Rightarrow> bytes"
    and dec :: "bytes \<Rightarrow> 'e + 'a"
    and ok :: "'a \<Rightarrow> bool"
  assumes dec_enc: "ok x \<Longrightarrow> dec (enc x) = Inr x"
begin

lemma enc_inj:
  assumes "ok x" and "ok y" and "enc x = enc y"
  shows "x = y"
proof -
  have "Inr x = dec (enc x)"
    using assms(1) by (simp only: dec_enc)
  also have "\<dots> = dec (enc y)"
    by (simp only: assms(3))
  also have "\<dots> = Inr y"
    using assms(2) by (simp only: dec_enc)
  finally show ?thesis by simp
qed

lemma enc_inj_on: "inj_on enc {x. ok x}"
  by (auto intro: inj_onI enc_inj)

end

text \<open>
  A stream codec: the decoder reads one value from the front of the stream and leaves the bytes
  that follow it, whatever they are.
\<close>

fun read_n :: "(bytes \<Rightarrow> 'e + ('a \<times> bytes)) \<Rightarrow> nat \<Rightarrow> bytes \<Rightarrow> 'e + ('a list \<times> bytes)" where
  "read_n rd 0 bs = Inr ([], bs)"
| "read_n rd (Suc n) bs =
     rbind (rd bs) (\<lambda>(x, r). rbind (read_n rd n r) (\<lambda>(xs, r'). Inr (x # xs, r')))"

locale stream_codec =
  fixes enc :: "'a \<Rightarrow> bytes"
    and rd :: "bytes \<Rightarrow> 'e + ('a \<times> bytes)"
    and ok :: "'a \<Rightarrow> bool"
  assumes rd_enc: "ok x \<Longrightarrow> rd (enc x @ rest) = Inr (x, rest)"
begin

lemma prefix_free:
  assumes "ok x" and "ok y" and "enc x @ r = enc y @ s"
  shows "x = y \<and> r = s"
proof -
  have "Inr (x, r) = rd (enc x @ r)"
    using assms(1) by (simp only: rd_enc)
  also have "\<dots> = rd (enc y @ s)"
    by (simp only: assms(3))
  also have "\<dots> = Inr (y, s)"
    using assms(2) by (simp only: rd_enc)
  finally show ?thesis by simp
qed

lemma read_n_enc:
  "list_all ok xs \<Longrightarrow> read_n rd (length xs) (concat (map enc xs) @ rest) = Inr (xs, rest)"
  by (induction xs) (auto simp: rd_enc)

lemma sequence_unambiguous:
  assumes "list_all ok xs" and "list_all ok ys" and "length xs = length ys"
    and "concat (map enc xs) @ r = concat (map enc ys) @ s"
  shows "xs = ys \<and> r = s"
proof -
  have "Inr (xs, r) = read_n rd (length xs) (concat (map enc xs) @ r)"
    using assms(1) by (simp only: read_n_enc)
  also have "\<dots> = read_n rd (length ys) (concat (map enc ys) @ s)"
    by (simp only: assms(3,4))
  also have "\<dots> = Inr (ys, s)"
    using assms(2) by (simp only: read_n_enc)
  finally show ?thesis by simp
qed

end

text \<open>A whole-message codec is obtained from a stream codec by reading at the front.\<close>

sublocale stream_codec \<subseteq> whole: codec enc "\<lambda>bs. rbind (rd bs) (\<lambda>(x, r). Inr x)" ok
  by unfold_locales (use rd_enc [of _ "[]"] in simp)

text \<open>
  A state machine: a step function on events, a set of start states, and an invariant that holds
  initially and is kept by every step. \<open>foldl step s es\<close> is the run over the events \<open>es\<close>.
\<close>

locale machine =
  fixes start :: "'s \<Rightarrow> bool"
    and step :: "'s \<Rightarrow> 'ev \<Rightarrow> 's"
    and inv :: "'s \<Rightarrow> bool"
  assumes start_inv: "start s \<Longrightarrow> inv s"
    and step_inv: "inv s \<Longrightarrow> inv (step s e)"
begin

lemma run_inv: "inv s \<Longrightarrow> inv (foldl step s es)"
  by (induction es arbitrary: s) (auto intro: step_inv)

lemma reachable_inv: "start s \<Longrightarrow> inv (foldl step s es)"
  by (rule run_inv) (rule start_inv)

end

end
