(* ===== verification/GoBytes.thy ===== *)
theory GoBytes
  imports Prelude
begin

unbundle bit_operations_syntax

text \<open>
  The byte-level operations of Go's \<open>encoding/binary\<close> (big endian), of the built-in \<open>copy\<close> and of
  \<open>io.ReadFull\<close>, and the conversion between \<open>string\<close> and \<open>[]byte\<close>, with the facts the codecs of
  the other theories rest on: reading back what was written, and the lengths of encodings.
\<close>

section \<open>Big-endian integers\<close>

definition put16 :: "u16 \<Rightarrow> bytes" where
  "put16 w = [ucast (drop_bit 8 w), ucast w]"

definition put32 :: "u32 \<Rightarrow> bytes" where
  "put32 w = [ucast (drop_bit 24 w), ucast (drop_bit 16 w), ucast (drop_bit 8 w), ucast w]"

definition put64 :: "u64 \<Rightarrow> bytes" where
  "put64 w = put32 (ucast (drop_bit 32 w)) @ put32 (ucast w)"

fun get16 :: "bytes \<Rightarrow> u16" where
  "get16 (a # b # _) = ucast b OR push_bit 8 (ucast a)"
| "get16 _ = 0"

fun get32 :: "bytes \<Rightarrow> u32" where
  "get32 (a # b # c # d # _) =
     ucast d OR push_bit 8 (ucast c) OR push_bit 16 (ucast b) OR push_bit 24 (ucast a)"
| "get32 _ = 0"

lemma length_put16 [simp]: "length (put16 w) = 2"
  by (simp add: put16_def)

lemma length_put32 [simp]: "length (put32 w) = 4"
  by (simp add: put32_def)

lemma length_put64 [simp]: "length (put64 w) = 8"
  by (simp add: put64_def)

lemma get16_put16_append [simp, codec_simps]: "get16 (put16 w @ r) = w"
  by (auto simp: put16_def bit_simps intro!: bit_word_eqI)

lemma get16_put16 [simp, codec_simps]: "get16 (put16 w) = w"
  using get16_put16_append [of w "[]"] by simp

lemma get32_put32_append [simp, codec_simps]: "get32 (put32 w @ r) = w"
proof (rule bit_word_eqI)
  fix n :: nat
  assume "n < LENGTH(32)"
  then consider "n < 8" | "8 \<le> n" "n < 16" | "16 \<le> n" "n < 24" | "24 \<le> n" "n < 32"
    by fastforce
  then show "bit (get32 (put32 w @ r)) n = bit w n"
    by cases (auto simp: put32_def bit_simps)
qed

lemma get32_put32 [simp, codec_simps]: "get32 (put32 w) = w"
  using get32_put32_append [of w "[]"] by simp

lemma byte_bit_beyond:
  "\<not> bit (b :: byte) (8 + n)" "\<not> bit (b :: byte) (16 + n)" "\<not> bit (b :: byte) (24 + n)"
  by (auto dest!: bit_imp_le_length)

lemma put16_get16:
  assumes "length bs = 2" shows "put16 (get16 bs) = bs"
proof -
  obtain a b where "bs = [a, b]"
    using assms by (auto simp: numeral_2_eq_2 length_Suc_conv)
  then show ?thesis
    by (auto simp: put16_def bit_simps byte_bit_beyond intro!: bit_word_eqI)
qed

lemma put32_get32:
  assumes "length bs = 4" shows "put32 (get32 bs) = bs"
proof -
  obtain a b c d where "bs = [a, b, c, d]"
    using assms by (auto simp: numeral_eq_Suc length_Suc_conv)
  then show ?thesis
    by (auto simp: put32_def bit_simps byte_bit_beyond intro!: bit_word_eqI)
qed

definition get64 :: "bytes \<Rightarrow> u64" where
  "get64 bs = push_bit 32 (ucast (get32 bs)) OR ucast (get32 (drop 4 bs))"

lemma get64_put64_append [simp, codec_simps]: "get64 (put64 w @ r) = w"
  by (auto simp: get64_def put64_def bit_simps intro!: bit_word_eqI)

lemma get64_put64 [simp, codec_simps]: "get64 (put64 w) = w"
  using get64_put64_append [of w "[]"] by simp

section \<open>Truncation of lengths\<close>

text \<open>
  \<^verbatim>\<open>byte(len(x))\<close> and \<^verbatim>\<open>uint16(len(x))\<close> keep the low bits of the length.
\<close>

abbreviation byte_of_len :: "nat \<Rightarrow> byte" where "byte_of_len n \<equiv> of_nat n"
abbreviation u16_of_len :: "nat \<Rightarrow> u16" where "u16_of_len n \<equiv> of_nat n"

lemma unat_byte_of_len [simp]: "n < 256 \<Longrightarrow> unat (byte_of_len n) = n"
  by (simp add: unat_of_nat)

lemma unat_u16_of_len [simp]: "n < 65536 \<Longrightarrow> unat (u16_of_len n) = n"
  by (simp add: unat_of_nat)

lemma unat_byte_less [simp]: "unat (b :: byte) < 256"
  using unsigned_less [of b] by simp

lemma unat_u16_less [simp]: "unat (w :: u16) < 65536"
  using unsigned_less [of w] by simp

lemma unat_byte_le [simp]: "unat (b :: byte) \<le> 255"
  using unat_byte_less [of b] by linarith

lemma unat_u16_le [simp]: "unat (w :: u16) \<le> 65535"
  using unat_u16_less [of w] by linarith

section \<open>Slices and copy\<close>

text \<open>
  \<open>slice a b bs\<close> is \<^verbatim>\<open>bs[a:b]\<close> for \<open>a \<le> b \<le> length bs\<close>; every use is under that guard, or the
  model has a branch for the panic. \<open>copy_into dst src\<close> is the value of \<open>dst\<close> after
  \<^verbatim>\<open>copy(dst, src)\<close>: the first \<open>min(len dst, len src)\<close> bytes are overwritten.
\<close>

definition slice :: "nat \<Rightarrow> nat \<Rightarrow> bytes \<Rightarrow> bytes" where
  "slice a b bs = take (b - a) (drop a bs)"

lemma length_slice [simp]: "b \<le> length bs \<Longrightarrow> length (slice a b bs) = b - a"
  by (simp add: slice_def)

lemma slice_append_left: "b \<le> length xs \<Longrightarrow> slice a b (xs @ ys) = slice a b xs"
  by (cases "a \<le> b") (simp_all add: slice_def)

lemma slice_append_right: "length xs \<le> a \<Longrightarrow> slice a b (xs @ ys) = slice (a - length xs) (b - length xs) ys"
  by (simp add: slice_def)

lemma slice_whole: "b = length bs \<Longrightarrow> slice 0 b bs = bs"
  by (simp add: slice_def)

lemma slice_at: "dat = pre @ x @ post \<Longrightarrow> length pre = a \<Longrightarrow> b = a + length x \<Longrightarrow> slice a b dat = x"
  by (simp add: slice_def)

lemma nth_at: "dat = pre @ x # post \<Longrightarrow> length pre = n \<Longrightarrow> dat ! n = x"
  by auto

definition copy_into :: "bytes \<Rightarrow> bytes \<Rightarrow> bytes" where
  "copy_into dst src = take (length dst) src @ drop (length src) dst"

abbreviation zeros :: "nat \<Rightarrow> bytes" where "zeros n \<equiv> replicate n 0"

lemma length_copy_into [simp]: "length (copy_into dst src) = length dst"
  by (simp add: copy_into_def)

lemma copy_into_same [simp, codec_simps]: "length src = length dst \<Longrightarrow> copy_into dst src = src"
  by (simp add: copy_into_def)

lemma copy_into_long: "length dst \<le> length src \<Longrightarrow> copy_into dst src = take (length dst) src"
  by (simp add: copy_into_def)

lemma copy_into_nil [simp]: "copy_into dst [] = dst"
  by (simp add: copy_into_def)

section \<open>Readers\<close>

text \<open>
  An \<open>io.Reader\<close> is the list of bytes still to come. \<open>read_full n\<close> is \<open>io.ReadFull\<close> into a buffer
  of length \<open>n\<close>: \<open>EOF\<close> when nothing was left, \<open>UnexpectedEOF\<close> when too little was.
\<close>

datatype io_error = EOF | UnexpectedEOF

definition read_full :: "nat \<Rightarrow> bytes \<Rightarrow> io_error + (bytes \<times> bytes)" where
  "read_full n bs =
     (if n \<le> length bs then Inr (take n bs, drop n bs)
      else Inl (if bs = [] then EOF else UnexpectedEOF))"

lemma read_full_append [simp, codec_simps]: "length a = n \<Longrightarrow> read_full n (a @ r) = Inr (a, r)"
  by (simp add: read_full_def)

lemma read_full_zero [simp]: "read_full 0 r = Inr ([], r)"
  by (simp add: read_full_def)

lemma read_full_exact [simp, codec_simps]: "length a = n \<Longrightarrow> read_full n a = Inr (a, [])"
  by (simp add: read_full_def)

lemma read_full_Cons1 [simp, codec_simps]: "read_full (Suc 0) (b # r) = Inr ([b], r)"
  by (simp add: read_full_def)

lemma read_full_one [simp, codec_simps]: "read_full 1 (b # r) = Inr ([b], r)"
  by (simp add: read_full_def)

lemma read_full_put16 [simp, codec_simps]: "read_full 2 (put16 w @ r) = Inr (put16 w, r)"
  by simp

lemma read_full_Inr_iff:
  "read_full n bs = Inr (a, r) \<longleftrightarrow> length a = n \<and> bs = a @ r"
  by (auto simp: read_full_def)

lemma read_full_Inl_iff:
  "read_full n bs = Inl e \<longleftrightarrow> length bs < n \<and> e = (if bs = [] then EOF else UnexpectedEOF)"
  by (auto simp: read_full_def)

section \<open>Writers\<close>

text \<open>
  An operation on an \<open>io.Writer\<close> is the pair of the bytes it wrote and the error it returned, if
  any. The writer itself does not fail. \<open>wseq\<close> runs the second operation when the first succeeds.
\<close>

type_synonym 'e written = "bytes \<times> 'e option"

definition wseq :: "'e written \<Rightarrow> 'e written \<Rightarrow> 'e written" where
  "wseq a b = (case snd a of None \<Rightarrow> (fst a @ fst b, snd b) | Some e \<Rightarrow> a)"

definition wwrite :: "bytes \<Rightarrow> 'e written" where
  "wwrite bs = (bs, None)"

definition werr :: "('e \<Rightarrow> 'f) \<Rightarrow> 'e written \<Rightarrow> 'f written" where
  "werr f a = (fst a, map_option f (snd a))"

lemma snd_wwrite [simp]: "snd (wwrite bs) = None" and fst_wwrite [simp]: "fst (wwrite bs) = bs"
  by (simp_all add: wwrite_def)

lemma snd_wseq: "snd (wseq a b) = None \<longleftrightarrow> snd a = None \<and> snd b = None"
  by (auto simp: wseq_def split: option.splits)

lemma fst_wseq: "snd a = None \<Longrightarrow> fst (wseq a b) = fst a @ fst b"
  by (simp add: wseq_def)

lemma fst_werr [simp]: "fst (werr f a) = fst a" and snd_werr [simp]: "snd (werr f a) = None \<longleftrightarrow> snd a = None"
  by (simp_all add: werr_def)

section \<open>Strings and bytes\<close>

definition byte_of_char :: "char \<Rightarrow> byte" where
  "byte_of_char c = of_nat (of_char c)"

definition char_of_byte :: "byte \<Rightarrow> char" where
  "char_of_byte b = char_of (unat b)"

definition bytes_of :: "string \<Rightarrow> bytes" where
  "bytes_of = map byte_of_char"

definition string_of :: "bytes \<Rightarrow> string" where
  "string_of = map char_of_byte"

lemma char_of_byte_of_char [simp]: "char_of_byte (byte_of_char c) = c"
  by (simp add: char_of_byte_def byte_of_char_def)

lemma byte_of_char_of_byte [simp]: "byte_of_char (char_of_byte b) = b"
  by (simp add: char_of_byte_def byte_of_char_def)

lemma string_of_bytes_of [simp, codec_simps]: "string_of (bytes_of s) = s"
  by (simp add: string_of_def bytes_of_def comp_def)

lemma bytes_of_string_of [simp, codec_simps]: "bytes_of (string_of b) = b"
  by (simp add: string_of_def bytes_of_def comp_def)

lemma length_bytes_of [simp]: "length (bytes_of s) = length s"
  by (simp add: bytes_of_def)

lemma length_string_of [simp]: "length (string_of b) = length b"
  by (simp add: string_of_def)

lemma bytes_of_append [simp]: "bytes_of (s @ t) = bytes_of s @ bytes_of t"
  by (simp add: bytes_of_def)

lemma bytes_of_inject [simp]: "bytes_of s = bytes_of t \<longleftrightarrow> s = t"
  by (metis string_of_bytes_of)

section \<open>Hexadecimal\<close>

text \<open>\<open>hex.EncodeToString\<close>: two lower-case digits per byte.\<close>

definition hex_digit :: "byte \<Rightarrow> char" where
  "hex_digit d = (if d < 10 then char_of (48 + unat d) else char_of (87 + unat d))"

definition hex_EncodeToString :: "bytes \<Rightarrow> string" where
  "hex_EncodeToString bs = concat (map (\<lambda>b. [hex_digit (drop_bit 4 b), hex_digit (and b 15)]) bs)"

lemma length_hex_EncodeToString [simp]: "length (hex_EncodeToString bs) = 2 * length bs"
  by (induction bs) (simp_all add: hex_EncodeToString_def)

section \<open>Prefix masks\<close>

text \<open>The netmask of an IPv4 prefix of the given length.\<close>

definition prefix_mask :: "nat \<Rightarrow> u32" where
  "prefix_mask bits = (if bits > 0 then push_bit (32 - bits) (NOT 0) else 0)"

lemma prefix_mask_eq: "n \<le> 32 \<Longrightarrow> prefix_mask n = push_bit (32 - n) (- 1)"
  by (auto simp: prefix_mask_def bit_simps intro!: bit_word_eqI)

lemma and_prefix_mask: "n \<le> 32 \<Longrightarrow> a AND prefix_mask n = push_bit (32 - n) (drop_bit (32 - n) a)"
  by (auto simp: prefix_mask_eq bit_simps intro!: bit_word_eqI)

lemma unat_lt_32: "unat (a :: u32) < 2 ^ 32"
  using unsigned_less [of a] by simp

lemma unat_and_prefix_mask:
  assumes "n \<le> 32"
  shows "unat (a AND prefix_mask n) = unat a div 2 ^ (32 - n) * 2 ^ (32 - n)"
proof -
  have "unat a div 2 ^ (32 - n) * 2 ^ (32 - n) \<le> unat a" by simp
  also have "\<dots> < 2 ^ 32" by (rule unat_lt_32)
  finally have "unat a div 2 ^ (32 - n) * 2 ^ (32 - n) < 2 ^ 32" .
  moreover have "unat (a AND prefix_mask n) = take_bit 32 (push_bit (32 - n) (drop_bit (32 - n) (unat a)))"
    unfolding and_prefix_mask [OF assms] unsigned_push_bit_eq unsigned_drop_bit_eq
    using unat_lt_32 by (simp add: take_bit_nat_eq_self)
  ultimately show ?thesis
    by (simp add: push_bit_eq_mult drop_bit_eq_div take_bit_eq_mod)
qed

text \<open>The addresses \<open>a + i\<close> of the block of \<open>2^(32 - bits)\<close> addresses that starts at \<open>a\<close>.\<close>

lemma offset_in_prefix:
  assumes "bits \<le> 32" and "a AND prefix_mask bits = a" and "unat i < 2 ^ (32 - bits)"
  shows "(a + i) AND prefix_mask bits = a" and "unat (a + i) = unat a + unat i"
proof -
  define k where "k = 32 - bits"
  define q where "q = unat a div 2 ^ k"
  have a: "unat a = q * 2 ^ k"
    using unat_and_prefix_mask [of bits a] assms(1,2) by (simp add: k_def q_def)
  have i: "unat i < 2 ^ k" using assms(3) by (simp add: k_def)
  have split: "(2::nat) ^ 32 = 2 ^ bits * 2 ^ k"
    using assms(1) by (simp add: k_def power_add [symmetric])
  have "q * 2 ^ k < 2 ^ bits * 2 ^ k" using unat_lt_32 [of a] unfolding a split .
  then have "q + 1 \<le> 2 ^ bits" by simp
  then have "(q + 1) * 2 ^ k \<le> 2 ^ bits * 2 ^ k" by (rule mult_right_mono) simp
  then have "q * 2 ^ k + 2 ^ k \<le> 2 ^ 32" unfolding split by (simp add: add.commute)
  then have room: "unat a + unat i < 2 ^ 32" using i unfolding a by linarith
  then show u: "unat (a + i) = unat a + unat i" by (simp add: unat_word_ariths)
  have "(q * 2 ^ k + unat i) div 2 ^ k = q"
    using i div_mult_self3 [of "2 ^ k" q "unat i"] by simp
  then have "unat ((a + i) AND prefix_mask bits) = unat a"
    using unat_and_prefix_mask [of bits "a + i"] assms(1) u a by (simp add: k_def)
  then show "(a + i) AND prefix_mask bits = a" by (rule unsigned_word_eqI)
qed

lemma and_prefix_mask_mono: "n \<le> 32 \<Longrightarrow> a \<le> b \<Longrightarrow> a AND prefix_mask n \<le> b AND prefix_mask n"
  by (simp add: word_le_nat_alt unat_and_prefix_mask div_le_mono)

end
