(* ===== verification/GoNet.thy ===== *)
theory GoNet
  imports GoBytes GoStrings
begin

text \<open>
  The part of Go's \<open>net\<close> and \<open>net/netip\<close> packages that the modelled code calls: IP addresses as
  byte slices, networks and containment, parsing and printing of addresses, and host:port pairs.
  A nil \<open>net.IP\<close> is the empty list. The definitions follow the library's own control flow, so
  that what is rejected (leading zeros, a misplaced \<open>::\<close>, a zone) is rejected here.
\<close>

type_synonym IP = bytes
type_synonym IPMask = bytes

record IPNet =
  netIP :: IP
  netMask :: IPMask

section \<open>Addresses and networks\<close>

definition v4InV6Prefix :: bytes where
  "v4InV6Prefix = zeros 10 @ [255, 255]"

definition To4 :: "IP \<Rightarrow> IP" where
  "To4 ip = (if length ip = 4 then ip
             else if length ip = 16 \<and> take 12 ip = v4InV6Prefix then drop 12 ip
             else [])"

definition To16 :: "IP \<Rightarrow> IP" where
  "To16 ip = (if length ip = 4 then v4InV6Prefix @ ip
              else if length ip = 16 then ip else [])"

text \<open>\<open>IP.Equal\<close>: an IPv4 address and its IPv4-in-IPv6 form are equal.\<close>

definition IP_Equal :: "IP \<Rightarrow> IP \<Rightarrow> bool" where
  "IP_Equal a b = (if length a = length b then a = b
                   else if length a = 4 \<and> length b = 16 then take 12 b = v4InV6Prefix \<and> drop 12 b = a
                   else if length a = 16 \<and> length b = 4 then take 12 a = v4InV6Prefix \<and> drop 12 a = b
                   else False)"

definition networkNumberAndMask :: "IPNet \<Rightarrow> (IP \<times> IPMask)" where
  "networkNumberAndMask n =
     (let ip = (if To4 (netIP n) \<noteq> [] then To4 (netIP n) else netIP n); m = netMask n
      in if length ip \<noteq> 4 \<and> length ip \<noteq> 16 then ([], [])
         else if length m = 4 then (if length ip \<noteq> 4 then ([], []) else (ip, m))
         else if length m = 16 then (if length ip = 4 then (ip, drop 12 m) else (ip, m))
         else ([], []))"

definition IPNet_Contains :: "IPNet \<Rightarrow> IP \<Rightarrow> bool" where
  "IPNet_Contains n ip0 =
     (let (nn, m) = networkNumberAndMask n;
          ip = (if To4 ip0 \<noteq> [] then To4 ip0 else ip0)
      in if length ip \<noteq> length nn then False
         else list_all2 (\<lambda>(a, k) b. and a k = and b k) (zip nn m) ip)"

fun cidr_mask_loop :: "nat \<Rightarrow> nat \<Rightarrow> bytes" where
  "cidr_mask_loop 0 n = []"
| "cidr_mask_loop (Suc l) n =
     (if n \<ge> 8 then 255 # cidr_mask_loop l (n - 8) else not (drop_bit n 255) # cidr_mask_loop l 0)"

definition CIDRMask :: "nat \<Rightarrow> nat \<Rightarrow> IPMask" where
  "CIDRMask ones bits = cidr_mask_loop (bits div 8) ones"

text \<open>\<open>IPMask.Size\<close>: the number of leading one bits of a canonical mask, 0 of any other.\<close>

fun leading_ones :: "nat \<Rightarrow> byte \<Rightarrow> nat option" where
  "leading_ones 0 v = Some 0"
| "leading_ones (Suc k) v =
     (if bit v 7 then map_option Suc (leading_ones k (push_bit 1 v))
      else if v = 0 then Some 0 else None)"

fun simpleMaskLength :: "IPMask \<Rightarrow> nat option" where
  "simpleMaskLength [] = Some 0"
| "simpleMaskLength (v # vs) =
     (if v = 255 then map_option ((+) 8) (simpleMaskLength vs)
      else if list_all (\<lambda>x. x = 0) vs then leading_ones 8 v else None)"

definition IPMask_Size :: "IPMask \<Rightarrow> nat" where
  "IPMask_Size m = (case simpleMaskLength m of None \<Rightarrow> 0 | Some n \<Rightarrow> n)"

definition IP_Mask :: "IP \<Rightarrow> IPMask \<Rightarrow> IP" where
  "IP_Mask ip0 m0 =
     (let m = (if length m0 = 16 \<and> length ip0 = 4 \<and> take 12 m0 = replicate 12 255 then drop 12 m0 else m0);
          ip = (if length m = 4 \<and> length ip0 = 16 \<and> take 12 ip0 = v4InV6Prefix then drop 12 ip0 else ip0)
      in if length ip \<noteq> length m then [] else map2 and ip m)"

section \<open>Parsing addresses\<close>

datatype Addr = Addr4 bytes | Addr6 bytes string

fun ipv4_loop :: "bool \<Rightarrow> bool \<Rightarrow> nat \<Rightarrow> nat \<Rightarrow> bytes \<Rightarrow> string \<Rightarrow> bytes option" where
  "ipv4_loop isfirst prevdot val digLen fs [] =
     (if length fs < 3 then None else Some (fs @ [of_nat val]))"
| "ipv4_loop isfirst prevdot val digLen fs (c # s) =
     (if is_digit c then
        (if digLen = 1 \<and> val = 0 then None
         else let v = val * 10 + digit_val c
              in if v > 255 then None else ipv4_loop False False v (digLen + 1) fs s)
      else if c = CHR ''.'' then
        (if isfirst \<or> s = [] \<or> prevdot then None
         else if length fs = 3 then None
         else ipv4_loop False True 0 0 (fs @ [of_nat val]) s)
      else None)"

definition parseIPv4Fields :: "string \<Rightarrow> bytes option" where
  "parseIPv4Fields s = ipv4_loop True False 0 0 [] s"

definition hex_val :: "char \<Rightarrow> nat option" where
  "hex_val c = (let n = (of_char c :: nat)
     in if 48 \<le> n \<and> n \<le> 57 then Some (n - 48)
        else if 97 \<le> n \<and> n \<le> 102 then Some (n - 97 + 10)
        else if 65 \<le> n \<and> n \<le> 70 then Some (n - 65 + 10)
        else None)"

fun hex_loop :: "nat \<Rightarrow> int \<Rightarrow> string \<Rightarrow> (nat \<times> int \<times> string) option" where
  "hex_loop off acc [] = Some (off, acc, [])"
| "hex_loop off acc (c # s) =
     (case hex_val c of
        None \<Rightarrow> Some (off, acc, c # s)
      | Some d \<Rightarrow>
          (let acc' = acc * 16 + int d
           in if off > 3 then None else if acc' > 65535 then None else hex_loop (Suc off) acc' s))"

lemma hex_loop_length:
  "hex_loop off acc s = Some (off', acc', rest) \<Longrightarrow> off \<le> off' \<and> length rest + off' = length s + off"
  by (induction s arbitrary: off acc) (fastforce simp: Let_def split: option.splits if_splits)+

function ipv6_loop :: "bytes \<Rightarrow> nat option \<Rightarrow> string \<Rightarrow> (bytes \<times> nat option \<times> string) option" where
  "ipv6_loop ip ell s =
     (if length ip \<ge> 16 then Some (ip, ell, s)
      else case hex_loop 0 0 s of
        None \<Rightarrow> None
      | Some (off, acc, rest) \<Rightarrow>
          if off = 0 then None
          else if HasPrefix rest ''.'' then
            (if ell = None \<and> length ip \<noteq> 12 then None
             else if length ip + 4 > 16 then None
             else map_option (\<lambda>f. (ip @ f, ell, '''')) (parseIPv4Fields s))
          else (let ip' = ip @ put16 (of_int acc)
                in case rest of
                     [] \<Rightarrow> Some (ip', ell, '''')
                   | c # r \<Rightarrow>
                       if c \<noteq> CHR '':'' then None
                       else (case r of
                               [] \<Rightarrow> None
                             | c2 # r2 \<Rightarrow>
                                 if c2 = CHR '':'' then
                                   (if ell \<noteq> None then None
                                    else if r2 = [] then Some (ip', Some (length ip'), '''')
                                    else ipv6_loop ip' (Some (length ip')) r2)
                                 else ipv6_loop ip' ell r)))"
  by pat_completeness auto
termination
  by (relation "measure (\<lambda>(ip, ell, s). length s)") (auto dest: hex_loop_length)

declare ipv6_loop.simps [simp del]

definition ipv6_finish :: "bytes \<Rightarrow> nat option \<Rightarrow> string \<Rightarrow> bytes option" where
  "ipv6_finish ip ell s =
     (if s \<noteq> [] then None
      else if length ip < 16 then
        (case ell of None \<Rightarrow> None | Some e \<Rightarrow> Some (take e ip @ zeros (16 - length ip) @ drop e ip))
      else if ell \<noteq> None then None else Some ip)"

definition parseIPv6 :: "string \<Rightarrow> Addr option" where
  "parseIPv6 inp =
     (let (s, zone, badzone) = (case Cut inp (CHR ''%'') of
                         None \<Rightarrow> (inp, '''', False)
                       | Some (a, z) \<Rightarrow> (a, z, z = ''''))
      in if badzone then None
         else if s = ''::'' then Some (Addr6 (zeros 16) zone)
         else (let (ell, s') = (if HasPrefix s ''::'' then (Some 0, drop 2 s) else (None, s))
               in case ipv6_loop [] ell s' of
                    None \<Rightarrow> None
                  | Some (ip, e, r) \<Rightarrow> map_option (\<lambda>b. Addr6 b zone) (ipv6_finish ip e r)))"

fun parse_addr_scan :: "string \<Rightarrow> string \<Rightarrow> Addr option" where
  "parse_addr_scan s [] = None"
| "parse_addr_scan s (c # cs) =
     (if c = CHR ''.'' then map_option Addr4 (parseIPv4Fields s)
      else if c = CHR '':'' then parseIPv6 s
      else if c = CHR ''%'' then None
      else parse_addr_scan s cs)"

definition ParseAddr :: "string \<Rightarrow> Addr option" where
  "ParseAddr s = parse_addr_scan s s"

fun Addr_As16 :: "Addr \<Rightarrow> bytes" where
  "Addr_As16 (Addr4 b) = v4InV6Prefix @ b"
| "Addr_As16 (Addr6 b z) = b"

fun Addr_BitLen :: "Addr \<Rightarrow> nat" where
  "Addr_BitLen (Addr4 b) = 32"
| "Addr_BitLen (Addr6 b z) = 128"

fun Addr_Zone :: "Addr \<Rightarrow> string" where
  "Addr_Zone (Addr4 b) = ''''"
| "Addr_Zone (Addr6 b z) = z"

definition ParseIP :: "string \<Rightarrow> IP" where
  "ParseIP s = (case ParseAddr s of
                  None \<Rightarrow> []
                | Some a \<Rightarrow> if Addr_Zone a \<noteq> '''' then [] else Addr_As16 a)"

text \<open>\<open>dtoi\<close>: the decimal prefix of a string, failing on none or on a value of 0xFFFFFF or more.\<close>

fun dtoi_loop :: "int \<Rightarrow> string \<Rightarrow> (int \<times> string) option" where
  "dtoi_loop n [] = Some (n, [])"
| "dtoi_loop n (c # cs) =
     (if is_digit c then
        (let n' = n * 10 + int (digit_val c) in if n' \<ge> 16777215 then None else dtoi_loop n' cs)
      else Some (n, c # cs))"

definition ParseCIDR :: "string \<Rightarrow> IPNet option" where
  "ParseCIDR s =
     (case Cut s (CHR ''/'') of
        None \<Rightarrow> None
      | Some (addr, msk) \<Rightarrow>
          (case ParseAddr addr of
             None \<Rightarrow> None
           | Some a \<Rightarrow>
               if Addr_Zone a \<noteq> '''' then None
               else if msk = [] then None
               else (case dtoi_loop 0 msk of
                       None \<Rightarrow> None
                     | Some (n, rest) \<Rightarrow>
                         if rest \<noteq> [] \<or> n > int (Addr_BitLen a) then None
                         else (let m = CIDRMask (nat n) (Addr_BitLen a)
                               in Some \<lparr>netIP = IP_Mask (Addr_As16 a) m, netMask = m\<rparr>))))"

section \<open>Printing addresses\<close>

fun FormatHex :: "nat \<Rightarrow> string" where
  "FormatHex n = (let dg = (\<lambda>d. if d < 10 then digit_char d else char_of (87 + d))
     in if n < 16 then [dg n] else FormatHex (n div 16) @ [dg (n mod 16)])"

declare FormatHex.simps [simp del]

definition format_ipv4 :: "bytes \<Rightarrow> string" where
  "format_ipv4 b = Join (map (\<lambda>x. FormatUint (unat x)) b) ''.''"

fun v6_groups :: "bytes \<Rightarrow> nat list" where
  "v6_groups (a # b # bs) = (unat a * 256 + unat b) # v6_groups bs"
| "v6_groups _ = []"

definition longest_zero_run :: "nat list \<Rightarrow> nat \<times> nat" where
  "longest_zero_run gs =
     fold (\<lambda>i (zs, ze). let l = length (takeWhile (\<lambda>g. g = 0) (drop i gs))
                        in if l \<ge> 2 \<and> l > ze - zs then (i, i + l) else (zs, ze))
          [0..<8] (255, 255)"

definition format_ipv6 :: "bytes \<Rightarrow> string" where
  "format_ipv6 b =
     (let gs = v6_groups b; (zs, ze) = longest_zero_run gs
      in if zs = 255 then Join (map FormatHex gs) '':''
         else Join (map FormatHex (take zs gs)) '':'' @ ''::'' @ Join (map FormatHex (drop ze gs)) '':'')"

definition IP_String :: "IP \<Rightarrow> string" where
  "IP_String ip =
     (if ip = [] then ''<nil>''
      else if length ip \<noteq> 4 \<and> length ip \<noteq> 16 then ''?'' @ concat (map (\<lambda>b. FormatHex (unat b div 16) @ FormatHex (unat b mod 16)) ip)
      else if To4 ip \<noteq> [] then format_ipv4 (To4 ip)
      else format_ipv6 ip)"

section \<open>Host and port\<close>

datatype hostport_error = MissingPort | TooManyColons | MissingBracket | UnexpectedOpen | UnexpectedClose

fun IndexByte :: "string \<Rightarrow> char \<Rightarrow> nat option" where
  "IndexByte [] c = None"
| "IndexByte (x # xs) c = (if x = c then Some 0 else map_option Suc (IndexByte xs c))"

definition SplitHostPort :: "string \<Rightarrow> hostport_error + (string \<times> string)" where
  "SplitHostPort hostport =
     (case IndexByte (rev hostport) (CHR '':'') of
        None \<Rightarrow> Inl MissingPort
      | Some ri \<Rightarrow>
          (let i = length hostport - 1 - ri;
               check = (\<lambda>host j k.
                  if CHR ''['' \<in> set (drop j hostport) then Inl UnexpectedOpen
                  else if CHR '']'' \<in> set (drop k hostport) then Inl UnexpectedClose
                  else Inr (host, drop (i + 1) hostport))
           in if HasPrefix hostport ''['' then
                (case IndexByte hostport (CHR '']'') of
                   None \<Rightarrow> Inl MissingBracket
                 | Some e \<Rightarrow>
                     if e + 1 = length hostport then Inl MissingPort
                     else if e + 1 = i then check (take (e - 1) (drop 1 hostport)) 1 (e + 1)
                     else if hostport ! (e + 1) = CHR '':'' then Inl TooManyColons
                     else Inl MissingPort)
              else if CHR '':'' \<in> set (take i hostport) then Inl TooManyColons
              else check (take i hostport) 0 0))"

definition JoinHostPort :: "string \<Rightarrow> string \<Rightarrow> string" where
  "JoinHostPort host port =
     (if CHR '':'' \<in> set host then ''['' @ host @ '']:'' @ port else host @ '':'' @ port)"

section \<open>Facts\<close>

lemma IndexByte_append: "c \<notin> set a \<Longrightarrow> IndexByte (a @ c # b) c = Some (length a)"
  by (induction a) auto

lemma SplitHostPort_plain:
  assumes "set h \<inter> {CHR '':'', CHR ''['', CHR '']''} = {}" and "set p \<inter> {CHR '':'', CHR ''['', CHR '']''} = {}"
  shows "SplitHostPort (h @ '':'' @ p) = Inr (h, p)"
proof -
  have "IndexByte (rev (h @ '':'' @ p)) (CHR '':'') = Some (length p)"
    using assms(2) IndexByte_append [of "CHR '':''" "rev p" "rev h"] by auto
  moreover have "\<not> HasPrefix (h @ '':'' @ p) ''[''"
    using assms(1) by (cases h) (auto simp: HasPrefix_def)
  ultimately show ?thesis
    using assms by (auto simp: SplitHostPort_def)
qed

lemma SplitHostPort_bracketed:
  assumes "set h \<inter> {CHR ''['', CHR '']''} = {}" and "set p \<inter> {CHR '':'', CHR ''['', CHR '']''} = {}"
  shows "SplitHostPort (''['' @ h @ '']:'' @ p) = Inr (h, p)"
proof -
  have "IndexByte (rev (''['' @ h @ '']:'' @ p)) (CHR '':'') = Some (length p)"
    using assms(2) IndexByte_append [of "CHR '':''" "rev p" "CHR '']'' # rev h @ ''[''"] by auto
  moreover have "IndexByte (''['' @ h @ '']:'' @ p) (CHR '']'') = Some (Suc (length h))"
    using assms(1) IndexByte_append [of "CHR '']''" "''['' @ h" "'':'' @ p"] by auto
  ultimately show ?thesis
    using assms by (auto simp: SplitHostPort_def)
qed

lemma digits_not_special: "is_digit c \<Longrightarrow> c \<noteq> CHR '':'' \<and> c \<noteq> CHR ''['' \<and> c \<noteq> CHR '']'' \<and> c \<noteq> CHR ''.''"
  by (auto simp: is_digit_def)

lemma FormatUint_no_special:
  "set (FormatUint n) \<inter> {CHR '':'', CHR ''['', CHR '']''} = {}"
  using FormatUint_digits digits_not_special by fastforce

lemma To4_length: "To4 ip = [] \<or> length (To4 ip) = 4"
  by (auto simp: To4_def)

lemma To4_4 [simp]: "length ip = 4 \<Longrightarrow> To4 ip = ip"
  by (simp add: To4_def)

lemma To4_mapped [simp]: "length ip = 4 \<Longrightarrow> To4 (v4InV6Prefix @ ip) = ip"
  by (simp add: To4_def v4InV6Prefix_def)

section \<open>Lengths\<close>

lemma list4E:
  assumes "length xs = 4" obtains a b c d where "xs = [a, b, c, d]"
  using assms by (auto simp: length_Suc_conv eval_nat_numeral)

lemma length_cidr_mask_loop [simp]: "length (cidr_mask_loop l n) = l"
  by (induction l n rule: cidr_mask_loop.induct) auto

lemma length_CIDRMask [simp]: "length (CIDRMask n bits) = bits div 8"
  by (simp add: CIDRMask_def)

lemma ipv4_loop_length: "ipv4_loop f p v d fs s = Some b \<Longrightarrow> length fs \<le> 3 \<Longrightarrow> length b = 4"
  by (induction f p v d fs s rule: ipv4_loop.induct) (auto simp: Let_def split: if_splits)

lemma parseIPv4Fields_length: "parseIPv4Fields s = Some b \<Longrightarrow> length b = 4"
  by (auto simp: parseIPv4Fields_def dest: ipv4_loop_length)

lemma parse_addr_scan_Addr4: "parse_addr_scan s cs = Some (Addr4 b) \<Longrightarrow> length b = 4"
  by (induction s cs rule: parse_addr_scan.induct)
    (auto simp: parseIPv6_def Let_def parseIPv4Fields_length split: if_splits option.splits prod.splits)


lemma ipv6_loop_length:
  "ipv6_loop ip ell s = Some (ip', ell', r) \<Longrightarrow> even (length ip) \<Longrightarrow> length ip \<le> 16 \<Longrightarrow>
     even (length ip') \<and> length ip' \<le> 16"
proof (induction ip ell s rule: ipv6_loop.induct)
  case (1 ip ell s)
  show ?case
  proof (cases "length ip \<ge> 16")
    case True
    then show ?thesis using "1.prems" by (subst (asm) ipv6_loop.simps) simp
  next
    case False
    then have "length ip \<le> 14" using "1.prems"(2) by presburger
    then have l: "even (length (ip @ put16 (of_int acc)))" "length (ip @ put16 (of_int acc)) \<le> 16" for acc
      using "1.prems"(2) by simp_all
    note ih1 = "1.IH"(1) [OF False _ refl refl _ _ refl _ _ refl _ _ _ _ l]
      and ih2 = "1.IH"(2) [OF False _ refl refl _ _ refl _ _ refl _ _ l]
    show ?thesis
      using "1.prems"(1,2) False ih1 ih2
      by (subst (asm) (1) ipv6_loop.simps)
        (auto simp: Let_def parseIPv4Fields_length split: option.splits prod.splits if_splits list.splits)
  qed
qed

lemma ipv6_finish_length: "ipv6_finish ip e s = Some b \<Longrightarrow> length ip \<le> 16 \<Longrightarrow> length b = 16"
  by (auto simp: ipv6_finish_def split: if_splits option.splits)

lemma parseIPv6_length: "parseIPv6 s = Some a \<Longrightarrow> \<exists>b z. a = Addr6 b z \<and> length b = 16"
  by (auto simp: parseIPv6_def Let_def split: if_splits option.splits prod.splits
      dest!: ipv6_loop_length intro: ipv6_finish_length)

lemma parse_addr_scan_Addr6: "parse_addr_scan s cs = Some (Addr6 b z) \<Longrightarrow> length b = 16"
  by (induction s cs rule: parse_addr_scan.induct) (auto dest: parseIPv6_length split: if_splits)

lemma ParseIP_length: "ParseIP s = [] \<or> length (ParseIP s) = 16"
proof (cases "ParseAddr s")
  case (Some a)
  then show ?thesis
    by (cases a) (auto simp: ParseIP_def ParseAddr_def v4InV6Prefix_def
        dest: parse_addr_scan_Addr4 parse_addr_scan_Addr6)
qed (simp add: ParseIP_def)

section \<open>Printed IPv4 addresses\<close>

lemma ipv4_loop_digits:
  assumes "n < 256"
  shows "ipv4_loop f p 0 0 fs (FormatUint n @ s) = ipv4_loop False False n (length (FormatUint n)) fs s"
proof -
  consider "n < 10" | "10 \<le> n" "n < 100" | "100 \<le> n" "n < 256" using assms(1) by linarith
  then show ?thesis
  proof cases
    case 1
    then show ?thesis by (simp add: FormatUint.simps)
  next
    case 2
    then have "FormatUint n = [digit_char (n div 10), digit_char (n mod 10)]"
      by (simp add: FormatUint.simps [of n] FormatUint.simps [of "n div 10"])
    moreover have "n div 10 < 10" "0 < n div 10" using 2 by auto
    ultimately show ?thesis using 2 by (simp add: Let_def)
  next
    case 3
    have q: "n div 10 div 10 = n div 100" using div_mult2_eq [of n 10 10] by simp
    have "\<not> n < 10" "\<not> n div 10 < 10" using 3 div_le_mono [of 100 n 10] by simp_all
    moreover have h: "n div 100 < 10" "0 < n div 100"
      using 3 div_le_mono [of 100 n 100] div_le_mono [of n 255 100] by simp_all
    ultimately have "FormatUint n = [digit_char (n div 100), digit_char (n div 10 mod 10), digit_char (n mod 10)]"
      by (simp only: FormatUint.simps [of n] FormatUint.simps [of "n div 10"] FormatUint.simps [of "n div 100"]
          q if_False if_True append.simps)
    moreover have "n div 100 * 10 + n div 10 mod 10 = n div 10" "n div 10 * 10 + n mod 10 = n"
      using div_mult_mod_eq [of "n div 10" 10] div_mult_mod_eq [of n 10] by (simp_all add: q)
    moreover have "n div 10 \<le> 25" using 3 div_le_mono [of n 255 10] by simp
    ultimately show ?thesis using 3 h by (simp add: Let_def)
  qed
qed

lemma dot_no_digit [simp]: "\<not> is_digit (CHR ''.'')"
  by (simp add: is_digit_def)

lemma ipv4_loop_dot:
  "s \<noteq> [] \<Longrightarrow> length fs < 3 \<Longrightarrow> ipv4_loop False False v k fs (CHR ''.'' # s) =
     ipv4_loop False True 0 0 (fs @ [of_nat v]) s"
  by simp

lemma parseIPv4Fields_format:
  assumes "length b = 4"
  shows "parseIPv4Fields (format_ipv4 b) = Some b"
proof -
  obtain p q r s where b: "b = [p, q, r, s]" using assms by (rule list4E)
  have f: "ipv4_loop x y 0 0 fs (FormatUint (unat v) @ t) =
      ipv4_loop False False (unat v) (length (FormatUint (unat v))) fs t" for x y fs t and v :: byte
    by (rule ipv4_loop_digits) simp
  show ?thesis
    unfolding parseIPv4Fields_def format_ipv4_def b
    using f [where t = "[]"] by (simp add: Join.simps f ipv4_loop_dot)
qed

lemma format_ipv4_ParseIP:
  assumes "length b = 4"
  shows "ParseIP (format_ipv4 b) = v4InV6Prefix @ b"
proof -
  obtain p q r s where b: "b = [p, q, r, s]" using assms by (rule list4E)
  have "parse_addr_scan t (FormatUint n @ CHR ''.'' # u) = map_option Addr4 (parseIPv4Fields t)" for t n u
  proof -
    have "\<forall>c\<in>set d. is_digit c \<Longrightarrow> parse_addr_scan t (d @ CHR ''.'' # u) = map_option Addr4 (parseIPv4Fields t)" for d
      by (induction d) (auto simp: is_digit_def)
    then show ?thesis using FormatUint_digits by blast
  qed
  then have "ParseAddr (format_ipv4 b) = Some (Addr4 b)"
    using parseIPv4Fields_format [OF assms] by (simp add: ParseAddr_def format_ipv4_def b Join.simps)
  then show ?thesis by (simp add: ParseIP_def)
qed

end
