(* ===== verification/Addr.thy ===== *)
theory Addr
  imports GoNet
begin

text \<open>
  The SOCKS5-style address codec of \<^verbatim>\<open>transport/shared/addr.go\<close>, which the request headers of the
  VLESS, Trojan and VMess transports embed. The lemmas say what the reader makes of every address
  the writer accepts, and which address texts come back unchanged.
\<close>

datatype addr_error =
    SplitErr hostport_error
  | PortErr num_error
  | DomainTooLong
  | ReadErr string io_error
  | UnknownAType byte

abbreviation "AddrTypeIPv4 \<equiv> 0x01 :: byte"
abbreviation "AddrTypeDomain \<equiv> 0x03 :: byte"
abbreviation "AddrTypeIPv6 \<equiv> 0x04 :: byte"

definition EncodeAddr :: "string \<Rightarrow> string \<Rightarrow> addr_error written" where
  "EncodeAddr network address =
     (case SplitHostPort address of
        Inl e \<Rightarrow> ([], Some (SplitErr e))
      | Inr (host, portStr) \<Rightarrow>
          (case ParseUint portStr 16 of
             Inl e \<Rightarrow> ([], Some (PortErr e))
           | Inr port \<Rightarrow>
               (let portBytes = put16 (of_nat port); ip = ParseIP host
                in if ip = [] then
                     (let domain = bytes_of host
                      in if length domain > 255 then ([], Some DomainTooLong)
                         else wseq (wwrite (AddrTypeDomain # byte_of_len (length domain) # domain)) (wwrite portBytes))
                   else if To4 ip \<noteq> [] then
                     wseq (wwrite (AddrTypeIPv4 # copy_into (zeros 4) (To4 ip))) (wwrite portBytes)
                   else wseq (wwrite (AddrTypeIPv6 # copy_into (zeros 16) (To16 ip))) (wwrite portBytes))))"

definition read_host :: "byte \<Rightarrow> bytes \<Rightarrow> addr_error + (string \<times> bytes)" where
  "read_host atype r =
     (if atype = AddrTypeIPv4 then
        rbind (map_err (ReadErr ''read ipv4'') (read_full 4 r)) (\<lambda>(buf, r). Inr (IP_String buf, r))
      else if atype = AddrTypeDomain then
        rbind (map_err (ReadErr ''read domain length'') (read_full 1 r)) (\<lambda>(lenBuf, r).
        rbind (map_err (ReadErr ''read domain'') (read_full (unat (hd lenBuf)) r)) (\<lambda>(domainBuf, r).
          Inr (string_of domainBuf, r)))
      else if atype = AddrTypeIPv6 then
        rbind (map_err (ReadErr ''read ipv6'') (read_full 16 r)) (\<lambda>(buf, r).
          Inr (''['' @ IP_String buf @ '']'', r))
      else Inl (UnknownAType atype))"

definition DecodeAddr :: "bytes \<Rightarrow> addr_error + ((string \<times> string) \<times> bytes)" where
  "DecodeAddr r =
     rbind (map_err (ReadErr ''read atype'') (read_full 1 r)) (\<lambda>(atype, r).
     rbind (read_host (hd atype) r) (\<lambda>(host, r).
     rbind (map_err (ReadErr ''read port'') (read_full 2 r)) (\<lambda>(portBuf, r).
       Inr ((''tcp'', host @ '':'' @ FormatUint (unat (get16 portBuf))), r))))"

section \<open>What an address is read back as\<close>

text \<open>
  The reader prints an IP address in its canonical form, an IPv6 address in brackets, and the port
  in decimal without leading zeros; a domain name is kept.
\<close>

definition canonical_addr :: "string \<Rightarrow> string" where
  "canonical_addr address =
     (case SplitHostPort address of
        Inl e \<Rightarrow> address
      | Inr (host, portStr) \<Rightarrow>
          (case ParseUint portStr 16 of
             Inl e \<Rightarrow> address
           | Inr port \<Rightarrow>
               (let ip = ParseIP host;
                    h = (if ip = [] then host
                         else if To4 ip \<noteq> [] then IP_String (To4 ip)
                         else ''['' @ IP_String (To16 ip) @ '']'')
                in h @ '':'' @ FormatUint port)))"

definition addr_ok :: "string \<Rightarrow> bool" where
  "addr_ok a \<longleftrightarrow> snd (EncodeAddr ''tcp'' a) = None \<and> canonical_addr a = a"

lemma EncodeAddr_network: "EncodeAddr network a = EncodeAddr ''tcp'' a"
  by (simp add: EncodeAddr_def)



lemma ParseIP_To16: "ParseIP s \<noteq> [] \<Longrightarrow> length (To16 (ParseIP s)) = 16"
  using ParseIP_length [of s] by (auto simp: To16_def)

lemma DecodeAddr_EncodeAddr:
  assumes "snd (EncodeAddr network a) = None"
  shows "DecodeAddr (fst (EncodeAddr network a) @ rest) = Inr ((''tcp'', canonical_addr a), rest)"
proof -
  obtain host portStr where s: "SplitHostPort a = Inr (host, portStr)"
    using assms by (auto simp: EncodeAddr_def split: sum.splits)
  obtain port where p: "ParseUint portStr 16 = Inr port"
    using assms s by (auto simp: EncodeAddr_def split: sum.splits)
  have port: "unat (of_nat port :: u16) = port"
    using ParseUint_bound [OF p] by simp
  consider (domain) "ParseIP host = []" | (v4) "ParseIP host \<noteq> []" "length (To4 (ParseIP host)) = 4"
    | (v6) "ParseIP host \<noteq> []" "To4 (ParseIP host) = []" "length (To16 (ParseIP host)) = 16"
    using To4_length [of "ParseIP host"] ParseIP_To16 by blast
  then show ?thesis
  proof cases
    case domain
    then have "length host \<le> 255"
      using assms s p by (auto simp: EncodeAddr_def Let_def split: if_splits)
    then show ?thesis
      using domain s p port by (simp add: EncodeAddr_def DecodeAddr_def read_host_def canonical_addr_def Let_def fst_wseq)
  next
    case v4
    then have "To4 (ParseIP host) \<noteq> []" by auto
    then show ?thesis
      using v4 s p port by (simp add: EncodeAddr_def DecodeAddr_def read_host_def canonical_addr_def Let_def fst_wseq)
  next
    case v6
    then show ?thesis
      using s p port by (simp add: EncodeAddr_def DecodeAddr_def read_host_def canonical_addr_def Let_def fst_wseq)
  qed
qed

text \<open>
  The port of an accepted address has the decimal digits the reader prints, so printing fixes the
  text of a canonical address. Domain names that do not parse as an IP address and dotted IPv4
  addresses are read back unchanged.
\<close>

lemma addr_ok_domain:
  assumes "set h \<inter> {CHR '':'', CHR ''['', CHR '']''} = {}" and "ParseIP h = []" and "length h \<le> 255"
    and "p < 65536"
  shows "addr_ok (h @ '':'' @ FormatUint p)"
proof -
  have "SplitHostPort (h @ '':'' @ FormatUint p) = Inr (h, FormatUint p)"
    using assms(1) FormatUint_no_special by (rule SplitHostPort_plain)
  moreover have "ParseUint (FormatUint p) 16 = Inr p"
    using assms(4) by (intro ParseUint_FormatUint) simp
  ultimately show ?thesis
    using assms(2,3) by (simp add: addr_ok_def EncodeAddr_def canonical_addr_def Let_def snd_wseq)
qed

lemma format_ipv4_plain: "set (format_ipv4 b) \<inter> {CHR '':'', CHR ''['', CHR '']''} = {}"
proof -
  have "set (Join (map (\<lambda>x. FormatUint (unat x)) b) ''.'') \<inter> {CHR '':'', CHR ''['', CHR '']''} = {}"
    using FormatUint_no_special by (induction b rule: induct_list012) (simp_all add: Int_Un_distrib2 Join.simps)
  then show ?thesis by (simp add: format_ipv4_def)
qed

lemma addr_ok_ipv4:
  assumes "length b = 4" and "p < 65536"
  shows "addr_ok (format_ipv4 b @ '':'' @ FormatUint p)"
proof -
  have "SplitHostPort (format_ipv4 b @ '':'' @ FormatUint p) = Inr (format_ipv4 b, FormatUint p)"
    using format_ipv4_plain FormatUint_no_special by (rule SplitHostPort_plain)
  moreover have "ParseUint (FormatUint p) 16 = Inr p"
    using assms(2) by (intro ParseUint_FormatUint) simp
  moreover have "b \<noteq> []" using assms(1) by auto
  ultimately show ?thesis
    using assms(1) by (simp add: addr_ok_def EncodeAddr_def canonical_addr_def Let_def snd_wseq
        format_ipv4_ParseIP IP_String_def)
qed

interpretation addr_codec: stream_codec "\<lambda>a. fst (EncodeAddr ''tcp'' a)"
  "\<lambda>bs. rbind (DecodeAddr bs) (\<lambda>((n, a), r). Inr (a, r))" addr_ok
  by unfold_locales (simp add: addr_ok_def DecodeAddr_EncodeAddr)

text \<open>An accepted address never fails to be read back for lack of bytes, and errors are exact.\<close>

lemma EncodeAddr_length:
  assumes "snd (EncodeAddr network a) = None"
  shows "4 \<le> length (fst (EncodeAddr network a)) \<and> length (fst (EncodeAddr network a)) \<le> 259"
  using assms To4_length
  by (auto simp: EncodeAddr_def Let_def fst_wseq split: sum.splits if_splits)

section \<open>Properties\<close>

text \<open>
  C30: every address the writer accepts is read back in canonical form, and the reader consumes
  exactly the bytes that were written.
\<close>

theorem addr_roundtrip_canonical:
  assumes "snd (EncodeAddr network a) = None"
  shows "DecodeAddr (fst (EncodeAddr network a) @ rest) = Inr ((''tcp'', canonical_addr a), rest)"
  using assms by (rule DecodeAddr_EncodeAddr)

theorem addr_roundtrip_canonical_witness:
  "DecodeAddr (fst (EncodeAddr ''udp'' ''[AB:0:0:0::1]:0443'') @ [1]) = Inr ((''tcp'', ''[ab::1]:443''), [1])"
proof -
  have "snd (EncodeAddr ''udp'' ''[AB:0:0:0::1]:0443'') = None"
    "canonical_addr ''[AB:0:0:0::1]:0443'' = ''[ab::1]:443''"
    by code_simp+
  then show ?thesis
    using addr_roundtrip_canonical [of "''udp''" "''[AB:0:0:0::1]:0443''" "[1]"] by simp
qed

text \<open>
  the text of a dotted IPv4 address or of a domain name of at most 255 bytes, followed by a
  decimal port, is accepted and comes back unchanged.
\<close>

theorem addr_roundtrip_identity:
  assumes "p < 65536"
  shows "(length b = 4 \<longrightarrow>
       DecodeAddr (fst (EncodeAddr ''tcp'' (format_ipv4 b @ '':'' @ FormatUint p)) @ rest) =
         Inr ((''tcp'', format_ipv4 b @ '':'' @ FormatUint p), rest)) \<and>
     (set h \<inter> {CHR '':'', CHR ''['', CHR '']''} = {} \<and> ParseIP h = [] \<and> length h \<le> 255 \<longrightarrow>
       DecodeAddr (fst (EncodeAddr ''tcp'' (h @ '':'' @ FormatUint p)) @ rest) =
         Inr ((''tcp'', h @ '':'' @ FormatUint p), rest))"
proof -
  have r: "DecodeAddr (fst (EncodeAddr ''tcp'' a) @ rest) = Inr ((''tcp'', a), rest)" if "addr_ok a" for a
    using that DecodeAddr_EncodeAddr [of "''tcp''" a rest] by (simp add: addr_ok_def)
  show ?thesis
    by (intro conjI impI r addr_ok_ipv4 addr_ok_domain assms) simp_all
qed

theorem addr_roundtrip_identity_witness:
  "DecodeAddr (fst (EncodeAddr ''tcp'' ''10.20.30.40:80'') @ []) = Inr ((''tcp'', ''10.20.30.40:80''), []) \<and>
   DecodeAddr (fst (EncodeAddr ''tcp'' ''example.com:80'') @ []) = Inr ((''tcp'', ''example.com:80''), [])"
proof -
  have p: "FormatUint 80 = ''80''" by code_simp
  have f: "format_ipv4 [10, 20, 30, 40] @ '':'' @ ''80'' = ''10.20.30.40:80''" by code_simp
  have d: "ParseIP ''example.com'' = []" by code_simp
  show ?thesis
    using addr_roundtrip_identity [of 80 "[10, 20, 30, 40]" "[]" "''example.com''"] d
    unfolding p f by simp
qed

end
