(* ===== verification/Trojan.thy ===== *)
theory Trojan
  imports Addr
begin

text \<open>
  The Trojan request header of \<^verbatim>\<open>transport/trojan/protocol.go\<close>: password hash, CRLF, command, address,
  CRLF. SHA-224 is a parameter of the password hash.
\<close>

datatype trojan_error = TRead string io_error | TAddr addr_error | TNoCRLF bytes | TNoTrailingCRLF bytes

definition crlf :: string where
  "crlf = [CHR 0x0D, CHR 0x0A]"

definition HashPassword :: "(bytes \<Rightarrow> bytes) \<Rightarrow> string \<Rightarrow> string" where
  "HashPassword sha224 password = hex_EncodeToString (sha224 (bytes_of password))"

definition Trojan_EncodeRequest :: "string \<Rightarrow> byte \<Rightarrow> string \<Rightarrow> trojan_error written" where
  "Trojan_EncodeRequest passwordHash cmd address =
     wseq (wwrite (bytes_of (passwordHash @ crlf)))
    (wseq (wwrite [cmd])
    (wseq (werr TAddr (EncodeAddr ''tcp'' address))
          (wwrite (bytes_of crlf))))"

definition Trojan_DecodeRequest :: "bytes \<Rightarrow> trojan_error + ((string \<times> byte \<times> string) \<times> bytes)" where
  "Trojan_DecodeRequest r =
     rbind (map_err (TRead ''read hash+CRLF'') (read_full (56 + 2) r)) (\<lambda>(buf, r).
       let hash = string_of (take 56 buf)
       in if string_of (drop 56 buf) \<noteq> crlf then Inl (TNoCRLF (drop 56 buf))
          else
            rbind (map_err (TRead ''read cmd'') (read_full 1 r)) (\<lambda>(cmdBuf, r).
            rbind (map_err TAddr (DecodeAddr r)) (\<lambda>((_, address), r).
            rbind (map_err (TRead ''read trailing CRLF'') (read_full 2 r)) (\<lambda>(crlfBuf, r).
              if string_of crlfBuf \<noteq> crlf then Inl (TNoTrailingCRLF crlfBuf)
              else Inr ((hash, hd cmdBuf, address), r)))))"

lemma length_crlf [simp]: "length crlf = 2"
  by (simp add: crlf_def)

lemma length_HashPassword: "length (HashPassword sha224 p) = 2 * length (sha224 (bytes_of p))"
  by (simp add: HashPassword_def)

lemma Trojan_decode_encode:
  assumes "length hash = 56" and "snd (Trojan_EncodeRequest hash cmd address) = None"
  shows "Trojan_DecodeRequest (fst (Trojan_EncodeRequest hash cmd address) @ rest) =
     Inr ((hash, cmd, canonical_addr address), rest)"
proof -
  have a: "snd (EncodeAddr ''tcp'' address) = None"
    using assms(2) by (simp add: Trojan_EncodeRequest_def snd_wseq)
  have "read_full 58 (bytes_of hash @ bytes_of crlf @ s) = Inr (bytes_of hash @ bytes_of crlf, s)" for s
    using assms(1) read_full_append [of "bytes_of hash @ bytes_of crlf" 58] by simp
  then show ?thesis
    using assms(1) a
    by (simp add: Trojan_EncodeRequest_def Trojan_DecodeRequest_def fst_wseq DecodeAddr_EncodeAddr)
qed

definition trojan_ok :: "string \<times> byte \<times> string \<Rightarrow> bool" where
  "trojan_ok = (\<lambda>(hash, cmd, address). length hash = 56 \<and> addr_ok address)"

interpretation trojan_codec: stream_codec "\<lambda>(hash, cmd, address). fst (Trojan_EncodeRequest hash cmd address)"
  Trojan_DecodeRequest trojan_ok
proof
  fix x :: "string \<times> byte \<times> string" and rest
  assume "trojan_ok x"
  then show "Trojan_DecodeRequest ((case x of (hash, cmd, address) \<Rightarrow> fst (Trojan_EncodeRequest hash cmd address)) @ rest)
      = Inr (x, rest)"
    using Trojan_decode_encode
    by (auto simp: trojan_ok_def addr_ok_def Trojan_EncodeRequest_def snd_wseq)
qed

section \<open>Properties\<close>

text \<open>
  C31: a Trojan request written for a SHA-224 password hash is read back with the same hash and
  command and with the canonical form of the address, and the reader stops exactly at the first
  byte of the payload.
\<close>

theorem trojan_request_roundtrip:
  assumes "length (sha224 (bytes_of password)) = 28"
    and "snd (Trojan_EncodeRequest (HashPassword sha224 password) cmd address) = None"
  shows "Trojan_DecodeRequest (fst (Trojan_EncodeRequest (HashPassword sha224 password) cmd address) @ payload) =
     Inr ((HashPassword sha224 password, cmd, canonical_addr address), payload)"
  using Trojan_decode_encode [OF _ assms(2)] assms(1) by (simp add: length_HashPassword)

theorem trojan_request_roundtrip_witness:
  "Trojan_DecodeRequest (fst (Trojan_EncodeRequest (HashPassword (\<lambda>bs. replicate 28 7) ''pw'') 1 ''1.2.3.4:443'') @ [9]) =
     Inr ((concat (replicate 28 ''07''), 1, ''1.2.3.4:443''), [9])"
proof -
  have "snd (Trojan_EncodeRequest (HashPassword (\<lambda>bs. replicate 28 7) ''pw'') 1 ''1.2.3.4:443'') = None"
    "HashPassword (\<lambda>bs. replicate 28 7) ''pw'' = concat (replicate 28 ''07'')"
    "canonical_addr ''1.2.3.4:443'' = ''1.2.3.4:443''"
    by code_simp+
  then show ?thesis
    using trojan_request_roundtrip [of "\<lambda>bs. replicate 28 7" "''pw''" 1 "''1.2.3.4:443''" "[9]"] by simp
qed

end
