(* ===== verification/Vless.thy ===== *)
theory Vless
  imports Addr
begin

text \<open>
  The VLESS request and response headers of \<^verbatim>\<open>transport/vless/protocol.go\<close>. A UUID is a list of 16
  bytes. The addons field carries the flow string; the reader skips it.
\<close>

datatype vless_error = VRead string io_error | VAddr addr_error | VVersion byte

record VlessHeader =
  vlUUID :: bytes
  vlCmd :: byte
  vlNetwork :: string
  vlAddress :: string
  vlFlow :: string

abbreviation "VlessVersion \<equiv> 0 :: byte"

definition vless_addons :: "string \<Rightarrow> bytes" where
  "vless_addons flow =
     (if flow \<noteq> '''' then 0x0A # byte_of_len (length flow) # bytes_of flow else [])"

definition Vless_EncodeRequest :: "VlessHeader \<Rightarrow> vless_error written" where
  "Vless_EncodeRequest h =
     (let addons = vless_addons (vlFlow h);
          buf = [VlessVersion] @ vlUUID h @ [byte_of_len (length addons)] @ addons @ [vlCmd h]
      in wseq (wwrite buf) (werr VAddr (EncodeAddr (vlNetwork h) (vlAddress h))))"

definition skip_addons :: "(string \<Rightarrow> io_error \<Rightarrow> 'e) \<Rightarrow> string \<Rightarrow> byte \<Rightarrow> bytes \<Rightarrow> 'e + bytes" where
  "skip_addons err what addonLen r =
     (if addonLen > 0 then rbind (map_err (err what) (read_full (unat addonLen) r)) (\<lambda>(_, r). Inr r)
      else Inr r)"

definition Vless_DecodeRequest :: "bytes \<Rightarrow> vless_error + (VlessHeader \<times> bytes)" where
  "Vless_DecodeRequest r =
     rbind (map_err (VRead ''read request header'') (read_full 18 r)) (\<lambda>(buf, r).
       if buf ! 0 \<noteq> VlessVersion then Inl (VVersion (buf ! 0))
       else
         rbind (skip_addons VRead ''skip addons'' (buf ! 17) r) (\<lambda>r.
         rbind (map_err (VRead ''read cmd'') (read_full 1 r)) (\<lambda>(cmdBuf, r).
         rbind (map_err VAddr (DecodeAddr r)) (\<lambda>((network, addr), r).
           Inr (\<lparr>vlUUID = copy_into (zeros 16) (slice 1 17 buf), vlCmd = hd cmdBuf,
                 vlNetwork = network, vlAddress = addr, vlFlow = ''''\<rparr>, r)))))"

definition Vless_EncodeResponse :: "vless_error written" where
  "Vless_EncodeResponse = wwrite [VlessVersion, 0]"

definition Vless_DecodeResponse :: "bytes \<Rightarrow> vless_error + bytes" where
  "Vless_DecodeResponse r =
     rbind (map_err (VRead ''read response header'') (read_full 2 r)) (\<lambda>(buf, r).
       if buf ! 0 \<noteq> VlessVersion then Inl (VVersion (buf ! 0))
       else skip_addons VRead ''skip response addons'' (buf ! 1) r)"

lemma skip_addons_append [simp]:
  "length a < 256 \<Longrightarrow> skip_addons err what (byte_of_len (length a)) (a @ r) = Inr r"
proof (cases "a = []")
  case False
  assume "length a < 256"
  with False have "byte_of_len (length a) > 0"
    by (metis length_0_conv unat_byte_of_len unat_eq_zero word_neq_0_conv)
  then show ?thesis using \<open>length a < 256\<close> by (simp add: skip_addons_def)
qed (simp add: skip_addons_def)

lemma length_vless_addons:
  "length (vless_addons flow) = (if flow = '''' then 0 else length flow + 2)"
  by (simp add: vless_addons_def)

lemma Vless_decode_encode:
  assumes "length (vlUUID h) = 16" and "length (vlFlow h) \<le> 253"
    and "snd (EncodeAddr (vlNetwork h) (vlAddress h)) = None"
  shows "Vless_DecodeRequest (fst (Vless_EncodeRequest h) @ rest) =
     Inr (\<lparr>vlUUID = vlUUID h, vlCmd = vlCmd h, vlNetwork = ''tcp'',
           vlAddress = canonical_addr (vlAddress h), vlFlow = ''''\<rparr>, rest)"
proof -
  let ?a = "vless_addons (vlFlow h)"
  have la: "length ?a < 256" using assms(2) by (simp add: length_vless_addons)
  have "read_full 18 (([VlessVersion] @ vlUUID h @ [byte_of_len (length ?a)]) @ s) =
      Inr ([VlessVersion] @ vlUUID h @ [byte_of_len (length ?a)], s)" for s
    using assms(1) by (intro read_full_append) simp
  then show ?thesis
    using assms la
    by (simp add: Vless_EncodeRequest_def Vless_DecodeRequest_def fst_wseq Let_def nth_append
        DecodeAddr_EncodeAddr slice_def nth_Cons')
qed

definition vless_ok :: "VlessHeader \<Rightarrow> bool" where
  "vless_ok h \<longleftrightarrow> length (vlUUID h) = 16 \<and> vlNetwork h = ''tcp'' \<and> addr_ok (vlAddress h) \<and> vlFlow h = ''''"

interpretation vless_codec: stream_codec "\<lambda>h. fst (Vless_EncodeRequest h)" Vless_DecodeRequest vless_ok
  by unfold_locales (simp add: vless_ok_def addr_ok_def Vless_decode_encode)

section \<open>Properties\<close>

text \<open>
  C32: a VLESS request with a flow of at most 253 bytes is read back with its UUID and command and the
  canonical form of its address, whatever the flow; the network is always reported as tcp and the
  flow as empty.
\<close>

theorem vless_request_roundtrip:
  assumes "length (vlUUID h) = 16" and "length (vlFlow h) \<le> 253"
    and "snd (Vless_EncodeRequest h) = None"
  shows "Vless_DecodeRequest (fst (Vless_EncodeRequest h) @ payload) =
     Inr (\<lparr>vlUUID = vlUUID h, vlCmd = vlCmd h, vlNetwork = ''tcp'',
           vlAddress = canonical_addr (vlAddress h), vlFlow = ''''\<rparr>, payload)"
  using assms by (intro Vless_decode_encode) (simp_all add: Vless_EncodeRequest_def snd_wseq Let_def)

theorem vless_request_roundtrip_witness:
  "Vless_DecodeRequest (fst (Vless_EncodeRequest \<lparr>vlUUID = replicate 16 5, vlCmd = 2, vlNetwork = ''udp'',
       vlAddress = ''example.com:53'', vlFlow = ''xtls-rprx-vision''\<rparr>) @ [1, 2]) =
   Inr (\<lparr>vlUUID = replicate 16 5, vlCmd = 2, vlNetwork = ''tcp'', vlAddress = ''example.com:53'', vlFlow = ''''\<rparr>, [1, 2])"
proof -
  let ?h = "\<lparr>vlUUID = replicate 16 5, vlCmd = 2, vlNetwork = ''udp'',
       vlAddress = ''example.com:53'', vlFlow = ''xtls-rprx-vision''\<rparr>"
  have "snd (Vless_EncodeRequest ?h) = None" "canonical_addr ''example.com:53'' = ''example.com:53''"
    by code_simp+
  then show ?thesis
    using vless_request_roundtrip [of ?h "[1, 2]"] by simp
qed

end
