(* ===== verification/Vmess.thy ===== *)
theory Vmess
  imports Addr
begin

text \<open>
  The VMess request header of \<^verbatim>\<open>transport/vmess/protocol.go\<close>. MD5, HMAC-MD5 and AES-GCM are parameters
  (\<open>md5\<close>, \<open>hmac\<close>, \<open>seal\<close>, \<open>opn\<close>), and so is the random nonce. What is used of them is stated where
  it is used: the sizes of a digest and of a sealed message, and that opening what was sealed under
  the same key and nonce gives the plaintext.
\<close>

datatype vmess_error =
    MRead string io_error
  | MAddr addr_error
  | MUnknownAuth
  | MCipher
  | MDecrypt
  | MHeaderTooShort nat
  | MMissingIVKey nat

record VmessHeader =
  vmVersion :: byte
  vmCommand :: byte
  vmSecurity :: byte
  vmAddress :: string
  vmDataIV :: bytes
  vmDataKey :: bytes

abbreviation "VmessCmdUDP \<equiv> 0x02 :: byte"

definition deriveKey :: "(bytes \<Rightarrow> bytes) \<Rightarrow> bytes \<Rightarrow> bytes" where
  "deriveKey md5 uuid = md5 (uuid @ uuid)"

definition computeAuthID :: "(bytes \<Rightarrow> bytes \<Rightarrow> bytes) \<Rightarrow> bytes \<Rightarrow> u64 \<Rightarrow> bytes" where
  "computeAuthID hmac uuid timestamp = copy_into (zeros 16) (take 16 (hmac uuid (put64 timestamp)))"

text \<open>\<open>aes.NewCipher\<close> accepts keys of 16, 24 and 32 bytes.\<close>

definition aes_key_ok :: "bytes \<Rightarrow> bool" where
  "aes_key_ok key \<longleftrightarrow> length key = 16 \<or> length key = 24 \<or> length key = 32"

definition encryptHeader :: "(bytes \<Rightarrow> bytes \<Rightarrow> bytes \<Rightarrow> bytes) \<Rightarrow> bytes \<Rightarrow> bytes \<Rightarrow> bytes
    \<Rightarrow> vmess_error + (bytes \<times> bytes)" where
  "encryptHeader seal nonce key plaintext =
     (if \<not> aes_key_ok key then Inl MCipher else Inr (nonce, seal key nonce plaintext))"

definition decryptHeader :: "(bytes \<Rightarrow> bytes \<Rightarrow> bytes \<Rightarrow> bytes option) \<Rightarrow> bytes \<Rightarrow> bytes \<Rightarrow> bytes
    \<Rightarrow> vmess_error + bytes" where
  "decryptHeader opn key nonce ciphertext =
     (if \<not> aes_key_ok key then Inl MCipher
      else case opn key nonce ciphertext of None \<Rightarrow> Inl MDecrypt | Some p \<Rightarrow> Inr p)"

definition marshalHeader :: "VmessHeader \<Rightarrow> vmess_error + bytes" where
  "marshalHeader hdr =
     (let network = (if vmCommand hdr = VmessCmdUDP then ''udp'' else ''tcp'')
      in case EncodeAddr network (vmAddress hdr) of
           (_, Some e) \<Rightarrow> Inl (MAddr e)
         | (addrBuf, None) \<Rightarrow>
             Inr ([vmVersion hdr, vmCommand hdr, vmSecurity hdr] @ addrBuf @ vmDataIV hdr @ vmDataKey hdr))"

definition unmarshalHeader :: "bytes \<Rightarrow> vmess_error + VmessHeader" where
  "unmarshalHeader dat =
     (if length dat < 3 + 1 + 2 + 8 + 8 then Inl (MHeaderTooShort (length dat))
      else
        rbind (map_err MAddr (DecodeAddr (drop 3 dat))) (\<lambda>((_, addr), remaining).
          if length remaining < 16 then Inl (MMissingIVKey (length remaining))
          else Inr \<lparr>vmVersion = dat ! 0, vmCommand = dat ! 1, vmSecurity = dat ! 2, vmAddress = addr,
                    vmDataIV = copy_into (zeros 8) (take 8 remaining),
                    vmDataKey = copy_into (zeros 8) (slice 8 16 remaining)\<rparr>))"

definition Vmess_EncodeRequest ::
  "(bytes \<Rightarrow> bytes) \<Rightarrow> (bytes \<Rightarrow> bytes \<Rightarrow> bytes) \<Rightarrow> (bytes \<Rightarrow> bytes \<Rightarrow> bytes \<Rightarrow> bytes) \<Rightarrow> bytes
    \<Rightarrow> bytes \<Rightarrow> u64 \<Rightarrow> VmessHeader \<Rightarrow> vmess_error written" where
  "Vmess_EncodeRequest md5 hmac seal nonce uuid timestamp hdr =
     wseq (wwrite (computeAuthID hmac uuid timestamp))
       (case marshalHeader hdr of
          Inl e \<Rightarrow> ([], Some e)
        | Inr plain \<Rightarrow>
            (case encryptHeader seal nonce (deriveKey md5 uuid) plain of
               Inl e \<Rightarrow> ([], Some e)
             | Inr (nc, ct) \<Rightarrow> wseq (wwrite nc) (wseq (wwrite (put16 (u16_of_len (length ct)))) (wwrite ct))))"

definition Vmess_DecodeRequest ::
  "(bytes \<Rightarrow> bytes) \<Rightarrow> (bytes \<Rightarrow> bytes \<Rightarrow> bytes \<Rightarrow> bytes option) \<Rightarrow> (bytes \<Rightarrow> bytes option) \<Rightarrow> bytes
    \<Rightarrow> vmess_error + (VmessHeader \<times> bytes)" where
  "Vmess_DecodeRequest md5 opn lookup r =
     rbind (map_err (MRead ''read auth_id'') (read_full 16 r)) (\<lambda>(authID, r).
       case lookup authID of
         None \<Rightarrow> Inl MUnknownAuth
       | Some uuid \<Rightarrow>
           rbind (map_err (MRead ''read nonce'') (read_full 12 r)) (\<lambda>(nonce, r).
           rbind (map_err (MRead ''read header length'') (read_full 2 r)) (\<lambda>(lenBuf, r).
           rbind (map_err (MRead ''read encrypted header'') (read_full (unat (get16 lenBuf)) r)) (\<lambda>(ct, r).
           rbind (decryptHeader opn (deriveKey md5 uuid) nonce ct) (\<lambda>plain.
           rbind (unmarshalHeader plain) (\<lambda>hdr. Inr (hdr, r)))))))"

definition vmess_wf :: "VmessHeader \<Rightarrow> bool" where
  "vmess_wf hdr \<longleftrightarrow> length (vmDataIV hdr) = 8 \<and> length (vmDataKey hdr) = 8"

lemma marshalHeader_Inr:
  assumes "marshalHeader hdr = Inr plain"
  shows "snd (EncodeAddr ''tcp'' (vmAddress hdr)) = None"
    and "plain = [vmVersion hdr, vmCommand hdr, vmSecurity hdr] @ fst (EncodeAddr ''tcp'' (vmAddress hdr))
           @ vmDataIV hdr @ vmDataKey hdr"
  using assms EncodeAddr_network [of "''udp''" "vmAddress hdr"]
  by (cases "EncodeAddr ''tcp'' (vmAddress hdr)";
      auto simp: marshalHeader_def Let_def split: option.splits if_splits)+

lemma unmarshalHeader_marshalHeader:
  assumes "marshalHeader hdr = Inr plain" and "vmess_wf hdr"
  shows "unmarshalHeader plain = Inr (hdr\<lparr>vmAddress := canonical_addr (vmAddress hdr)\<rparr>)"
proof -
  note m = marshalHeader_Inr [OF assms(1)]
  have "4 \<le> length (fst (EncodeAddr ''tcp'' (vmAddress hdr)))"
    using EncodeAddr_length [OF m(1)] by simp
  then have "\<not> length plain < 22" using assms(2) by (simp add: m(2) vmess_wf_def)
  moreover have "drop 3 plain = fst (EncodeAddr ''tcp'' (vmAddress hdr)) @ vmDataIV hdr @ vmDataKey hdr"
    by (simp add: m(2))
  moreover have "plain ! 0 = vmVersion hdr" "plain ! 1 = vmCommand hdr" "plain ! 2 = vmSecurity hdr"
    by (simp_all add: m(2))
  ultimately show ?thesis
    using assms(2) by (simp add: unmarshalHeader_def DecodeAddr_EncodeAddr [OF m(1)] vmess_wf_def slice_def)
qed

interpretation vmess_codec: codec "\<lambda>h. projr (marshalHeader h)" unmarshalHeader
  "\<lambda>h. vmess_wf h \<and> addr_ok (vmAddress h)"
proof
  fix h :: VmessHeader
  assume h: "vmess_wf h \<and> addr_ok (vmAddress h)"
  then have "\<exists>p. marshalHeader h = Inr p"
    using EncodeAddr_network [of "''udp''" "vmAddress h"]
    by (cases "EncodeAddr ''tcp'' (vmAddress h)") (auto simp: marshalHeader_def addr_ok_def Let_def)
  then show "unmarshalHeader (projr (marshalHeader h)) = Inr h"
    using h unmarshalHeader_marshalHeader by (auto simp: addr_ok_def)
qed

lemma length_marshalHeader:
  assumes "marshalHeader hdr = Inr plain" and "vmess_wf hdr"
  shows "length plain \<le> 278"
  using marshalHeader_Inr [OF assms(1)] EncodeAddr_length [of "''tcp''" "vmAddress hdr"] assms(2)
  by (simp add: vmess_wf_def)

section \<open>Properties\<close>

text \<open>
  C28: a VMess request written for a user is read back by a server that resolves the auth id to the
  same user: every header field is restored, with the address in canonical form, and the body that
  follows is left unread. The hypotheses on the primitives are their sizes and that opening inverts
  sealing.
\<close>

theorem vmess_request_roundtrip:
  assumes md5: "\<And>x. length (md5 x) = 16"
    and seal: "\<And>k n p. length (seal k n p) = length p + 16"
    and opn: "\<And>k n p. opn k n (seal k n p) = Some p"
    and "length nonce = 12" and "vmess_wf hdr"
    and "lookup (computeAuthID hmac uuid timestamp) = Some uuid"
    and "snd (Vmess_EncodeRequest md5 hmac seal nonce uuid timestamp hdr) = None"
  shows "Vmess_DecodeRequest md5 opn lookup (fst (Vmess_EncodeRequest md5 hmac seal nonce uuid timestamp hdr) @ body) =
     Inr (hdr\<lparr>vmAddress := canonical_addr (vmAddress hdr)\<rparr>, body)"
proof -
  obtain plain where p: "marshalHeader hdr = Inr plain"
    using assms(7) by (auto simp: Vmess_EncodeRequest_def snd_wseq split: sum.splits)
  have key: "aes_key_ok (deriveKey md5 uuid)" by (simp add: aes_key_ok_def deriveKey_def md5)
  have auth: "length (computeAuthID hmac uuid timestamp) = 16" by (simp add: computeAuthID_def)
  have len: "length (seal k n plain) < 65536" for k n
    using length_marshalHeader [OF p assms(5)] by (simp add: seal)
  have "fst (Vmess_EncodeRequest md5 hmac seal nonce uuid timestamp hdr) =
      computeAuthID hmac uuid timestamp @ nonce @
      put16 (u16_of_len (length (seal (deriveKey md5 uuid) nonce plain))) @ seal (deriveKey md5 uuid) nonce plain"
    using p key by (simp add: Vmess_EncodeRequest_def encryptHeader_def fst_wseq)
  then show ?thesis
    using assms(4,6) auth len key
    by (simp add: Vmess_DecodeRequest_def decryptHeader_def opn unmarshalHeader_marshalHeader [OF p assms(5)])
qed

theorem vmess_request_roundtrip_witness:
  "Vmess_DecodeRequest (\<lambda>_. zeros 16) (\<lambda>k n c. Some (drop 16 c)) (\<lambda>_. Some [1])
     (fst (Vmess_EncodeRequest (\<lambda>_. zeros 16) (\<lambda>_ _. zeros 16) (\<lambda>k n p. zeros 16 @ p) (zeros 12) [1] 7
       \<lparr>vmVersion = 1, vmCommand = 2, vmSecurity = 3, vmAddress = ''a.b:80'', vmDataIV = zeros 8, vmDataKey = zeros 8\<rparr>) @ [42]) =
   Inr (\<lparr>vmVersion = 1, vmCommand = 2, vmSecurity = 3, vmAddress = ''a.b:80'', vmDataIV = zeros 8, vmDataKey = zeros 8\<rparr>, [42])"
proof -
  let ?h = "\<lparr>vmVersion = 1, vmCommand = 2, vmSecurity = 3, vmAddress = ''a.b:80'', vmDataIV = zeros 8, vmDataKey = zeros 8\<rparr>"
  have c: "canonical_addr ''a.b:80'' = ''a.b:80''" by code_simp
  have "snd (Vmess_EncodeRequest (\<lambda>_. zeros 16) (\<lambda>_ _. zeros 16) (\<lambda>k n p. zeros 16 @ p) (zeros 12) [1] 7 ?h) = None"
    by code_simp
  then show ?thesis
    using vmess_request_roundtrip [of "\<lambda>_. zeros 16" "\<lambda>k n p. zeros 16 @ p" "\<lambda>k n c. Some (drop 16 c)"
        "zeros 12" ?h "\<lambda>_. Some [1]" "\<lambda>_ _. zeros 16" "[1]" 7 "[42]"]
    by (simp add: vmess_wf_def c)
qed

end
