(* ===== verification/Tuic.thy ===== *)
theory Tuic
  imports Addr
begin

text \<open>
  The TUIC v5 authentication datagram, UUID parser and CONNECT header of
  \<^verbatim>\<open>transport/tuic/protocol.go\<close>. HMAC-SHA256 is a parameter of the token.
\<close>

datatype tuic_error =
    UShort nat
  | UUUIDLen nat
  | UUUIDHex nat
  | USplit hostport_error
  | UPort string
  | UDomainTooLong nat
  | URead string io_error
  | UVersion byte
  | UAddrType byte

abbreviation "TuicVersion \<equiv> 0x05 :: byte"

section \<open>Authentication\<close>

record AuthRequest =
  auUUID :: bytes
  auToken :: bytes

definition AuthRequest_Encode :: "AuthRequest \<Rightarrow> bytes" where
  "AuthRequest_Encode a = copy_into (zeros 16) (auUUID a) @ copy_into (zeros 32) (auToken a)"

definition Tuic_DecodeAuth :: "bytes \<Rightarrow> tuic_error + AuthRequest" where
  "Tuic_DecodeAuth dat =
     (if length dat < 16 + 32 then Inl (UShort (length dat))
      else Inr \<lparr>auUUID = copy_into (zeros 16) (take 16 dat),
                auToken = copy_into (zeros 32) (slice 16 (16 + 32) dat)\<rparr>)"

definition ComputeToken :: "(bytes \<Rightarrow> bytes \<Rightarrow> bytes) \<Rightarrow> bytes \<Rightarrow> bytes \<Rightarrow> bytes" where
  "ComputeToken hmac uuid password = copy_into (zeros 32) (hmac password uuid)"

definition hexVal :: "byte \<Rightarrow> byte option" where
  "hexVal c =
     (if 0x30 \<le> c \<and> c \<le> 0x39 then Some (c - 0x30)
      else if 0x61 \<le> c \<and> c \<le> 0x66 then Some (c - 0x61 + 10)
      else if 0x41 \<le> c \<and> c \<le> 0x46 then Some (c - 0x41 + 10)
      else None)"

fun uuid_loop :: "nat \<Rightarrow> bytes \<Rightarrow> tuic_error + bytes" where
  "uuid_loop i (h # l # rest) =
     (case (hexVal h, hexVal l) of
        (Some hi, Some lo) \<Rightarrow> rbind (uuid_loop (i + 1) rest) (\<lambda>bs. Inr (or (push_bit 4 hi) lo # bs))
      | _ \<Rightarrow> Inl (UUUIDHex (i * 2)))"
| "uuid_loop i _ = Inr []"

definition ParseUUID :: "string \<Rightarrow> tuic_error + bytes" where
  "ParseUUID s =
     (let clean = filter (\<lambda>b. b \<noteq> 0x2D) (bytes_of s)
      in if length clean \<noteq> 32 then Inl (UUUIDLen (length clean)) else uuid_loop 0 clean)"

section \<open>CONNECT header\<close>

fun tuic_port_loop :: "u16 \<Rightarrow> string \<Rightarrow> u16 option" where
  "tuic_port_loop port [] = Some port"
| "tuic_port_loop port (c # cs) =
     (if \<not> is_digit c then None else tuic_port_loop (port * 10 + of_nat (digit_val c)) cs)"

definition tuic_parsePort :: "string \<Rightarrow> tuic_error + u16" where
  "tuic_parsePort s = (case tuic_port_loop 0 s of None \<Rightarrow> Inl (UPort s) | Some p \<Rightarrow> Inr p)"

definition connect_bytes :: "byte \<Rightarrow> byte \<Rightarrow> bytes \<Rightarrow> u16 \<Rightarrow> bytes" where
  "connect_bytes cmd addrType addrBytes port = [TuicVersion, cmd, addrType] @ addrBytes @ put16 port"

definition EncodeConnectHeader :: "byte \<Rightarrow> string \<Rightarrow> tuic_error written" where
  "EncodeConnectHeader cmd address =
     (case SplitHostPort address of
        Inl e \<Rightarrow> ([], Some (USplit e))
      | Inr (host, portStr) \<Rightarrow>
          (case tuic_parsePort portStr of
             Inl e \<Rightarrow> ([], Some e)
           | Inr port \<Rightarrow>
               (let ip = ParseIP host
                in if ip \<noteq> [] then
                     (if To4 ip \<noteq> [] then wwrite (connect_bytes cmd 0x01 (To4 ip) port)
                      else wwrite (connect_bytes cmd 0x04 (To16 ip) port))
                   else if length host > 255 then ([], Some (UDomainTooLong (length host)))
                   else wwrite (connect_bytes cmd 0x03 (byte_of_len (length host) # bytes_of host) port))))"

definition tuic_read_host :: "byte \<Rightarrow> bytes \<Rightarrow> tuic_error + (string \<times> bytes)" where
  "tuic_read_host addrType r =
     (if addrType = 0x01 then
        rbind (map_err (URead ''read IPv4'') (read_full 4 r)) (\<lambda>(buf, r). Inr (IP_String buf, r))
      else if addrType = 0x04 then
        rbind (map_err (URead ''read IPv6'') (read_full 16 r)) (\<lambda>(buf, r). Inr (IP_String buf, r))
      else if addrType = 0x03 then
        rbind (map_err (URead ''read domain length'') (read_full 1 r)) (\<lambda>(lenBuf, r).
        rbind (map_err (URead ''read domain'') (read_full (unat (hd lenBuf)) r)) (\<lambda>(domainBuf, r).
          Inr (string_of domainBuf, r)))
      else Inl (UAddrType addrType))"

definition DecodeConnectHeader :: "bytes \<Rightarrow> tuic_error + ((byte \<times> string) \<times> bytes)" where
  "DecodeConnectHeader r =
     rbind (map_err (URead ''read header'') (read_full 3 r)) (\<lambda>(hdr, r).
       if hdr ! 0 \<noteq> TuicVersion then Inl (UVersion (hdr ! 0))
       else
         rbind (tuic_read_host (hdr ! 2) r) (\<lambda>(host, r).
         rbind (map_err (URead ''read port'') (read_full 2 r)) (\<lambda>(portBuf, r).
           Inr ((hdr ! 1, JoinHostPort host (FormatUint (unat (get16 portBuf)))), r))))"

section \<open>Facts\<close>

lemma DecodeAuth_Encode:
  "length (auUUID a) = 16 \<Longrightarrow> length (auToken a) = 32 \<Longrightarrow> Tuic_DecodeAuth (AuthRequest_Encode a @ rest) = Inr a"
  by (simp add: Tuic_DecodeAuth_def AuthRequest_Encode_def slice_def)

interpretation tuic_auth: codec AuthRequest_Encode Tuic_DecodeAuth
  "\<lambda>a. length (auUUID a) = 16 \<and> length (auToken a) = 32"
  by unfold_locales (use DecodeAuth_Encode [of _ "[]"] in simp)

text \<open>The value the digits of a port stand for.\<close>

definition decimal_value :: "string \<Rightarrow> nat" where
  "decimal_value s = foldl (\<lambda>n c. n * 10 + digit_val c) 0 s"

lemma tuic_port_loop_value:
  "tuic_port_loop (of_nat n) s =
     (if list_all is_digit s then Some (of_nat (foldl (\<lambda>n c. n * 10 + digit_val c) n s)) else None)"
proof (induction s arbitrary: n)
  case (Cons c s)
  have "of_nat n * 10 + of_nat (digit_val c) = (of_nat (n * 10 + digit_val c) :: u16)" by simp
  then show ?case using Cons.IH [of "n * 10 + digit_val c"] by simp
qed simp

lemma tuic_parsePort_eq:
  "tuic_parsePort s = (if list_all is_digit s then Inr (of_nat (decimal_value s)) else Inl (UPort s))"
  using tuic_port_loop_value [of 0 s] by (simp add: tuic_parsePort_def decimal_value_def)

definition tuic_canonical :: "string \<Rightarrow> string" where
  "tuic_canonical address =
     (case SplitHostPort address of
        Inl e \<Rightarrow> address
      | Inr (host, portStr) \<Rightarrow>
          (let ip = ParseIP host
           in JoinHostPort
                (if ip = [] then host else if To4 ip \<noteq> [] then IP_String (To4 ip) else IP_String (To16 ip))
                (FormatUint (decimal_value portStr mod 65536))))"

lemma DecodeConnectHeader_Encode:
  assumes "snd (EncodeConnectHeader cmd address) = None"
  shows "DecodeConnectHeader (fst (EncodeConnectHeader cmd address) @ rest) =
     Inr ((cmd, tuic_canonical address), rest)"
proof -
  obtain host portStr where s: "SplitHostPort address = Inr (host, portStr)"
    using assms by (auto simp: EncodeConnectHeader_def split: sum.splits)
  have d: "list_all is_digit portStr"
    using assms s by (auto simp: EncodeConnectHeader_def tuic_parsePort_eq split: if_splits)
  note p = tuic_parsePort_eq [of portStr]
  have r3: "read_full 3 (a # b # c # s) = Inr ([a, b, c], s)" for a b c :: byte and s
    using read_full_append [of "[a, b, c]" 3 s] by simp
  have port: "unat (of_nat n :: u16) = n mod 65536" for n
    by (simp add: unat_of_nat)
  consider (domain) "ParseIP host = []" | (v4) "ParseIP host \<noteq> []" "length (To4 (ParseIP host)) = 4"
    | (v6) "ParseIP host \<noteq> []" "To4 (ParseIP host) = []" "length (To16 (ParseIP host)) = 16"
    using To4_length [of "ParseIP host"] ParseIP_To16 by blast
  then show ?thesis
  proof cases
    case domain
    then have "length host \<le> 255"
      using assms s p d by (auto simp: EncodeConnectHeader_def Let_def split: if_splits)
    then show ?thesis
      using domain s p d by (simp add: EncodeConnectHeader_def DecodeConnectHeader_def tuic_read_host_def
          tuic_canonical_def Let_def connect_bytes_def r3 port)
  next
    case v4
    then have "To4 (ParseIP host) \<noteq> []" by auto
    then show ?thesis
      using v4 s p d by (simp add: EncodeConnectHeader_def DecodeConnectHeader_def tuic_read_host_def
          tuic_canonical_def Let_def connect_bytes_def r3 port)
  next
    case v6
    then show ?thesis
      using s p d by (simp add: EncodeConnectHeader_def DecodeConnectHeader_def tuic_read_host_def
          tuic_canonical_def Let_def connect_bytes_def r3 port)
  qed
qed

section \<open>UUIDs\<close>

lemma byte_less_16:
  assumes "d < (16 :: byte)"
  shows "d = 0 \<or> d = 1 \<or> d = 2 \<or> d = 3 \<or> d = 4 \<or> d = 5 \<or> d = 6 \<or> d = 7 \<or>
     d = 8 \<or> d = 9 \<or> d = 10 \<or> d = 11 \<or> d = 12 \<or> d = 13 \<or> d = 14 \<or> d = 15"
proof -
  have "unat d < 16" using assms by (simp add: word_less_nat_alt)
  then show ?thesis
    unfolding word_unat_eq_iff by simp presburger
qed

lemma hexVal_hex_digit:
  assumes "d < 16" shows "hexVal (byte_of_char (hex_digit d)) = Some d"
  using byte_less_16 [OF assms] by (elim disjE; hypsubst; code_simp)

lemma hex_digit_no_hyphen: "d < 16 \<Longrightarrow> byte_of_char (hex_digit d) \<noteq> 0x2D"
  using hexVal_hex_digit [of d] by (auto simp: hexVal_def)

lemma nibbles: "drop_bit 4 (b :: byte) < 16" "and (b :: byte) 15 < 16"
  "or (push_bit 4 (drop_bit 4 b)) (and b 15) = (b :: byte)"
proof -
  have low: "and b 15 = take_bit 4 b"
    by (simp add: take_bit_eq_mask mask_eq_exp_minus_1)
  show "or (push_bit 4 (drop_bit 4 b)) (and b 15) = (b :: byte)"
    unfolding low by (rule bit_word_eqI) (auto simp: bit_simps)
  show "drop_bit 4 b < 16"
    using unat_byte_less [of b]
    by (simp add: word_less_nat_alt drop_bit_eq_div unat_div less_mult_imp_div_less)
  show "and b 15 < 16"
    using word_and_le1 [of b 15] by (rule order.strict_trans1) simp
qed

lemma uuid_loop_hex: "uuid_loop i (bytes_of (hex_EncodeToString bs)) = Inr bs"
  by (induction bs arbitrary: i) (simp_all add: hex_EncodeToString_def bytes_of_def hexVal_hex_digit nibbles)

lemma hyphen_byte: "byte_of_char (CHR ''-'') = 0x2D" "char_of_byte 0x2D = CHR ''-''"
  by code_simp+

lemma bytes_of_filter_hyphen:
  "filter (\<lambda>b. b \<noteq> 0x2D) (bytes_of s) = bytes_of (filter (\<lambda>c. c \<noteq> CHR ''-'') s)"
proof (induction s)
  case (Cons c s)
  have "byte_of_char c = 0x2D \<longleftrightarrow> c = CHR ''-''"
    by (metis char_of_byte_of_char byte_of_char_of_byte hyphen_byte)
  then show ?case using Cons by (simp add: bytes_of_def)
qed (simp add: bytes_of_def)

section \<open>Properties\<close>

text \<open>
  a UUID printed in lower-case hexadecimal parses to its 16 bytes, wherever hyphens are put into
  the text.
\<close>

theorem tuic_uuid_roundtrip:
  assumes "length u = 16" and "filter (\<lambda>c. c \<noteq> CHR ''-'') s = hex_EncodeToString u"
  shows "ParseUUID s = Inr u"
  using assms by (simp add: ParseUUID_def Let_def bytes_of_filter_hyphen uuid_loop_hex)

theorem tuic_uuid_roundtrip_witness:
  "ParseUUID ''000102ff-0405-0607-0809-0a0b0c0d0e0f'' =
     Inr [0, 1, 2, 255, 4, 5, 6, 7, 8, 9, 10, 11, 12, 13, 14, 15]"
proof (rule tuic_uuid_roundtrip)
  show "filter (\<lambda>c. c \<noteq> CHR ''-'') ''000102ff-0405-0607-0809-0a0b0c0d0e0f'' =
      hex_EncodeToString [0, 1, 2, 255, 4, 5, 6, 7, 8, 9, 10, 11, 12, 13, 14, 15]"
    by code_simp
qed simp

text \<open>
  every address the CONNECT header writer accepts is read back with its command, the host in
  canonical form and the port reduced modulo 65536: the port parser wraps instead of rejecting a
  port that is out of range.
\<close>

theorem tuic_connect_roundtrip:
  assumes "snd (EncodeConnectHeader cmd address) = None"
  shows "DecodeConnectHeader (fst (EncodeConnectHeader cmd address) @ rest) =
     Inr ((cmd, tuic_canonical address), rest)"
  using assms by (rule DecodeConnectHeader_Encode)

theorem tuic_connect_roundtrip_witness:
  "DecodeConnectHeader (fst (EncodeConnectHeader 1 ''10.0.0.1:65537'') @ [7]) = Inr ((1, ''10.0.0.1:1''), [7])"
proof -
  have e: "snd (EncodeConnectHeader 1 ''10.0.0.1:65537'') = None" by code_simp
  have p: "decimal_value ''65537'' mod 65536 = 1" by (simp add: decimal_value_def digit_val_def)
  have s: "SplitHostPort ''10.0.0.1:65537'' = Inr (''10.0.0.1'', ''65537'')"
    and ip: "ParseIP ''10.0.0.1'' \<noteq> []" "To4 (ParseIP ''10.0.0.1'') \<noteq> []"
    and j: "JoinHostPort (IP_String (To4 (ParseIP ''10.0.0.1''))) (FormatUint 1) = ''10.0.0.1:1''"
    by code_simp+
  have "tuic_canonical ''10.0.0.1:65537'' = ''10.0.0.1:1''"
    by (simp only: tuic_canonical_def s sum.case prod.case Let_def p ip j if_False if_True refl not_False_eq_True)
  then show ?thesis
    using tuic_connect_roundtrip [OF e, of "[7]"] by (simp only:)
qed

end
