(* ===== verification/Hysteria2.thy ===== *)
theory Hysteria2
  imports GoBytes
begin

text \<open>
  The Hysteria2 stream header and authentication messages of \<^verbatim>\<open>transport/hysteria2/protocol.go\<close>. The
  random padding is a parameter of the stream header.
\<close>

datatype hy2_error = HRead string io_error | HAddrTooLong nat | HPasswordTooLong | HVersion byte

abbreviation "AuthVersion \<equiv> 1 :: byte"

definition EncodeStreamHeader :: "bytes \<Rightarrow> u32 \<Rightarrow> string \<Rightarrow> hy2_error written" where
  "EncodeStreamHeader padding requestID address =
     (let addrBytes = bytes_of address
      in if length addrBytes > 65535 then ([], Some (HAddrTooLong (length addrBytes)))
         else wwrite (put32 requestID @ put16 (u16_of_len (length addrBytes)) @ addrBytes @
                      put16 (u16_of_len (length padding)) @ padding))"

definition discard_padding :: "nat \<Rightarrow> bytes \<Rightarrow> hy2_error + bytes" where
  "discard_padding n r =
     (if n > 0 then (if length r < n then Inl (HRead ''read padding'' EOF) else Inr (drop n r)) else Inr r)"

definition DecodeStreamHeader :: "bytes \<Rightarrow> hy2_error + ((u32 \<times> string) \<times> bytes)" where
  "DecodeStreamHeader r =
     rbind (map_err (HRead ''read header'') (read_full 6 r)) (\<lambda>(hdr, r).
     rbind (map_err (HRead ''read address'') (read_full (unat (get16 (slice 4 6 hdr))) r)) (\<lambda>(addrBuf, r).
     rbind (map_err (HRead ''read padding length'') (read_full 2 r)) (\<lambda>(padLenBuf, r).
     rbind (discard_padding (unat (get16 padLenBuf)) r) (\<lambda>r.
       Inr ((get32 (slice 0 4 hdr), string_of addrBuf), r)))))"

definition Hy2_EncodeAuth :: "string \<Rightarrow> hy2_error written" where
  "Hy2_EncodeAuth password =
     (let pwBytes = bytes_of password
      in if length pwBytes > 65535 then ([], Some HPasswordTooLong)
         else wwrite (AuthVersion # put16 (u16_of_len (length pwBytes)) @ pwBytes))"

definition Hy2_DecodeAuth :: "bytes \<Rightarrow> hy2_error + (string \<times> bytes)" where
  "Hy2_DecodeAuth r =
     rbind (map_err (HRead ''read auth header'') (read_full 3 r)) (\<lambda>(hdr, r).
       if hdr ! 0 \<noteq> AuthVersion then Inl (HVersion (hdr ! 0))
       else rbind (map_err (HRead ''read password'') (read_full (unat (get16 (slice 1 3 hdr))) r)) (\<lambda>(pwBuf, r).
              Inr (string_of pwBuf, r)))"

definition WriteAuthResult :: "byte \<Rightarrow> hy2_error written" where
  "WriteAuthResult status = wwrite [status]"

definition ReadAuthResult :: "bytes \<Rightarrow> hy2_error + (byte \<times> bytes)" where
  "ReadAuthResult r = rbind (map_err (HRead ''read auth result'') (read_full 1 r)) (\<lambda>(buf, r). Inr (hd buf, r))"

lemma DecodeStreamHeader_Encode:
  assumes "length address \<le> 65535" and "length padding \<le> 65535"
  shows "DecodeStreamHeader (fst (EncodeStreamHeader padding requestID address) @ rest) =
     Inr ((requestID, address), rest)"
proof -
  have "read_full 6 ((put32 requestID @ put16 (u16_of_len (length address))) @ s) =
      Inr (put32 requestID @ put16 (u16_of_len (length address)), s)" for s
    by (intro read_full_append) simp
  then show ?thesis
    using assms by (simp add: EncodeStreamHeader_def DecodeStreamHeader_def slice_def discard_padding_def)
qed

lemma Hy2_DecodeAuth_Encode:
  assumes "length password \<le> 65535"
  shows "Hy2_DecodeAuth (fst (Hy2_EncodeAuth password) @ rest) = Inr (password, rest)"
proof -
  have "read_full 3 ((AuthVersion # put16 (u16_of_len (length password))) @ s) =
      Inr (AuthVersion # put16 (u16_of_len (length password)), s)" for s
    by (intro read_full_append) simp
  then show ?thesis
    using assms by (simp add: Hy2_EncodeAuth_def Hy2_DecodeAuth_def slice_def)
qed

interpretation hy2_stream: stream_codec "\<lambda>(pad, req, addr). fst (EncodeStreamHeader pad req addr)"
  "\<lambda>bs. rbind (DecodeStreamHeader bs) (\<lambda>((req, addr), r). Inr (([], req, addr), r))"
  "\<lambda>(pad, req, addr). pad = [] \<and> length addr \<le> 65535"
  by unfold_locales (auto simp: DecodeStreamHeader_Encode)

interpretation hy2_auth: stream_codec "\<lambda>p. fst (Hy2_EncodeAuth p)" Hy2_DecodeAuth "\<lambda>p. length p \<le> 65535"
  by unfold_locales (rule Hy2_DecodeAuth_Encode)

section \<open>Properties\<close>

text \<open>
  the stream header hides any padding of up to 64 bytes: request id and address are read back
  exactly, the padding is discarded, and the reader stops at the payload.
\<close>

theorem hy2_stream_header_roundtrip:
  assumes "length padding \<le> 64" and "snd (EncodeStreamHeader padding requestID address) = None"
  shows "DecodeStreamHeader (fst (EncodeStreamHeader padding requestID address) @ payload) =
     Inr ((requestID, address), payload)"
  using assms by (intro DecodeStreamHeader_Encode) (auto simp: EncodeStreamHeader_def Let_def split: if_splits)

theorem hy2_stream_header_roundtrip_witness:
  "DecodeStreamHeader (fst (EncodeStreamHeader [0, 0, 0] 0x01020304 ''h:1'') @ [5]) = Inr ((0x01020304, ''h:1''), [5])"
  by (rule hy2_stream_header_roundtrip) (simp_all add: EncodeStreamHeader_def Let_def)

text \<open>
  An authentication message is read back as the password for every password the writer
  accepts, and a message with another version byte is refused whatever follows.
\<close>

theorem hy2_auth_roundtrip:
  "(snd (Hy2_EncodeAuth password) = None \<longrightarrow>
      Hy2_DecodeAuth (fst (Hy2_EncodeAuth password) @ rest) = Inr (password, rest)) \<and>
   (v \<noteq> AuthVersion \<and> 2 \<le> length bs \<longrightarrow> Hy2_DecodeAuth (v # bs) = Inl (HVersion v))"
proof -
  have "length password \<le> 65535" if "snd (Hy2_EncodeAuth password) = None"
    using that by (auto simp: Hy2_EncodeAuth_def Let_def split: if_splits)
  moreover have "Hy2_DecodeAuth (v # bs) = Inl (HVersion v)" if "v \<noteq> AuthVersion" "2 \<le> length bs"
    using that by (simp add: Hy2_DecodeAuth_def read_full_def)
  ultimately show ?thesis using Hy2_DecodeAuth_Encode by blast
qed

theorem hy2_auth_roundtrip_witness:
  "Hy2_DecodeAuth (fst (Hy2_EncodeAuth ''secret'') @ [3]) = Inr (''secret'', [3]) \<and>
   Hy2_DecodeAuth [2, 0, 0] = Inl (HVersion 2)"
  using hy2_auth_roundtrip [of "''secret''" "[3]" 2 "[0, 0]"] by (simp add: Hy2_EncodeAuth_def Let_def)

end
