(* ===== verification/UdpFrame.thy ===== *)
theory UdpFrame
  imports Addr
begin

text \<open>
  The length-prefixed UDP relay frame of \<^verbatim>\<open>proxy/udp_frame.go\<close>. The frame is built with
  \<^verbatim>\<open>net.LookupPort\<close>, whose numeric part is modelled and whose service-name database is a parameter.
\<close>

datatype udp_error =
    FPayloadTooLarge nat
  | FAddr hostport_error
  | FPort string
  | FDomainTooLong nat
  | FRead string io_error
  | FBodyTooShort nat
  | FBodyTooLarge nat
  | FShort string
  | FAddrType byte

abbreviation "maxUDPPayload \<equiv> 65507 :: int"

section \<open>Port lookup\<close>

text \<open>
  The standard library's \<open>parsePort\<close>: \<open>None\<close> when the text is not a number and a service name has to be
  looked up. The accumulator is a \<open>uint32\<close>; at \<open>2^30\<close> it saturates and the loop ends.
\<close>

fun port_digits :: "u32 \<Rightarrow> string \<Rightarrow> u32 option" where
  "port_digits n [] = Some n"
| "port_digits n (d # ds) =
     (if \<not> is_digit d then None
      else if n \<ge> 0x40000000 then Some (- 1)
      else let n10 = n * 10; nn = n10 + of_nat (digit_val d)
           in if nn < n10 then Some (- 1) else port_digits nn ds)"

definition net_parsePort :: "string \<Rightarrow> int option" where
  "net_parsePort service =
     (if service = '''' then Some 0
      else let neg = HasPrefix service ''-'';
               digits = (if neg \<or> HasPrefix service ''+'' then tl service else service)
           in map_option (\<lambda>n.
                let port = (if \<not> neg \<and> n \<ge> 0x40000000 then 0x40000000 - 1
                            else if neg \<and> n > 0x40000000 then 0x40000000 else uint n)
                in if neg then - port else port) (port_digits 0 digits))"

definition LookupPort :: "(string \<Rightarrow> int option) \<Rightarrow> string \<Rightarrow> int option" where
  "LookupPort services service =
     (case (case net_parsePort service of Some p \<Rightarrow> Some p | None \<Rightarrow> services service) of
        None \<Rightarrow> None
      | Some port \<Rightarrow> if port < 0 \<or> port > 65535 then None else Some port)"

section \<open>Frames\<close>

definition frame_addr :: "string \<Rightarrow> udp_error + (byte \<times> bytes)" where
  "frame_addr host =
     (let ip = ParseIP host
      in if ip \<noteq> [] then
           (if To4 ip \<noteq> [] then Inr (0x01, To4 ip) else Inr (0x04, To16 ip))
         else if length host > 255 then Inl (FDomainTooLong (length host))
         else Inr (0x03, byte_of_len (length host) # bytes_of host))"

definition WriteUDPFrame :: "(string \<Rightarrow> int option) \<Rightarrow> string \<Rightarrow> bytes \<Rightarrow> udp_error + bytes" where
  "WriteUDPFrame services addr payload =
     (if int (length payload) > maxUDPPayload then Inl (FPayloadTooLarge (length payload))
      else
        rbind (map_err FAddr (SplitHostPort addr)) (\<lambda>(host, portStr).
          case LookupPort services portStr of
            None \<Rightarrow> Inl (FPort portStr)
          | Some port \<Rightarrow>
              rbind (frame_addr host) (\<lambda>(atyp, addrBytes).
                let bodyLen = 1 + length addrBytes + 2 + length payload
                in Inr (put16 (u16_of_len bodyLen) @ [atyp] @ addrBytes @ put16 (of_int port) @ payload))))"

definition frame_host :: "bytes \<Rightarrow> udp_error + (string \<times> nat)" where
  "frame_host body =
     (let atyp = body ! 0
      in if atyp = 0x01 then
           (if length body < 1 + 4 + 2 then Inl (FShort ''body too short for IPv4'')
            else Inr (IP_String (slice 1 5 body), 5))
         else if atyp = 0x03 then
           (if length body < 2 then Inl (FShort ''body too short for domain length'')
            else let dLen = unat (body ! 1)
                 in if length body < 2 + dLen + 2 then Inl (FShort ''body too short for domain'')
                    else Inr (string_of (slice 2 (2 + dLen) body), 2 + dLen))
         else if atyp = 0x04 then
           (if length body < 1 + 16 + 2 then Inl (FShort ''body too short for IPv6'')
            else Inr (IP_String (slice 1 17 body), 17))
         else Inl (FAddrType atyp))"

definition ReadUDPFrame :: "bytes \<Rightarrow> udp_error + ((string \<times> bytes) \<times> bytes)" where
  "ReadUDPFrame r =
     rbind (map_err (FRead ''read length'') (read_full 2 r)) (\<lambda>(lenBuf, r).
       let bodyLen = unat (get16 lenBuf)
       in if bodyLen < 1 + 4 + 2 then Inl (FBodyTooShort bodyLen)
          else if int bodyLen > maxUDPPayload + 1 + 256 + 2 then Inl (FBodyTooLarge bodyLen)
          else
            rbind (map_err (FRead ''read body'') (read_full bodyLen r)) (\<lambda>(body, r).
            rbind (frame_host body) (\<lambda>(host, addrEnd).
              if length body < addrEnd + 2 then Inl (FShort ''body too short for port'')
              else Inr ((JoinHostPort host (FormatUint (unat (get16 (slice addrEnd (addrEnd + 2) body)))),
                         drop (addrEnd + 2) body), r))))"

definition udp_canonical :: "(string \<Rightarrow> int option) \<Rightarrow> string \<Rightarrow> string" where
  "udp_canonical services addr =
     (case SplitHostPort addr of
        Inl e \<Rightarrow> addr
      | Inr (host, portStr) \<Rightarrow>
          (let ip = ParseIP host
           in JoinHostPort
                (if ip = [] then host else if To4 ip \<noteq> [] then IP_String (To4 ip) else IP_String (To16 ip))
                (FormatUint (nat (the (LookupPort services portStr))))))"

lemma LookupPort_range: "LookupPort services s = Some p \<Longrightarrow> 0 \<le> p \<and> p \<le> 65535"
  by (auto simp: LookupPort_def split: option.splits if_splits)

lemma frame_host_addr:
  assumes "frame_addr host = Inr (atyp, addrBytes)"
  shows "frame_host (atyp # addrBytes @ put16 p @ payload) =
     Inr (let ip = ParseIP host
          in if ip = [] then host else if To4 ip \<noteq> [] then IP_String (To4 ip) else IP_String (To16 ip),
          1 + length addrBytes)"
proof -
  consider (domain) "ParseIP host = []" | (v4) "ParseIP host \<noteq> []" "length (To4 (ParseIP host)) = 4"
    | (v6) "ParseIP host \<noteq> []" "To4 (ParseIP host) = []" "length (To16 (ParseIP host)) = 16"
    using To4_length [of "ParseIP host"] ParseIP_To16 by blast
  then show ?thesis
  proof cases
    case domain
    then have "length host \<le> 255" "atyp = 3" "addrBytes = byte_of_len (length host) # bytes_of host"
      using assms by (auto simp: frame_addr_def Let_def split: if_splits)
    then show ?thesis using domain by (simp add: frame_host_def Let_def slice_def)
  next
    case v4
    then have "To4 (ParseIP host) \<noteq> []" by auto
    then have "atyp = 1" "addrBytes = To4 (ParseIP host)"
      using assms v4 by (auto simp: frame_addr_def Let_def split: if_splits)
    then show ?thesis using v4 \<open>To4 (ParseIP host) \<noteq> []\<close> by (simp add: frame_host_def Let_def slice_def)
  next
    case v6
    then have "atyp = 4" "addrBytes = To16 (ParseIP host)"
      using assms by (auto simp: frame_addr_def Let_def split: if_splits)
    then show ?thesis using v6 by (simp add: frame_host_def Let_def slice_def)
  qed
qed

lemma WriteUDPFrame_shape:
  assumes "WriteUDPFrame services addr payload = Inr frame"
  obtains host portStr port atyp addrBytes where
    "SplitHostPort addr = Inr (host, portStr)" "LookupPort services portStr = Some port"
    "frame_addr host = Inr (atyp, addrBytes)"
    "frame = put16 (u16_of_len (1 + length addrBytes + 2 + length payload)) @ [atyp] @ addrBytes @
       put16 (of_int port) @ payload"
  using assms by (auto simp: WriteUDPFrame_def rbind_eq_Inr Let_def split: if_splits option.splits prod.splits)

lemma ReadUDPFrame_Write:
  assumes w: "WriteUDPFrame services addr payload = Inr frame"
    and "9 \<le> length frame" and "length frame \<le> 65537"
  shows "ReadUDPFrame (frame @ rest) = Inr ((udp_canonical services addr, payload), rest)"
proof -
  obtain host portStr port atyp addrBytes where
    s: "SplitHostPort addr = Inr (host, portStr)" and p: "LookupPort services portStr = Some port"
    and a: "frame_addr host = Inr (atyp, addrBytes)"
    and f: "frame = put16 (u16_of_len (1 + length addrBytes + 2 + length payload)) @ [atyp] @ addrBytes @
       put16 (of_int port) @ payload"
    using w by (rule WriteUDPFrame_shape)
  define body where "body = atyp # addrBytes @ put16 (of_int port) @ payload"
  define n where "n = length body"
  have f': "frame = put16 (u16_of_len n) @ body" by (simp add: f n_def body_def)
  have n: "7 \<le> n" "n < 65536" using assms(2,3) by (simp_all add: f' n_def)
  have port: "unat (of_int port :: u16) = nat port"
    using LookupPort_range [OF p] by (simp add: unsigned_of_int take_bit_int_eq_self)
  have host: "frame_host body = Inr (let ip = ParseIP host
          in if ip = [] then host else if To4 ip \<noteq> [] then IP_String (To4 ip) else IP_String (To16 ip),
          1 + length addrBytes)"
    unfolding body_def by (rule frame_host_addr [OF a])
  have "slice (1 + length addrBytes) (1 + length addrBytes + 2) body = put16 (of_int port)"
    "drop (1 + length addrBytes + 2) body = payload" "1 + length addrBytes + 2 \<le> length body"
    by (simp_all add: slice_def body_def)
  then show ?thesis
    using n unfolding f'
    by (simp add: ReadUDPFrame_def host Let_def port udp_canonical_def s p n_def)
qed

section \<open>Properties\<close>

text \<open>
  C33: a UDP frame of at most 65535 body bytes and at least 7 is read back with the payload, the
  canonical address and nothing left over or taken from the next frame; a frame with a shorter
  body, which the writer produces for a one-letter domain and an empty payload, is refused by the
  reader.
\<close>

theorem udp_frame_roundtrip:
  assumes "WriteUDPFrame services addr payload = Inr frame" and "length frame \<le> 65537"
  shows "ReadUDPFrame (frame @ rest) =
     (if length frame < 9 then Inl (FBodyTooShort (length frame - 2))
      else Inr ((udp_canonical services addr, payload), rest))"
proof (cases "length frame < 9")
  case True
  obtain n body where "frame = put16 (u16_of_len n) @ body" "n = length body"
    using assms(1) by (rule WriteUDPFrame_shape) fastforce
  then show ?thesis using True by (simp add: ReadUDPFrame_def Let_def)
next
  case False
  then show ?thesis using ReadUDPFrame_Write [OF assms(1) _ assms(2)] by simp
qed

theorem udp_frame_roundtrip_witness:
  "ReadUDPFrame ([0, 10, 1, 8, 8, 8, 8, 0, 53, 1, 2, 3] @ [99]) = Inr ((''8.8.8.8:53'', [1, 2, 3]), [99]) \<and>
   ReadUDPFrame ([0, 5, 3, 1, 97, 0, 53] @ []) = Inl (FBodyTooShort 5)"
proof -
  have w: "WriteUDPFrame (\<lambda>_. None) ''8.8.8.8:53'' [1, 2, 3] = Inr [0, 10, 1, 8, 8, 8, 8, 0, 53, 1, 2, 3]"
    "udp_canonical (\<lambda>_. None) ''8.8.8.8:53'' = ''8.8.8.8:53''"
    "WriteUDPFrame (\<lambda>_. None) ''a:53'' [] = Inr [0, 5, 3, 1, 97, 0, 53]"
    by code_simp+
  show ?thesis
    using udp_frame_roundtrip [OF w(1), of "[99]"] udp_frame_roundtrip [OF w(3), of "[]"] w(2) by simp
qed

end
