(* ===== verification/GoTime.thy ===== *)
theory GoTime
  imports Prelude
begin

text \<open>
  Clock readings and durations: a \<open>time.Time\<close> is a count of nanoseconds, a \<open>time.Duration\<close> an
  \<open>int64\<close>. \<open>Time.Sub\<close> (and \<open>time.Since\<close>) saturates, and integer division truncates towards zero.
\<close>

definition godiv :: "int \<Rightarrow> int \<Rightarrow> int" where
  "godiv a b = sgn a * sgn b * (\<bar>a\<bar> div \<bar>b\<bar>)"

lemma godiv_nonneg [simp]: "0 \<le> a \<Longrightarrow> 0 < b \<Longrightarrow> godiv a b = a div b"
  by (cases "a = 0") (simp_all add: godiv_def)

definition time_Sub :: "nanos \<Rightarrow> nanos \<Rightarrow> nanos" where
  "time_Sub t u = max (- (2 ^ 63)) (min (2 ^ 63 - 1) (t - u))"

lemma time_Sub_id [simp]: "- (2 ^ 63) \<le> t - u \<Longrightarrow> t - u < 2 ^ 63 \<Longrightarrow> time_Sub t u = t - u"
  by (simp add: time_Sub_def)

lemma time_Sub_less_iff:
  "- (2 ^ 63) < d \<Longrightarrow> d < 2 ^ 63 \<Longrightarrow> time_Sub t u < d \<longleftrightarrow> t - u < d"
  by (auto simp: time_Sub_def)

abbreviation "second \<equiv> 1000000000 :: nanos"
abbreviation "millisecond \<equiv> 1000000 :: nanos"

end
