(* ===== verification/Circuit.thy ===== *)
theory Circuit
  imports GoTime
begin

text \<open>
  The circuit breaker of \<^verbatim>\<open>engine/circuit.go\<close>. Every method is one atomic step on the breaker (it
  holds the mutex); \<open>onStateChange\<close> calls are recorded in a log. Timers are explicit: \<open>AfterFunc\<close>
  arms a fresh timer, an armed timer may expire, and the callback of an expired timer takes the
  mutex later. \<open>Stop\<close> removes a timer only while it is armed, so a callback that has expired but
  not run yet still runs. The failure counter is an \<open>int\<close> of Go without its bound of 63 bits.
\<close>

datatype CircuitState = CircuitClosed | CircuitOpen | CircuitHalfOpen

fun CircuitState_String :: "CircuitState \<Rightarrow> string" where
  "CircuitState_String CircuitClosed = ''closed''"
| "CircuitState_String CircuitOpen = ''open''"
| "CircuitState_String CircuitHalfOpen = ''half-open''"

record CircuitBreakerConfig =
  cfgThreshold :: int
  cfgBaseCooldown :: nanos
  cfgMaxCooldown :: nanos

record CircuitBreaker =
  cbState :: CircuitState
  consecutiveFails :: int
  threshold :: int
  cooldown :: nanos
  baseCooldown :: nanos
  maxCooldown :: nanos
  lastFailTime :: nanos
  resetTimer :: "nat option"
  halfOpenUsed :: bool

text \<open>The environment of the breaker: armed timers with their delay, expired callbacks that wait for
  the mutex, the next timer identity, and the notifications sent.\<close>

record timers =
  armed :: "(nat \<times> nanos) list"
  expired :: "nat list"
  nextTimer :: nat
  notified :: "(CircuitState \<times> nanos) list"



definition NewCircuitBreaker :: "CircuitBreakerConfig \<Rightarrow> CircuitBreaker" where
  "NewCircuitBreaker cfg =
     (let thr = (if cfgThreshold cfg \<le> 0 then 5 else cfgThreshold cfg);
          base = (if cfgBaseCooldown cfg \<le> 0 then 10 * second else cfgBaseCooldown cfg);
          mx = (if cfgMaxCooldown cfg \<le> 0 then 300 * second else cfgMaxCooldown cfg)
      in \<lparr>cbState = CircuitClosed, consecutiveFails = 0, threshold = thr, cooldown = base,
          baseCooldown = base, maxCooldown = mx, lastFailTime = 0, resetTimer = None, halfOpenUsed = False\<rparr>)"

definition noTimers :: timers where
  "noTimers = \<lparr>armed = [], expired = [], nextTimer = 0, notified = []\<rparr>"

definition stopTimer :: "nat option \<Rightarrow> timers \<Rightarrow> timers" where
  "stopTimer t tm = (case t of None \<Rightarrow> tm | Some i \<Rightarrow> tm\<lparr>armed := filter (\<lambda>(j, d). j \<noteq> i) (armed tm)\<rparr>)"

definition notify :: "CircuitState \<Rightarrow> nanos \<Rightarrow> timers \<Rightarrow> timers" where
  "notify s d tm = tm\<lparr>notified := notified tm @ [(s, d)]\<rparr>"

definition Allow :: "CircuitBreaker \<Rightarrow> CircuitBreaker \<times> bool" where
  "Allow cb =
     (case cbState cb of
        CircuitClosed \<Rightarrow> (cb, True)
      | CircuitOpen \<Rightarrow> (cb, False)
      | CircuitHalfOpen \<Rightarrow> if \<not> halfOpenUsed cb then (cb\<lparr>halfOpenUsed := True\<rparr>, True) else (cb, False))"

definition closeBreaker :: "CircuitBreaker \<Rightarrow> timers \<Rightarrow> CircuitBreaker \<times> timers" where
  "closeBreaker cb tm =
     (let tm1 = stopTimer (resetTimer cb) tm;
          cb1 = cb\<lparr>cbState := CircuitClosed, consecutiveFails := 0, cooldown := baseCooldown cb,
                   halfOpenUsed := False, resetTimer := None\<rparr>
      in (cb1, if cbState cb \<noteq> CircuitClosed then notify CircuitClosed 0 tm1 else tm1))"

definition RecordSuccess :: "CircuitBreaker \<Rightarrow> timers \<Rightarrow> CircuitBreaker \<times> timers" where
  "RecordSuccess cb tm = closeBreaker cb tm"

definition Reset :: "CircuitBreaker \<Rightarrow> timers \<Rightarrow> CircuitBreaker \<times> timers" where
  "Reset cb tm = closeBreaker cb tm"

definition startTimerLocked :: "nanos \<Rightarrow> CircuitBreaker \<Rightarrow> timers \<Rightarrow> CircuitBreaker \<times> timers" where
  "startTimerLocked d cb tm =
     (let tm1 = stopTimer (resetTimer cb) tm; i = nextTimer tm1
      in (cb\<lparr>resetTimer := Some i\<rparr>, tm1\<lparr>armed := (i, d) # armed tm1, nextTimer := Suc i\<rparr>))"

text \<open>The callback passed to \<open>AfterFunc\<close>: it notifies whether or not the state was open.\<close>

definition timerCallback :: "CircuitBreaker \<Rightarrow> timers \<Rightarrow> CircuitBreaker \<times> timers" where
  "timerCallback cb tm =
     (let cb1 = (if cbState cb = CircuitOpen
                 then cb\<lparr>cbState := CircuitHalfOpen, halfOpenUsed := False\<rparr> else cb)
      in (cb1, notify CircuitHalfOpen 0 tm))"

definition RecordFailure :: "nanos \<Rightarrow> CircuitBreaker \<Rightarrow> timers \<Rightarrow> (CircuitBreaker \<times> timers) \<times> bool" where
  "RecordFailure now cb0 tm =
     (let wasHalfOpen = (cbState cb0 = CircuitHalfOpen);
          cb = cb0\<lparr>consecutiveFails := consecutiveFails cb0 + 1, lastFailTime := now\<rparr>
      in if wasHalfOpen then
           (let c2 = wrap64 (cooldown cb * 2);
                c = (if c2 > maxCooldown cb then maxCooldown cb else c2);
                (cb1, tm1) = startTimerLocked c (cb\<lparr>cooldown := c, cbState := CircuitOpen, halfOpenUsed := False\<rparr>) tm
            in ((cb1, notify CircuitOpen c tm1), True))
         else if cbState cb = CircuitClosed \<and> consecutiveFails cb \<ge> threshold cb then
           (let (cb1, tm1) = startTimerLocked (cooldown cb) (cb\<lparr>cbState := CircuitOpen\<rparr>) tm
            in ((cb1, notify CircuitOpen (cooldown cb) tm1), True))
         else ((cb, tm), False))"

section \<open>The breaker and its timers as a machine\<close>

datatype cb_event = EvAllow | EvSuccess | EvFailure nanos | EvReset | EvExpire nat | EvCallback nat

fun cb_step :: "CircuitBreaker \<times> timers \<Rightarrow> cb_event \<Rightarrow> CircuitBreaker \<times> timers" where
  "cb_step (cb, tm) EvAllow = (fst (Allow cb), tm)"
| "cb_step (cb, tm) EvSuccess = RecordSuccess cb tm"
| "cb_step (cb, tm) (EvFailure now) = fst (RecordFailure now cb tm)"
| "cb_step (cb, tm) EvReset = Reset cb tm"
| "cb_step (cb, tm) (EvExpire i) =
     (if i \<in> fst ` set (armed tm)
      then (cb, tm\<lparr>armed := filter (\<lambda>(j, d). j \<noteq> i) (armed tm), expired := i # expired tm\<rparr>) else (cb, tm))"
| "cb_step (cb, tm) (EvCallback i) =
     (if i \<in> set (expired tm) then timerCallback cb (tm\<lparr>expired := remove1 i (expired tm)\<rparr>) else (cb, tm))"

text \<open>
  The invariant: limits are positive, a closed breaker has seen fewer consecutive failures than the
  threshold, and an open breaker has its timer armed or its callback pending.
\<close>

definition outstanding :: "timers \<Rightarrow> nat set" where
  "outstanding tm = fst ` set (armed tm) \<union> set (expired tm)"

definition cb_limits :: "CircuitBreaker \<Rightarrow> bool" where
  "cb_limits cb \<longleftrightarrow> 1 \<le> threshold cb \<and> 0 < baseCooldown cb \<and> 0 < maxCooldown cb \<and>
     baseCooldown cb < 2 ^ 62 \<and> maxCooldown cb < 2 ^ 62 \<and>
     0 < cooldown cb \<and> cooldown cb \<le> max (baseCooldown cb) (maxCooldown cb)"

definition cb_inv :: "CircuitBreaker \<times> timers \<Rightarrow> bool" where
  "cb_inv = (\<lambda>(cb, tm). cb_limits cb \<and> 0 \<le> consecutiveFails cb \<and>
     (cbState cb = CircuitClosed \<longrightarrow> consecutiveFails cb < threshold cb) \<and>
     (cbState cb = CircuitOpen \<longrightarrow> (\<exists>i. resetTimer cb = Some i \<and> i \<in> outstanding tm)))"

lemmas cb_defs = Allow_def RecordSuccess_def Reset_def closeBreaker_def startTimerLocked_def
  timerCallback_def stopTimer_def notify_def RecordFailure_def Let_def

lemma cb_inv_start:
  assumes "cfgBaseCooldown cfg < 2 ^ 62" and "cfgMaxCooldown cfg < 2 ^ 62"
  shows "cb_inv (NewCircuitBreaker cfg, noTimers)"
  using assms by (auto simp: cb_inv_def cb_limits_def NewCircuitBreaker_def noTimers_def outstanding_def Let_def)

lemma outstanding_simps [simp]:
  "outstanding (tm\<lparr>notified := n\<rparr>) = outstanding tm"
  "outstanding (tm\<lparr>nextTimer := k\<rparr>) = outstanding tm"
  by (simp_all add: outstanding_def)

lemma cb_inv_Allow: "cb_inv (cb, tm) \<Longrightarrow> cb_inv (fst (Allow cb), tm)"
  by (auto simp: cb_inv_def cb_limits_def Allow_def split: CircuitState.splits)

lemma cb_inv_close: "cb_inv (cb, tm) \<Longrightarrow> cb_inv (closeBreaker cb tm)"
  by (simp add: cb_inv_def cb_limits_def closeBreaker_def Let_def)

lemma cb_inv_startTimer:
  assumes "cb_inv (cb0, tm)" and "resetTimer cb = resetTimer cb0" and "cb_limits cb"
    and "0 \<le> consecutiveFails cb" and "cbState cb = CircuitOpen"
  shows "cb_inv (fst (startTimerLocked d cb tm), notify s n (snd (startTimerLocked d cb tm)))"
  using assms by (simp add: cb_inv_def cb_limits_def startTimerLocked_def notify_def Let_def) (simp add: outstanding_def)

lemma cb_limits_double:
  assumes "cb_limits cb"
  shows "cb_limits (cb\<lparr>cooldown := (if wrap64 (cooldown cb * 2) > maxCooldown cb then maxCooldown cb
           else wrap64 (cooldown cb * 2))\<rparr>)"
proof -
  have "wrap64 (cooldown cb * 2) = cooldown cb * 2"
    using assms by (intro wrap64_id) (auto simp: cb_limits_def max_def split: if_splits)
  then show ?thesis using assms by (auto simp: cb_limits_def)
qed

lemma cb_inv_Failure:
  assumes inv: "cb_inv (cb, tm)"
  shows "cb_inv (fst (RecordFailure now cb tm))"
proof -
  define cb1 where "cb1 = cb\<lparr>consecutiveFails := consecutiveFails cb + 1, lastFailTime := now\<rparr>"
  define c where "c = (if wrap64 (cooldown cb1 * 2) > maxCooldown cb1 then maxCooldown cb1
           else wrap64 (cooldown cb1 * 2))"
  have lim: "cb_limits cb1" and pos: "0 \<le> consecutiveFails cb1"
    using inv by (auto simp: cb_inv_def cb_limits_def cb1_def)
  consider (half) "cbState cb = CircuitHalfOpen"
    | (trip) "cbState cb = CircuitClosed" "consecutiveFails cb1 \<ge> threshold cb1"
    | (other) "cbState cb \<noteq> CircuitHalfOpen" "\<not> (cbState cb = CircuitClosed \<and> consecutiveFails cb1 \<ge> threshold cb1)"
    by blast
  then show ?thesis
  proof cases
    case half
    let ?cb2 = "cb1\<lparr>cooldown := c, cbState := CircuitOpen, halfOpenUsed := False\<rparr>"
    have "cb_limits ?cb2"
      using cb_limits_double [OF lim] by (simp add: cb_limits_def c_def)
    moreover have "fst (RecordFailure now cb tm) =
        (fst (startTimerLocked c ?cb2 tm), notify CircuitOpen c (snd (startTimerLocked c ?cb2 tm)))"
      using half by (simp add: RecordFailure_def Let_def cb1_def c_def case_prod_beta)
    ultimately show ?thesis
      using cb_inv_startTimer [OF inv, of ?cb2] pos by (simp add: cb1_def)
  next
    case trip
    let ?cb2 = "cb1\<lparr>cbState := CircuitOpen\<rparr>"
    have "fst (RecordFailure now cb tm) = (fst (startTimerLocked (cooldown cb1) ?cb2 tm),
        notify CircuitOpen (cooldown cb1) (snd (startTimerLocked (cooldown cb1) ?cb2 tm)))"
      using trip by (simp add: RecordFailure_def Let_def cb1_def case_prod_beta)
    then show ?thesis
      using cb_inv_startTimer [OF inv, of ?cb2] lim pos by (simp add: cb1_def cb_limits_def)
  next
    case other
    then have "fst (RecordFailure now cb tm) = (cb1, tm)"
      by (auto simp: RecordFailure_def Let_def cb1_def)
    then show ?thesis
      using other inv lim pos by (auto simp: cb_inv_def cb1_def)
  qed
qed

lemma cb_inv_Callback:
  assumes "cb_inv (cb, tm)" and "i \<in> set (expired tm)"
  shows "cb_inv (timerCallback cb (tm\<lparr>expired := remove1 i (expired tm)\<rparr>))"
  using assms
  by (simp add: cb_inv_def cb_limits_def timerCallback_def notify_def Let_def)

lemma cb_inv_Expire:
  assumes "cb_inv (cb, tm)" and "i \<in> fst ` set (armed tm)"
  shows "cb_inv (cb, tm\<lparr>armed := filter (\<lambda>(j, d). j \<noteq> i) (armed tm), expired := i # expired tm\<rparr>)"
proof -
  have "outstanding (tm\<lparr>armed := filter (\<lambda>(j, d). j \<noteq> i) (armed tm), expired := i # expired tm\<rparr>) = outstanding tm"
    using assms(2) by (auto simp: outstanding_def image_iff)
  then show ?thesis using assms(1) by (simp add: cb_inv_def)
qed

lemmas cb_inv_intros = cb_inv_Allow cb_inv_close cb_inv_Failure cb_inv_Callback cb_inv_Expire

definition cb_start :: "CircuitBreaker \<times> timers \<Rightarrow> bool" where
  "cb_start s \<longleftrightarrow> (\<exists>cfg. cfgBaseCooldown cfg < 2 ^ 62 \<and> cfgMaxCooldown cfg < 2 ^ 62 \<and>
     s = (NewCircuitBreaker cfg, noTimers))"

interpretation breaker: machine cb_start cb_step cb_inv
proof
  show "cb_inv s" if "cb_start s" for s
    using that cb_inv_start by (auto simp: cb_start_def)
  show "cb_inv (cb_step s e)" if "cb_inv s" for s e
    using that by (cases s; cases e) (auto simp: RecordSuccess_def Reset_def intro: cb_inv_intros)
qed

section \<open>Backoff and probes\<close>

text \<open>One round of the breaker while the remote stays down: the timer half-opens it and the probe fails.\<close>

definition failed_probe :: "nanos \<Rightarrow> CircuitBreaker \<times> timers \<Rightarrow> CircuitBreaker \<times> timers" where
  "failed_probe now = (\<lambda>(cb, tm).
     let (cb1, tm1) = timerCallback cb tm in fst (RecordFailure now (fst (Allow cb1)) tm1))"

lemma failed_probe_open:
  assumes "cbState cb = CircuitOpen"
  shows "cbState (fst (failed_probe now (cb, tm))) = CircuitOpen"
    and "cooldown (fst (failed_probe now (cb, tm))) =
      (if wrap64 (cooldown cb * 2) > maxCooldown cb then maxCooldown cb else wrap64 (cooldown cb * 2))"
    and "maxCooldown (fst (failed_probe now (cb, tm))) = maxCooldown cb"
  using assms by (simp_all add: failed_probe_def timerCallback_def Allow_def RecordFailure_def
      startTimerLocked_def Let_def case_prod_beta)

lemma failed_probes_cooldown:
  assumes "cbState cb = CircuitOpen" and "0 < cooldown cb" and "cooldown cb \<le> maxCooldown cb"
    and "maxCooldown cb < 2 ^ 62"
  shows "cbState (fst ((failed_probe now ^^ n) (cb, tm))) = CircuitOpen \<and>
     maxCooldown (fst ((failed_probe now ^^ n) (cb, tm))) = maxCooldown cb \<and>
     cooldown (fst ((failed_probe now ^^ n) (cb, tm))) = min (cooldown cb * 2 ^ n) (maxCooldown cb)"
proof (induction n)
  case (Suc n)
  obtain cb' tm' where s: "(failed_probe now ^^ n) (cb, tm) = (cb', tm')" by fastforce
  have c: "cbState cb' = CircuitOpen" "maxCooldown cb' = maxCooldown cb"
    "cooldown cb' = min (cooldown cb * 2 ^ n) (maxCooldown cb)" using Suc s by auto
  have "0 < cooldown cb * 2 ^ n" "0 < maxCooldown cb" using assms(2,3) by simp_all
  then have w: "wrap64 (cooldown cb' * 2) = cooldown cb' * 2"
    using assms(4) by (intro wrap64_id) (auto simp: c(3) min_def)
  have cap: "(if min x m * 2 > m then m else min x m * 2) = min (x * 2) m" if "0 < x" "0 < m" for x m :: int
    using that by (auto simp: min_def)
  have "cooldown (fst (failed_probe now (cb', tm'))) = min (cooldown cb * 2 ^ n * 2) (maxCooldown cb)"
    using failed_probe_open(2) [OF c(1), of now tm'] cap [OF \<open>0 < cooldown cb * 2 ^ n\<close> \<open>0 < maxCooldown cb\<close>]
    by (simp only: w c(2)) (simp only: c(3))
  then show ?case
    using failed_probe_open(1,3) [OF c(1), of now tm'] s c(2) by (simp add: mult.commute mult.left_commute)
qed (use assms in simp)

fun allow_n :: "nat \<Rightarrow> CircuitBreaker \<Rightarrow> bool list" where
  "allow_n 0 cb = []"
| "allow_n (Suc n) cb = (let (cb1, ok) = Allow cb in ok # allow_n n cb1)"

lemma allow_n_used:
  "cbState cb = CircuitHalfOpen \<Longrightarrow> halfOpenUsed cb \<Longrightarrow> allow_n n cb = replicate n False"
  by (induction n) (simp_all add: Allow_def)

section \<open>Properties\<close>

text \<open>
  C19: in every state the breaker can reach through any interleaving of requests, results, resets,
  timer expiries and late timer callbacks, a closed breaker has fewer consecutive failures than
  the threshold, an open breaker has a timer armed or a callback pending that will half-open it,
  and the cooldown is positive and at most the larger of base and maximum.
\<close>

theorem circuit_reachable_invariant:
  assumes "cfgBaseCooldown cfg < 2 ^ 62" and "cfgMaxCooldown cfg < 2 ^ 62"
    and "foldl cb_step (NewCircuitBreaker cfg, noTimers) events = (cb, tm)"
  shows "(cbState cb = CircuitClosed \<longrightarrow> consecutiveFails cb < threshold cb) \<and>
     (cbState cb = CircuitOpen \<longrightarrow> (\<exists>i. resetTimer cb = Some i \<and> (i \<in> fst ` set (armed tm) \<or> i \<in> set (expired tm)))) \<and>
     0 < cooldown cb \<and> cooldown cb \<le> max (baseCooldown cb) (maxCooldown cb)"
proof -
  have "cb_start (NewCircuitBreaker cfg, noTimers)"
    using assms(1,2) by (auto simp: cb_start_def)
  then have "cb_inv (cb, tm)"
    using breaker.reachable_inv assms(3) by metis
  then show ?thesis
    by (simp add: cb_inv_def cb_limits_def outstanding_def)
qed

theorem circuit_reachable_invariant_witness:
  "\<exists>cb tm. foldl cb_step (NewCircuitBreaker \<lparr>cfgThreshold = 2, cfgBaseCooldown = 10, cfgMaxCooldown = 40\<rparr>, noTimers)
       [EvFailure 1, EvFailure 2] = (cb, tm) \<and>
     cbState cb = CircuitOpen \<and> (\<exists>i. resetTimer cb = Some i \<and> (i \<in> fst ` set (armed tm) \<or> i \<in> set (expired tm)))"
proof -
  let ?cfg = "\<lparr>cfgThreshold = 2, cfgBaseCooldown = 10, cfgMaxCooldown = 40\<rparr>"
  let ?s = "foldl cb_step (NewCircuitBreaker ?cfg, noTimers) [EvFailure 1, EvFailure 2]"
  obtain cb tm where s: "?s = (cb, tm)" by fastforce
  have "cbState (fst ?s) = CircuitOpen" by code_simp
  then have "cbState cb = CircuitOpen" using s by (simp only: fst_conv)
  moreover have "cfgBaseCooldown ?cfg < 2 ^ 62" "cfgMaxCooldown ?cfg < 2 ^ 62" by simp_all
  note circuit_reachable_invariant [OF this s]
  ultimately show ?thesis using s by blast
qed

text \<open>
  while the remote stays down, the n-th failed probe reopens the breaker with the cooldown
  doubled n times and capped at the maximum.
\<close>

theorem circuit_exponential_backoff:
  assumes "cbState cb = CircuitOpen" and "0 < cooldown cb" and "cooldown cb \<le> maxCooldown cb"
    and "maxCooldown cb < 2 ^ 62"
  shows "cbState (fst ((failed_probe now ^^ n) (cb, tm))) = CircuitOpen \<and>
     cooldown (fst ((failed_probe now ^^ n) (cb, tm))) = min (cooldown cb * 2 ^ n) (maxCooldown cb)"
  using failed_probes_cooldown [OF assms] by simp

theorem circuit_exponential_backoff_witness:
  "cooldown (fst ((failed_probe 0 ^^ 3)
     (NewCircuitBreaker \<lparr>cfgThreshold = 1, cfgBaseCooldown = 10, cfgMaxCooldown = 45\<rparr>\<lparr>cbState := CircuitOpen\<rparr>, noTimers))) = 45"
  using circuit_exponential_backoff
    [where now = 0 and n = 3 and tm = noTimers and
      cb = "NewCircuitBreaker \<lparr>cfgThreshold = 1, cfgBaseCooldown = 10, cfgMaxCooldown = 45\<rparr>\<lparr>cbState := CircuitOpen\<rparr>"]
  by (simp add: NewCircuitBreaker_def Let_def)

text \<open>
  a half-open breaker lets exactly one request through: of any number of requests that ask
  before the probe reports back, the first is allowed and all others are refused.
\<close>

theorem circuit_single_probe:
  assumes "cbState cb = CircuitOpen"
  shows "allow_n (Suc n) (fst (timerCallback cb tm)) = True # replicate n False"
  using assms by (simp add: timerCallback_def Let_def Allow_def allow_n_used)

theorem circuit_single_probe_witness:
  "allow_n (Suc 2) (fst (timerCallback (NewCircuitBreaker \<lparr>cfgThreshold = 1, cfgBaseCooldown = 1, cfgMaxCooldown = 1\<rparr>
       \<lparr>cbState := CircuitOpen\<rparr>) noTimers)) = [True, False, False]"
  using circuit_single_probe [of "NewCircuitBreaker \<lparr>cfgThreshold = 1, cfgBaseCooldown = 1, cfgMaxCooldown = 1\<rparr>
       \<lparr>cbState := CircuitOpen\<rparr>" 2 noTimers] by (simp add: numeral_2_eq_2)

text \<open>
  A callback that expired before its timer was stopped runs late: it half-opens a breaker that has
  been closed and opened again since, before the new cooldown has passed, and it reports a
  half-open breaker even when the breaker is closed.
\<close>

lemma late_callback_half_opens:
  "let s = foldl cb_step (NewCircuitBreaker \<lparr>cfgThreshold = 1, cfgBaseCooldown = 10, cfgMaxCooldown = 40\<rparr>, noTimers)
       [EvFailure 1, EvExpire 0, EvSuccess, EvFailure 2, EvCallback 0]
   in cbState (fst s) = CircuitHalfOpen \<and> 1 \<in> fst ` set (armed (snd s))"
  by code_simp

lemma late_callback_reports_half_open:
  "let s = foldl cb_step (NewCircuitBreaker \<lparr>cfgThreshold = 1, cfgBaseCooldown = 10, cfgMaxCooldown = 40\<rparr>, noTimers)
       [EvFailure 1, EvExpire 0, EvSuccess, EvCallback 0]
   in cbState (fst s) = CircuitClosed \<and> last (notified (snd s)) = (CircuitHalfOpen, 0)"
  by code_simp

end
