(* ===== verification/Retry.thy ===== *)
theory Retry
  imports Prelude
begin

text \<open>
  Retrying with exponential backoff, \<^verbatim>\<open>engine/retry.go\<close>. The operation is a function of the attempt
  number that returns its error, if any; \<open>done\<close> says whether the context is found cancelled at the
  \<^verbatim>\<open>select\<close> after an attempt, and with which error. The floating-point jitter is a parameter: what the
  expression rounds to for a given attempt and backoff. The model returns the result, the delays
  waited for and the number of calls.
\<close>

record RetryConfig =
  MaxAttempts :: int
  InitialBackoff :: nanos
  MaxBackoff :: nanos
  JitterOn :: bool

definition DefaultRetryConfig :: RetryConfig where
  "DefaultRetryConfig = \<lparr>MaxAttempts = 3, InitialBackoff = 100000000, MaxBackoff = 5000000000, JitterOn = True\<rparr>"

definition jittered :: "RetryConfig \<Rightarrow> nanos \<Rightarrow> nanos \<Rightarrow> nanos" where
  "jittered cfg jitter backoff =
     (if JitterOn cfg then (let j = wrap64 (backoff + jitter) in if j < 0 then backoff else j) else backoff)"

definition next_backoff :: "RetryConfig \<Rightarrow> nanos \<Rightarrow> nanos" where
  "next_backoff cfg backoff =
     (let b = wrap64 (backoff * 2) in if MaxBackoff cfg > 0 \<and> b > MaxBackoff cfg then MaxBackoff cfg else b)"

function retry_loop :: "(nat \<Rightarrow> 'e option) \<Rightarrow> (nat \<Rightarrow> 'e option) \<Rightarrow> (nat \<Rightarrow> nanos \<Rightarrow> nanos) \<Rightarrow> RetryConfig
    \<Rightarrow> nat \<Rightarrow> nanos \<Rightarrow> 'e option \<Rightarrow> 'e option \<times> nanos list \<times> nat" where
  "retry_loop fn cancelled jit cfg attempt backoff lastErr =
     (if int attempt < MaxAttempts cfg then
        (case fn attempt of
           None \<Rightarrow> (None, [], attempt + 1)
         | Some err \<Rightarrow>
             if int attempt < MaxAttempts cfg - 1 then
               (case cancelled attempt of
                  Some ctxErr \<Rightarrow> (Some ctxErr, [], attempt + 1)
                | None \<Rightarrow>
                    (let (r, waits, calls) =
                           retry_loop fn cancelled jit cfg (attempt + 1) (next_backoff cfg backoff) (Some err)
                     in (r, jittered cfg (jit attempt backoff) backoff # waits, calls)))
             else retry_loop fn cancelled jit cfg (attempt + 1) backoff (Some err))
      else (lastErr, [], attempt))"
  by pat_completeness auto
termination
  by (relation "measure (\<lambda>(fn, cancelled, jit, cfg, attempt, backoff, lastErr). nat (MaxAttempts cfg - int attempt))") auto

declare retry_loop.simps [simp del]

definition retryWithBackoff :: "(nat \<Rightarrow> 'e option) \<Rightarrow> (nat \<Rightarrow> 'e option) \<Rightarrow> (nat \<Rightarrow> nanos \<Rightarrow> nanos)
    \<Rightarrow> RetryConfig \<Rightarrow> 'e option \<times> nanos list \<times> nat" where
  "retryWithBackoff fn cancelled jit cfg0 =
     (let cfg = (if MaxAttempts cfg0 \<le> 0 then cfg0\<lparr>MaxAttempts := 1\<rparr> else cfg0);
          backoff = (if InitialBackoff cfg = 0 then 100000000 else InitialBackoff cfg)
      in retry_loop fn cancelled jit cfg 0 backoff None)"

section \<open>Facts\<close>

lemma retry_loop_success:
  assumes "\<And>i. a \<le> i \<Longrightarrow> i < k \<Longrightarrow> fn i \<noteq> None" and "fn k = None" and "a \<le> k" and "int k < MaxAttempts cfg"
    and "\<And>i. a \<le> i \<Longrightarrow> i < k \<Longrightarrow> cancelled i = None"
  shows "\<exists>waits. retry_loop fn cancelled jit cfg a b e = (None, waits, k + 1) \<and> length waits = k - a"
  using assms
proof (induction "k - a" arbitrary: a b e)
  case 0
  then show ?case by (subst retry_loop.simps) simp
next
  case (Suc d)
  then have ak: "a < k" by linarith
  then obtain err where err: "fn a = Some err" using Suc.prems(1) by blast
  have "\<exists>waits. retry_loop fn cancelled jit cfg (a + 1) (next_backoff cfg b) (Some err) = (None, waits, k + 1) \<and>
      length waits = k - (a + 1)"
    using Suc.prems ak Suc.hyps(2) by (intro Suc.hyps(1)) auto
  then show ?case
    using ak err Suc.prems(4,5) by (subst retry_loop.simps) (auto simp: Suc_diff_Suc)
qed

lemma retry_loop_all_fail:
  assumes "\<And>i. a \<le> i \<Longrightarrow> i < n \<Longrightarrow> fn i \<noteq> None" and "int n = MaxAttempts cfg" and "a < n"
    and "\<And>i. a \<le> i \<Longrightarrow> i < n - 1 \<Longrightarrow> cancelled i = None"
  shows "retry_loop fn cancelled jit cfg a b e =
     (fn (n - 1), map (\<lambda>i. jittered cfg (jit (a + i) ((next_backoff cfg ^^ i) b)) ((next_backoff cfg ^^ i) b)) [0..<n - 1 - a], n)"
  using assms
proof (induction "n - a" arbitrary: a b e)
  case (Suc d)
  obtain err where err: "fn a = Some err" using Suc.prems(1,3) by blast
  show ?case
  proof (cases "a + 1 = n")
    case True
    have "retry_loop fn cancelled jit cfg n b (Some err) = (Some err, [], n)"
      using Suc.prems(2) by (subst retry_loop.simps) simp
    then show ?thesis
      using True err Suc.prems(2) by (subst retry_loop.simps) auto
  next
    case False
    let ?f = "\<lambda>a b i. jittered cfg (jit (a + i) ((next_backoff cfg ^^ i) b)) ((next_backoff cfg ^^ i) b)"
    have ih: "retry_loop fn cancelled jit cfg (a + 1) (next_backoff cfg b) (Some err) =
        (fn (n - 1), map (?f (a + 1) (next_backoff cfg b)) [0..<n - 1 - (a + 1)], n)"
      using Suc.prems Suc.hyps(2) False by (intro Suc.hyps(1)) auto
    have "n - 1 - a = Suc (n - 1 - (a + 1))" using False Suc.prems(3) by linarith
    then have "[0..<n - 1 - a] = 0 # map Suc [0..<n - 1 - (a + 1)]"
      by (simp only: map_Suc_upt upt_conv_Cons zero_less_Suc)
    then have "map (?f a b) [0..<n - 1 - a] = ?f a b 0 # map (?f (a + 1) (next_backoff cfg b)) [0..<n - 1 - (a + 1)]"
      by (simp add: funpow_swap1)
    then show ?thesis
      using ih err Suc.prems False by (subst retry_loop.simps) auto
  qed
qed simp

lemma retry_loop_cancelled:
  assumes "\<And>i. a \<le> i \<Longrightarrow> i \<le> k \<Longrightarrow> fn i \<noteq> None" and "cancelled k = Some err" and "a \<le> k" and "int k < MaxAttempts cfg - 1"
    and "\<And>i. a \<le> i \<Longrightarrow> i < k \<Longrightarrow> cancelled i = None"
  shows "\<exists>waits. retry_loop fn cancelled jit cfg a b e = (Some err, waits, k + 1) \<and> length waits = k - a"
  using assms
proof (induction "k - a" arbitrary: a b e)
  case 0
  then have "a = k" by simp
  moreover obtain e' where "fn k = Some e'" using 0 by blast
  ultimately show ?case using 0 by (subst retry_loop.simps) simp
next
  case (Suc d)
  then have ak: "a < k" by linarith
  then obtain e' where e': "fn a = Some e'" using Suc.prems(1) by fastforce
  have "\<exists>waits. retry_loop fn cancelled jit cfg (a + 1) (next_backoff cfg b) (Some e') = (Some err, waits, k + 1) \<and>
      length waits = k - (a + 1)"
    using Suc.prems ak Suc.hyps(2) by (intro Suc.hyps(1)) auto
  then show ?case
    using ak e' Suc.prems(4,5) by (subst retry_loop.simps) (auto simp: Suc_diff_Suc)
qed

lemma retry_loop_calls:
  "retry_loop fn cancelled jit cfg a b e = (r, waits, calls) \<Longrightarrow> int calls \<le> max (int a) (MaxAttempts cfg)"
proof (induction fn cancelled jit cfg a b e arbitrary: r waits calls rule: retry_loop.induct)
  case (1 fn cancelled jit cfg attempt backoff lastErr)
  show ?case
    using "1.prems"
    by (subst (asm) retry_loop.simps) (use "1.IH" in \<open>fastforce split: if_splits option.splits prod.splits\<close>)
qed

lemma next_backoff_iterate:
  assumes "0 < b" and "b \<le> MaxBackoff cfg" and "MaxBackoff cfg < 2 ^ 62"
  shows "(next_backoff cfg ^^ i) b = min (b * 2 ^ i) (MaxBackoff cfg)"
proof (induction i)
  case (Suc i)
  have pos: "0 < b * 2 ^ i" "0 < MaxBackoff cfg" using assms by simp_all
  have w: "wrap64 (min (b * 2 ^ i) (MaxBackoff cfg) * 2) = min (b * 2 ^ i) (MaxBackoff cfg) * 2"
    using pos assms(3) by (intro wrap64_id) (auto simp: min_def)
  have cap: "(if 0 < m \<and> m < min x m * 2 then m else min x m * 2) = min (x * 2) m" if "0 < x" "0 < m" for x m :: int
    using that by (auto simp: min_def)
  have "(next_backoff cfg ^^ Suc i) b = next_backoff cfg (min (b * 2 ^ i) (MaxBackoff cfg))"
    by (simp add: Suc)
  also have "\<dots> = min (b * 2 ^ i * 2) (MaxBackoff cfg)"
    by (simp only: next_backoff_def Let_def w cap [OF pos])
  finally show ?case by (simp add: mult.commute mult.left_commute)
qed (use assms in simp)

section \<open>Properties\<close>

text \<open>
  C37: the loop always returns, in one of three ways. If an attempt within the allowed number succeeds,
  all earlier ones fail and the context is alive in the waits between them, the success is reported
  after exactly that many calls, with one wait between two calls. If the context is found done in the
  wait after an attempt, all attempts up to it having failed, the error of the context is reported and
  no further call is made; the context is not looked at after the last allowed attempt. If every allowed
  attempt fails and no wait is cut short, the error of the last attempt is reported.
\<close>

theorem retry_first_success_or_last_error:
  assumes "n = nat (max 1 (MaxAttempts cfg))"
  shows "(\<forall>k<n. fn k = None \<and> (\<forall>i<k. fn i \<noteq> None \<and> cancelled i = None) \<longrightarrow>
        (\<exists>waits. retryWithBackoff fn cancelled jit cfg = (None, waits, k + 1) \<and> length waits = k)) \<and>
     (\<forall>k<n - 1. \<forall>err. cancelled k = Some err \<and> (\<forall>i\<le>k. fn i \<noteq> None) \<and> (\<forall>i<k. cancelled i = None) \<longrightarrow>
        (\<exists>waits. retryWithBackoff fn cancelled jit cfg = (Some err, waits, k + 1) \<and> length waits = k)) \<and>
     ((\<forall>i<n. fn i \<noteq> None) \<and> (\<forall>i<n - 1. cancelled i = None) \<longrightarrow>
        (\<exists>waits. retryWithBackoff fn cancelled jit cfg = (fn (n - 1), waits, n) \<and> length waits = n - 1))"
proof -
  define cfg' where "cfg' = (if MaxAttempts cfg \<le> 0 then cfg\<lparr>MaxAttempts := 1\<rparr> else cfg)"
  define b where "b = (if InitialBackoff cfg' = 0 then 100000000 else InitialBackoff cfg')"
  have n: "int n = MaxAttempts cfg'" "0 < n" using assms by (auto simp: cfg'_def)
  have r: "retryWithBackoff fn cancelled jit cfg = retry_loop fn cancelled jit cfg' 0 b None"
    by (simp add: retryWithBackoff_def cfg'_def b_def Let_def)
  show ?thesis
    unfolding r
  proof (intro conjI allI impI, goal_cases)
    case (1 k)
    then show ?case using retry_loop_success [of 0 k fn cfg' cancelled jit b None] n by simp
  next
    case (2 k err)
    moreover have "int k < MaxAttempts cfg' - 1" using 2 n by linarith
    ultimately show ?case using retry_loop_cancelled [of 0 k fn cancelled err cfg' jit b None] by simp
  next
    case 3
    then show ?case using retry_loop_all_fail [of 0 n fn cfg' cancelled jit b None] n by simp
  qed
qed

theorem retry_first_success_or_last_error_witness:
  "(\<exists>waits. retryWithBackoff (\<lambda>i. if i < 2 then Some ''refused'' else None) (\<lambda>_. None) (\<lambda>_ _. 5) DefaultRetryConfig =
     (None, waits, 3) \<and> length waits = 2) \<and>
   (\<exists>waits. retryWithBackoff (\<lambda>i. Some ''refused'') (\<lambda>i. if i = 1 then Some ''canceled'' else None) (\<lambda>_ _. 5) DefaultRetryConfig =
     (Some ''canceled'', waits, 2) \<and> length waits = 1)"
proof -
  have n: "(3::nat) = nat (max 1 (MaxAttempts DefaultRetryConfig))" by (simp add: DefaultRetryConfig_def)
  from retry_first_success_or_last_error [OF n, of "\<lambda>i. if i < 2 then Some ''refused'' else None" "\<lambda>_. None" "\<lambda>_ _. 5",
      THEN conjunct1, rule_format, of 2]
    retry_first_success_or_last_error [OF n, of "\<lambda>i. Some ''refused''" "\<lambda>i. if i = 1 then Some ''canceled'' else None" "\<lambda>_ _. 5",
      THEN conjunct2, THEN conjunct1, rule_format, of 1 "''canceled''"]
  show ?thesis by (simp add: numeral_3_eq_3 numeral_2_eq_2)
qed

text \<open>
  without jitter, the delays between the attempts are the initial backoff doubled each time
  and capped at the maximum, and no more calls are made than allowed.
\<close>

theorem retry_backoff_schedule:
  assumes "\<And>i. cancelled i = None" and "\<And>i. fn i \<noteq> None" and "\<not> JitterOn cfg" and "0 < MaxAttempts cfg"
    and "0 < InitialBackoff cfg" and "InitialBackoff cfg \<le> MaxBackoff cfg" and "MaxBackoff cfg < 2 ^ 62"
  shows "fst (snd (retryWithBackoff fn cancelled jit cfg)) =
     map (\<lambda>i. min (InitialBackoff cfg * 2 ^ i) (MaxBackoff cfg)) [0..<nat (MaxAttempts cfg) - 1]"
proof -
  let ?n = "nat (MaxAttempts cfg)"
  have "retryWithBackoff fn cancelled jit cfg = retry_loop fn cancelled jit cfg 0 (InitialBackoff cfg) None"
    using assms(4,5) by (simp add: retryWithBackoff_def Let_def)
  moreover have "retry_loop fn cancelled jit cfg 0 (InitialBackoff cfg) None = (fn (?n - 1),
      map (\<lambda>i. jittered cfg (jit (0 + i) ((next_backoff cfg ^^ i) (InitialBackoff cfg))) ((next_backoff cfg ^^ i) (InitialBackoff cfg)))
        [0..<?n - 1 - 0], ?n)"
    using assms by (intro retry_loop_all_fail) auto
  ultimately show ?thesis
    using assms(3) next_backoff_iterate [OF assms(5,6,7)] by (simp add: jittered_def)
qed

theorem retry_backoff_schedule_witness:
  "fst (snd (retryWithBackoff (\<lambda>_. Some ()) (\<lambda>_. None) (\<lambda>_ _. 0)
     \<lparr>MaxAttempts = 5, InitialBackoff = 100, MaxBackoff = 500, JitterOn = False\<rparr>)) = [100, 200, 400, 500]"
  using retry_backoff_schedule [of "\<lambda>_. None" "\<lambda>_. Some ()" "\<lparr>MaxAttempts = 5, InitialBackoff = 100, MaxBackoff = 500, JitterOn = False\<rparr>" "\<lambda>_ _. 0"]
  by (simp add: upt_rec)

end
