(* ===== verification/FakeIP.thy ===== *)
theory FakeIP
  imports GoBytes GoStrings
begin

text \<open>
  The fake-IP pool and its bypass filter, \<^verbatim>\<open>router/dns/fakeip/pool.go\<close> and \<^verbatim>\<open>filter.go\<close>. IPv4 addresses are
  32-bit words. The lemmas show that the two maps of the pool stay inverse to each other, which
  addresses are handed out, and how long an assignment lasts.
\<close>

unbundle bit_operations_syntax

section \<open>Glob patterns\<close>

text \<open>
  \<open>filepath.Match\<close> on a Unix system, for strings of single-byte characters. \<open>None\<close> is
  \<open>ErrBadPattern\<close>.
\<close>

fun scan_stars :: "string \<Rightarrow> bool \<times> string" where
  "scan_stars (c # cs) = (if c = CHR ''*'' then (True, snd (scan_stars cs)) else (False, c # cs))"
| "scan_stars [] = (False, [])"

fun scan_chunk :: "bool \<Rightarrow> string \<Rightarrow> string \<times> string" where
  "scan_chunk inrange [] = ([], [])"
| "scan_chunk inrange [c] = (if c = CHR ''*'' \<and> \<not> inrange then ([], [c]) else ([c], []))"
| "scan_chunk inrange (c # d # cs) =
     (if c = CHR 0x5C then (let (a, b) = scan_chunk inrange cs in (c # d # a, b))
      else if c = CHR ''*'' \<and> \<not> inrange then ([], c # d # cs)
      else let inr = (if c = CHR ''['' then True else if c = CHR '']'' then False else inrange);
               (a, b) = scan_chunk inr (d # cs)
           in (c # a, b))"

definition get_esc :: "string \<Rightarrow> (char \<times> string) option" where
  "get_esc chunk =
     (case chunk of
        [] \<Rightarrow> None
      | c # cs \<Rightarrow>
          if c = CHR ''-'' \<or> c = CHR '']'' then None
          else if c = CHR 0x5C then (case cs of [] \<Rightarrow> None | d # ds \<Rightarrow> if ds = [] then None else Some (d, ds))
          else if cs = [] then None else Some (c, cs))"

lemma get_esc_length: "get_esc chunk = Some (c, rest) \<Longrightarrow> length rest < length chunk \<and> rest \<noteq> []"
  by (auto simp: get_esc_def split: list.splits if_splits)

text \<open>The zero rune stands for the character that is not read after a failure.\<close>

definition in_char_range :: "char \<Rightarrow> char option \<Rightarrow> char \<Rightarrow> bool" where
  "in_char_range lo r hi =
     (let n = (case r of None \<Rightarrow> (0::nat) | Some ch \<Rightarrow> of_char ch)
      in (of_char lo :: nat) \<le> n \<and> n \<le> of_char hi)"

text \<open>The ranges of a character class; the result says whether the character is in one of them.\<close>

function class_ranges :: "char option \<Rightarrow> bool \<Rightarrow> nat \<Rightarrow> string \<Rightarrow> (bool \<times> string) option" where
  "class_ranges r m nrange chunk =
     (if chunk \<noteq> [] \<and> hd chunk = CHR '']'' \<and> nrange > 0 then Some (m, tl chunk)
      else case get_esc chunk of
        None \<Rightarrow> None
      | Some (lo, rest) \<Rightarrow>
          (case (if hd rest = CHR ''-'' then get_esc (tl rest) else Some (lo, rest)) of
             None \<Rightarrow> None
           | Some (hi, rest2) \<Rightarrow>
               class_ranges r (m \<or> in_char_range lo r hi) (nrange + 1) rest2))"
  by pat_completeness auto
termination
  by (relation "measure (\<lambda>(r, m, n, chunk). length chunk)")
    (auto dest!: get_esc_length split: if_splits)

declare class_ranges.simps [simp del]

lemma class_ranges_length: "class_ranges r m n chunk = Some (b, rest) \<Longrightarrow> length rest < length chunk"
proof (induction "length chunk" arbitrary: m n chunk rule: less_induct)
  case less
  have "length rest < length chunk"
    if "class_ranges r m' n' c = Some (b, rest)" "length c < length chunk" for m' n' c
    using less.hyps [OF that(2,1)] that(2) by linarith
  then show ?case
    using less.prems
    by (subst (asm) class_ranges.simps)
      (auto split: if_splits option.splits prod.splits dest!: get_esc_length)
qed

text \<open>
  Matching one chunk; \<open>failed\<close> means the rest of the chunk is only checked for well-formedness. The
  result is \<open>Some (Some rest)\<close> on a match, \<open>Some None\<close> on a mismatch.
\<close>

function match_chunk :: "bool \<Rightarrow> string \<Rightarrow> string \<Rightarrow> string option option" where
  "match_chunk failed0 chunk s =
     (case chunk of
        [] \<Rightarrow> Some (if failed0 then None else Some s)
      | c # cs \<Rightarrow>
          (let failed = (failed0 \<or> s = [])
           in if c = CHR ''['' then
                (let r = (if failed then None else Some (hd s)); s1 = (if failed then s else tl s);
                     negated = (cs \<noteq> [] \<and> hd cs = CHR ''^''); cs1 = (if negated then tl cs else cs)
                 in case class_ranges r False 0 cs1 of
                      None \<Rightarrow> None
                    | Some (m, rest) \<Rightarrow> match_chunk (failed \<or> m = negated) rest s1)
              else if c = CHR ''?'' then
                match_chunk (failed \<or> hd s = CHR ''/'') cs (if failed then s else tl s)
              else if c = CHR 0x5C then
                (case cs of
                   [] \<Rightarrow> None
                 | d # ds \<Rightarrow> match_chunk (failed \<or> d \<noteq> hd s) ds (if failed then s else tl s))
              else match_chunk (failed \<or> c \<noteq> hd s) cs (if failed then s else tl s)))"
  by pat_completeness auto
termination
  by (relation "measure (\<lambda>(f, chunk, s). length chunk)")
    (auto dest!: class_ranges_length split: if_splits)

declare match_chunk.simps [simp del]

lemma scan_stars_facts:
  "length (snd (scan_stars p)) \<le> length p" "fst (scan_stars p) \<Longrightarrow> length (snd (scan_stars p)) < length p"
  "\<not> fst (scan_stars p) \<Longrightarrow> snd (scan_stars p) = p" "p \<noteq> [] \<Longrightarrow> \<not> fst (scan_stars p) \<Longrightarrow> hd p \<noteq> CHR ''*''"
proof -
  show a: "length (snd (scan_stars p)) \<le> length p"
    by (induction p rule: scan_stars.induct) auto
  show "fst (scan_stars p) \<Longrightarrow> length (snd (scan_stars p)) < length p"
  proof (induction p rule: scan_stars.induct)
    case (1 c cs)
    have "length (snd (scan_stars cs)) \<le> length cs" for cs
      by (induction cs rule: scan_stars.induct) auto
    then show ?case using 1 by (auto simp: less_Suc_eq_le split: if_splits)
  qed simp
  show "\<not> fst (scan_stars p) \<Longrightarrow> snd (scan_stars p) = p"
    by (cases p) (auto split: if_splits)
  show "p \<noteq> [] \<Longrightarrow> \<not> fst (scan_stars p) \<Longrightarrow> hd p \<noteq> CHR ''*''"
    by (cases p) (auto split: if_splits)
qed

lemma scan_chunk_length: "length (snd (scan_chunk inr p)) \<le> length p"
proof (induction "length p" arbitrary: inr p rule: less_induct)
  case less
  show ?case
  proof (cases "(inr, p)" rule: scan_chunk.cases)
    case (3 inrange c d cs)
    then show ?thesis
      using less [of cs inr] less [of "d # cs" inr] less [of "d # cs" True] less [of "d # cs" False]
      by (simp add: Let_def case_prod_beta)
  qed auto
qed

lemma scan_chunk_shorter: "p \<noteq> [] \<Longrightarrow> hd p \<noteq> CHR ''*'' \<Longrightarrow> length (snd (scan_chunk inr p)) < length p"
proof (cases "(inr, p)" rule: scan_chunk.cases)
  case (3 inrange c d cs)
  assume "hd p \<noteq> CHR ''*''"
  then show ?thesis
    using 3 scan_chunk_length [of inr cs] scan_chunk_length [of inr "d # cs"]
      scan_chunk_length [of True "d # cs"] scan_chunk_length [of False "d # cs"]
    by (simp add: Let_def case_prod_beta)
qed auto

fun star_skip :: "string \<Rightarrow> bool \<Rightarrow> string \<Rightarrow> string option option" where
  "star_skip chunk lastChunk [] = Some None"
| "star_skip chunk lastChunk (c # cs) =
     (if c = CHR ''/'' then Some None
      else case match_chunk False chunk cs of
             None \<Rightarrow> None
           | Some None \<Rightarrow> star_skip chunk lastChunk cs
           | Some (Some t) \<Rightarrow> if lastChunk \<and> t \<noteq> [] then star_skip chunk lastChunk cs else Some (Some t))"

function path_Match :: "string \<Rightarrow> string \<Rightarrow> bool option" where
  "path_Match pattern name =
     (if pattern = [] then Some (name = [])
      else let star = fst (scan_stars pattern); ch = scan_chunk False (snd (scan_stars pattern));
               chunk = fst ch; rest = snd ch
           in if star \<and> chunk = [] then Some (CHR ''/'' \<notin> set name)
              else case match_chunk False chunk name of
                     None \<Rightarrow> None
                   | Some m \<Rightarrow>
                       if m \<noteq> None \<and> (the m = [] \<or> rest \<noteq> []) then path_Match rest (the m)
                       else if star then
                         (case star_skip chunk (rest = []) name of
                            None \<Rightarrow> None
                          | Some None \<Rightarrow> Some False
                          | Some (Some t) \<Rightarrow> path_Match rest t)
                       else Some False)"
  by pat_completeness auto

lemma scan_progress: "p \<noteq> [] \<Longrightarrow> length (snd (scan_chunk False (snd (scan_stars p)))) < length p"
proof (cases "fst (scan_stars p)")
  case True
  then show ?thesis
    using scan_stars_facts(2) [of p] scan_chunk_length [of False "snd (scan_stars p)"] by simp
next
  case False
  assume "p \<noteq> []"
  then show ?thesis
    using scan_stars_facts(3,4) [of p] scan_chunk_shorter [of p False] False by simp
qed

termination path_Match
  by (relation "measure (\<lambda>(p, n). length p)") (simp_all add: scan_progress)

declare path_Match.simps [simp del]

section \<open>The bypass filter\<close>

record Filter =
  fexact :: "string \<Rightarrow> bool"
  fsuffixes :: "string list"
  fpatterns :: "string list"

definition add_pattern :: "string \<Rightarrow> Filter \<Rightarrow> Filter" where
  "add_pattern p0 f =
     (let p = ToLower (TrimSpace p0)
      in if p = '''' then f
         else if HasPrefix p ''+.'' then f\<lparr>fsuffixes := fsuffixes f @ [tl p]\<rparr>
         else if ContainsAny p ''*?['' then f\<lparr>fpatterns := fpatterns f @ [p]\<rparr>
         else f\<lparr>fexact := (fexact f)(p := True)\<rparr>)"

definition NewFilter :: "string list \<Rightarrow> Filter" where
  "NewFilter patterns = fold add_pattern patterns \<lparr>fexact = (\<lambda>_. False), fsuffixes = [], fpatterns = []\<rparr>"

definition ShouldSkip :: "Filter \<Rightarrow> string \<Rightarrow> bool" where
  "ShouldSkip f domain0 =
     (let domain = ToLower (TrimSpace domain0)
      in if domain = '''' then False
         else if fexact f domain then True
         else if list_ex (\<lambda>suffix. HasSuffix domain suffix) (fsuffixes f) then True
         else list_ex (\<lambda>pattern. path_Match pattern domain = Some True) (fpatterns f))"

section \<open>The pool\<close>

datatype Prefix = PrefixInvalid | Prefix4 u32 nat | Prefix6

datatype fakeip_error = InvalidCIDR | OnlyIPv4 | CIDRTooSmall | NoUsable

record Pool =
  pprefix :: "u32 \<times> nat"
  pstart :: u32
  psize :: u32
  pnext :: u32
  pfilter :: Filter
  pforward :: "string \<Rightarrow> u32 option"
  preverse :: "u32 \<Rightarrow> string option"

definition NewPool :: "Prefix \<Rightarrow> string list \<Rightarrow> fakeip_error + Pool" where
  "NewPool cidr patterns =
     (case cidr of
        PrefixInvalid \<Rightarrow> Inl InvalidCIDR
      | Prefix6 \<Rightarrow> Inl OnlyIPv4
      | Prefix4 a bits \<Rightarrow>
          (let addr = a AND prefix_mask bits
           in if bits > 30 then Inl CIDRTooSmall
              else let total = push_bit (32 - bits) 1 :: u32; usable = total - 2
                   in if usable = 0 then Inl NoUsable
                      else Inr \<lparr>pprefix = (addr, bits), pstart = addr + 1, psize = usable, pnext = 0,
                                pfilter = NewFilter patterns, pforward = (\<lambda>_. None), preverse = (\<lambda>_. None)\<rparr>))"

definition ShouldFakeIP :: "Pool \<Rightarrow> string \<Rightarrow> bool" where
  "ShouldFakeIP p domain = (\<not> ShouldSkip (pfilter p) domain)"

text \<open>\<open>addrAt\<close> steps through \<open>Addr.Next\<close>.\<close>

definition addrAt :: "Pool \<Rightarrow> u32 \<Rightarrow> u32" where
  "addrAt p idx = ((\<lambda>a. a + 1) ^^ unat idx) (pstart p)"

definition Pool_Lookup :: "string \<Rightarrow> Pool \<Rightarrow> Pool \<times> u32" where
  "Pool_Lookup domain p =
     (case pforward p domain of
        Some ip \<Rightarrow> (p, ip)
      | None \<Rightarrow>
          (let ip = addrAt p (pnext p);
               fwd = (case preverse p ip of
                        Some old \<Rightarrow> if old \<noteq> domain then (pforward p)(old := None) else pforward p
                      | None \<Rightarrow> pforward p)
           in (p\<lparr>pforward := fwd(domain \<mapsto> ip), preverse := (preverse p)(ip \<mapsto> domain),
                 pnext := (pnext p + 1) mod psize p\<rparr>, ip)))"

definition Pool_Reverse :: "Pool \<Rightarrow> u32 \<Rightarrow> string option" where
  "Pool_Reverse p ip = preverse p ip"

definition IsFakeIP :: "Pool \<Rightarrow> u32 \<Rightarrow> bool" where
  "IsFakeIP p ip = (ip AND prefix_mask (snd (pprefix p)) = fst (pprefix p))"

section \<open>Addresses of the pool\<close>

lemma addrAt_eq: "addrAt p idx = pstart p + idx"
proof -
  have "((\<lambda>a. a + 1) ^^ n) s = s + of_nat n" for n and s :: u32
    by (induction n) (simp_all add: ac_simps)
  then show ?thesis by (simp add: addrAt_def)
qed

definition pool_shape :: "Pool \<Rightarrow> bool" where
  "pool_shape p \<longleftrightarrow> (case pprefix p of (a, bits) \<Rightarrow> bits \<le> 30 \<and> a AND prefix_mask bits = a \<and>
     pstart p = a + 1 \<and> psize p = push_bit (32 - bits) 1 - 2)"

lemma unat_usable:
  assumes "bits \<le> 30" shows "unat (push_bit (32 - bits) 1 - 2 :: u32) = 2 ^ (32 - bits) - 2"
proof (cases "bits = 0")
  case True
  have "unat (push_bit (32 - 0) 1 - 2 :: u32) = 2 ^ (32 - 0) - 2" by (simp add: push_bit_eq_mult)
  then show ?thesis using True by simp
next
  case False
  define k where "k = 32 - bits"
  have k: "2 \<le> k" "k < 32" using assms False by (auto simp: k_def)
  have "(2::nat) ^ 2 \<le> 2 ^ k" using k(1) by (intro power_increasing) simp_all
  moreover have u: "unat (push_bit k 1 :: u32) = 2 ^ k"
    using k power_strict_increasing [of k 32 "2::nat"] unat_of_nat [of "2 ^ k", where ?'a = 32]
    by (simp add: push_bit_eq_mult)
  ultimately have "(2::u32) \<le> push_bit k 1" by (simp add: word_le_nat_alt)
  then show ?thesis using u unfolding k_def [symmetric] by (simp add: unat_sub)
qed

lemma slot_in_prefix:
  assumes "bits \<le> 30" and "a AND prefix_mask bits = a" and "i < (push_bit (32 - bits) 1 - 2 :: u32)"
  shows "(a + 1 + i) AND prefix_mask bits = a" and "unat (a + 1 + i) = unat a + 1 + unat i"
    and "unat i + 2 < 2 ^ (32 - bits)"
proof -
  show i: "unat i + 2 < 2 ^ (32 - bits)"
    using assms(3) unat_usable [OF assms(1)] by (simp add: word_less_nat_alt)
  moreover have "(2::nat) ^ (32 - bits) \<le> 2 ^ 32" by (intro power_increasing) simp_all
  ultimately have u: "unat (1 + i) = 1 + unat i" by (simp add: unat_word_ariths)
  have b: "bits \<le> 32" "unat (1 + i) < 2 ^ (32 - bits)" using assms(1) i u by simp_all
  show "(a + 1 + i) AND prefix_mask bits = a" "unat (a + 1 + i) = unat a + 1 + unat i"
    using offset_in_prefix [OF b(1) assms(2) b(2)] u by (simp_all add: add.assoc)
qed

section \<open>The invariant of the pool\<close>

definition pool_inv :: "Pool \<Rightarrow> bool" where
  "pool_inv p \<longleftrightarrow> pool_shape p \<and> pnext p < psize p \<and>
     (\<forall>d ip. pforward p d = Some ip \<longleftrightarrow> preverse p ip = Some d) \<and>
     (\<forall>d ip. pforward p d = Some ip \<longrightarrow> (\<exists>i<psize p. ip = pstart p + i))"

lemma NewPool_inv:
  assumes "NewPool cidr patterns = Inr p" shows "pool_inv p"
proof -
  obtain a bits where c: "cidr = Prefix4 a bits" and b: "bits \<le> 30"
    and p: "pprefix p = (a AND prefix_mask bits, bits)" "pstart p = (a AND prefix_mask bits) + 1"
      "psize p = push_bit (32 - bits) 1 - 2" "pnext p = 0" "pforward p = (\<lambda>_. None)" "preverse p = (\<lambda>_. None)"
    using assms by (auto simp: NewPool_def Let_def split: Prefix.splits if_splits)
  have "(2::nat) ^ 2 \<le> 2 ^ (32 - bits)" using b by (intro power_increasing) simp_all
  then have "0 < unat (psize p)" using unat_usable [OF b] p(3) by simp
  then show ?thesis
    using b p by (simp add: pool_inv_def pool_shape_def and.assoc word_less_nat_alt)
qed

lemma pnext_step:
  assumes "pool_inv p"
  shows "unat ((pnext p + 1) mod psize p) = (if unat (pnext p) + 1 = unat (psize p) then 0 else unat (pnext p) + 1)"
proof -
  have lt: "unat (pnext p) < unat (psize p)" using assms by (simp add: pool_inv_def word_less_nat_alt)
  then have "unat (pnext p + 1) = unat (pnext p) + 1"
    using unat_lt_32 [of "psize p"] by (simp add: unat_word_ariths)
  then show ?thesis using lt by (auto simp: unat_mod)
qed

lemma Pool_Lookup_alloc:
  assumes "pool_inv p" and "pforward p d = None"
  shows "pool_inv (fst (Pool_Lookup d p))"
    and "snd (Pool_Lookup d p) = pstart p + pnext p"
    and "pforward (fst (Pool_Lookup d p)) =
      (\<lambda>e. if e = d then Some (pstart p + pnext p) else if pforward p e = Some (pstart p + pnext p) then None else pforward p e)"
proof -
  let ?ip = "pstart p + pnext p"
  have inv: "\<And>d ip. pforward p d = Some ip \<longleftrightarrow> preverse p ip = Some d"
    and slot: "\<And>d ip. pforward p d = Some ip \<Longrightarrow> \<exists>i<psize p. ip = pstart p + i"
    and nx: "pnext p < psize p" and sh: "pool_shape p"
    using assms(1) by (auto simp: pool_inv_def)
  show f: "pforward (fst (Pool_Lookup d p)) =
      (\<lambda>e. if e = d then Some ?ip else if pforward p e = Some ?ip then None else pforward p e)"
    using assms(2) inv by (auto simp: Pool_Lookup_def addrAt_eq Let_def fun_eq_iff split: option.splits)
  show "snd (Pool_Lookup d p) = ?ip"
    using assms(2) by (simp add: Pool_Lookup_def addrAt_eq Let_def)
  have r: "preverse (fst (Pool_Lookup d p)) = (preverse p)(?ip \<mapsto> d)"
    and fixed: "pstart (fst (Pool_Lookup d p)) = pstart p" "psize (fst (Pool_Lookup d p)) = psize p"
      "pprefix (fst (Pool_Lookup d p)) = pprefix p" "pnext (fst (Pool_Lookup d p)) = (pnext p + 1) mod psize p"
    using assms(2) by (simp_all add: Pool_Lookup_def addrAt_eq Let_def)
  have "(pnext p + 1) mod psize p < psize p"
    using pnext_step [OF assms(1)] nx by (auto simp: word_less_nat_alt)
  moreover have "(\<forall>e ip. pforward (fst (Pool_Lookup d p)) e = Some ip \<longleftrightarrow> preverse (fst (Pool_Lookup d p)) ip = Some e)"
    unfolding f r using assms(2) by (auto simp: inv [symmetric] split: if_splits)
  moreover have "\<forall>e ip. pforward (fst (Pool_Lookup d p)) e = Some ip \<longrightarrow> (\<exists>i<psize p. ip = pstart p + i)"
    unfolding f using slot nx by (auto split: if_splits)
  ultimately show "pool_inv (fst (Pool_Lookup d p))"
    using sh by (simp add: pool_inv_def pool_shape_def fixed)
qed

lemma Pool_Lookup_hit: "pforward p d = Some ip \<Longrightarrow> Pool_Lookup d p = (p, ip)"
  by (simp add: Pool_Lookup_def)

lemma pool_inv_Lookup [inv_intros]: "pool_inv p \<Longrightarrow> pool_inv (fst (Pool_Lookup d p))"
  by (cases "pforward p d") (simp_all add: Pool_Lookup_hit Pool_Lookup_alloc(1))

interpretation pool: machine "\<lambda>p. \<exists>cidr patterns. NewPool cidr patterns = Inr p" "\<lambda>p d. fst (Pool_Lookup d p)" pool_inv
  by unfold_locales (auto intro: NewPool_inv inv_intros)

section \<open>What the pool promises\<close>

definition lookups :: "string list \<Rightarrow> Pool \<Rightarrow> Pool" where
  "lookups ds p = foldl (\<lambda>p d. fst (Pool_Lookup d p)) p ds"

lemma lookups_simps [simp]: "lookups [] p = p" "lookups (d # ds) p = lookups ds (fst (Pool_Lookup d p))"
  by (simp_all add: lookups_def)

lemma Pool_Lookup_fixed [simp]:
  "pprefix (fst (Pool_Lookup d p)) = pprefix p" "pstart (fst (Pool_Lookup d p)) = pstart p"
  "psize (fst (Pool_Lookup d p)) = psize p" "pfilter (fst (Pool_Lookup d p)) = pfilter p"
  by (simp_all add: Pool_Lookup_def Let_def split: option.splits)

lemma Pool_Lookup_assigns:
  assumes "pool_inv p"
  shows "pforward (fst (Pool_Lookup d p)) d = Some (snd (Pool_Lookup d p))"
  by (cases "pforward p d") (simp_all add: Pool_Lookup_hit Pool_Lookup_alloc(2,3) [OF assms])

lemma pool_inv_inverse: "pool_inv p \<Longrightarrow> pforward p d = Some ip \<longleftrightarrow> preverse p ip = Some d"
  by (simp add: pool_inv_def)

lemma pool_inv_usable:
  assumes "pool_inv p" and "pforward p d = Some ip"
  shows "IsFakeIP p ip" and "unat ip > unat (fst (pprefix p))"
    and "unat ip + 1 < unat (fst (pprefix p)) + 2 ^ (32 - snd (pprefix p))"
proof -
  obtain a bits where pre: "pprefix p = (a, bits)" by (cases "pprefix p")
  obtain i where i: "i < psize p" "ip = pstart p + i"
    using assms(1) [unfolded pool_inv_def] assms(2) by blast
  have sh: "bits \<le> 30" "a AND prefix_mask bits = a" "pstart p = a + 1" "psize p = push_bit (32 - bits) 1 - 2"
    using assms(1) pre by (simp_all add: pool_inv_def pool_shape_def)
  note slot = slot_in_prefix [OF sh(1,2) i(1) [unfolded sh(4)]]
  show "IsFakeIP p ip" using slot(1) by (simp add: IsFakeIP_def pre i(2) sh(3))
  show "unat ip > unat (fst (pprefix p))" using slot(2) by (simp add: pre i(2) sh(3))
  show "unat ip + 1 < unat (fst (pprefix p)) + 2 ^ (32 - snd (pprefix p))"
    using slot(2,3) by (simp add: pre i(2) sh(3))
qed

text \<open>C13: after any sequence of lookups the two maps of a pool are inverse to each other: a domain is
  assigned an address exactly if the address is resolved back to the domain. So no two domains share a
  fake address, and every address that either map holds lies inside the pool's prefix, strictly
  between the network address and the broadcast address.\<close>

theorem fakeip_pool_consistent:
  assumes "NewPool cidr patterns = Inr p0" and "p = lookups ds p0"
  shows "(pforward p d = Some ip \<longleftrightarrow> Pool_Reverse p ip = Some d) \<and>
    (pforward p d = Some ip \<and> pforward p d' = Some ip \<longrightarrow> d' = d) \<and>
    (Pool_Reverse p ip = Some d \<longrightarrow> IsFakeIP p ip \<and>
      unat (fst (pprefix p)) < unat ip \<and> unat ip + 1 < unat (fst (pprefix p)) + 2 ^ (32 - snd (pprefix p)))"
proof -
  have inv: "pool_inv p" using assms(1) pool.reachable_inv unfolding assms(2) lookups_def by blast
  then have inverse: "pforward p e = Some ip \<longleftrightarrow> Pool_Reverse p ip = Some e" for e
    by (simp add: pool_inv_inverse Pool_Reverse_def)
  show ?thesis
    using pool_inv_usable [OF inv, of d ip] unfolding inverse by auto
qed

text \<open>\<open>reuse_distance s p\<close> counts the allocations before slot \<open>s\<close> is handed out again.\<close>

definition reuse_distance :: "nat \<Rightarrow> Pool \<Rightarrow> nat" where
  "reuse_distance s p = (if unat (pnext p) \<le> s then s - unat (pnext p) else unat (psize p) - unat (pnext p) + s)"

lemma lookup_keeps:
  assumes "pool_inv p" and "pforward p d = Some (pstart p + i)" and "i < psize p"
    and "m < reuse_distance (unat i) p"
  shows "pforward (fst (Pool_Lookup e p)) d = Some (pstart p + i) \<and> m \<le> reuse_distance (unat i) (fst (Pool_Lookup e p))"
proof (cases "pforward p e")
  case (Some ip)
  then show ?thesis using assms(2,4) by (simp add: Pool_Lookup_hit)
next
  case None
  have lt: "unat (pnext p) < unat (psize p)" "unat i < unat (psize p)"
    using assms(1,3) by (simp_all add: pool_inv_def word_less_nat_alt)
  have "unat i \<noteq> unat (pnext p)" using assms(4) by (auto simp: reuse_distance_def)
  then have ne: "i \<noteq> pnext p" by auto
  have "pnext (fst (Pool_Lookup e p)) = (pnext p + 1) mod psize p"
    using None by (simp add: Pool_Lookup_def Let_def)
  then have "m \<le> reuse_distance (unat i) (fst (Pool_Lookup e p))"
    using assms(4) lt pnext_step [OF assms(1)] by (auto simp: reuse_distance_def split: if_splits)
  moreover have "pforward (fst (Pool_Lookup e p)) d = Some (pstart p + i)"
    using assms(2) ne None Pool_Lookup_alloc(3) [OF assms(1) None] by auto
  ultimately show ?thesis by simp
qed

lemma lookups_keep:
  assumes "pool_inv p" and "pforward p d = Some (pstart p + i)" and "i < psize p"
    and "length ds \<le> reuse_distance (unat i) p"
  shows "pool_inv (lookups ds p) \<and> pforward (lookups ds p) d = Some (pstart p + i)"
  using assms
proof (induction ds arbitrary: p)
  case (Cons e ds)
  have "length ds < reuse_distance (unat i) p" using Cons.prems(4) by simp
  note k = lookup_keeps [OF Cons.prems(1-3) this, of e]
  show ?case
    using Cons.IH [of "fst (Pool_Lookup e p)"] k Cons.prems(3) by (simp add: pool_inv_Lookup [OF Cons.prems(1)])
qed simp

text \<open>C36: an assignment is retained for a whole round of the pool.  A domain that is given a fresh
  address keeps it, in both directions, through any sequence of fewer further lookups than the pool
  has addresses.\<close>

theorem fakeip_assignment_retained:
  assumes "NewPool cidr patterns = Inr p0" and "p = lookups es p0" and "pforward p d = None"
    and "Pool_Lookup d p = (p1, ip)" and "length ds < unat (psize p)" and "p2 = lookups ds p1"
  shows "Pool_Lookup d p2 = (p2, ip) \<and> Pool_Reverse p2 ip = Some d"
proof -
  have inv: "pool_inv p" using assms(1) pool.reachable_inv unfolding assms(2) lookups_def by blast
  have inv1: "pool_inv p1" using pool_inv_Lookup [OF inv, of d] assms(4) by simp
  have p1: "ip = pstart p + pnext p" "pforward p1 d = Some ip" "pstart p1 = pstart p" "psize p1 = psize p"
    "pnext p1 = (pnext p + 1) mod psize p"
    using Pool_Lookup_alloc(2,3) [OF inv assms(3)] Pool_Lookup_fixed [of d p] assms(3,4)
    by (auto simp: Pool_Lookup_def Let_def)
  have lt: "pnext p < psize p" using inv by (simp add: pool_inv_def)
  have "length ds \<le> reuse_distance (unat (pnext p)) p1"
    using assms(5) pnext_step [OF inv] lt by (auto simp: reuse_distance_def p1 word_less_nat_alt)
  then have "pool_inv p2 \<and> pforward p2 d = Some ip"
    using lookups_keep [OF inv1, of d "pnext p" ds] p1 lt assms(6) by simp
  then show ?thesis using pool_inv_inverse [of p2 d ip] by (simp add: Pool_Lookup_hit Pool_Reverse_def)
qed

text \<open>The inputs of the witnesses: the pool of \<open>198.18.0.0/30\<close>, which has two addresses.\<close>

definition pool30 :: Pool where
  "pool30 = \<lparr>pprefix = (0xC6120000, 30), pstart = 0xC6120001, psize = 2, pnext = 0,
     pfilter = NewFilter [], pforward = (\<lambda>_. None), preverse = (\<lambda>_. None)\<rparr>"

lemma NewPool_pool30: "NewPool (Prefix4 0xC6120003 30) [] = Inr pool30"
proof -
  have "(0xC6120003 :: u32) AND prefix_mask 30 = 0xC6120000" by code_simp
  then show ?thesis by (simp add: NewPool_def pool30_def Let_def)
qed

theorem fakeip_pool_consistent_witness:
  "Pool_Reverse (lookups [''a'', ''b'', ''c''] pool30) 0xC6120001 = Some ''c'' \<and>
   IsFakeIP (lookups [''a'', ''b'', ''c''] pool30) 0xC6120001"
proof -
  have f: "pforward (lookups [''a'', ''b'', ''c''] pool30) ''c'' = Some 0xC6120001"
    by (simp add: pool30_def Pool_Lookup_def addrAt_def)
  show ?thesis using fakeip_pool_consistent [OF NewPool_pool30 refl] f by blast
qed

theorem fakeip_assignment_retained_witness:
  "Pool_Reverse (lookups [''b''] (fst (Pool_Lookup ''a'' pool30))) 0xC6120001 = Some ''a''"
proof -
  have a: "Pool_Lookup ''a'' (lookups [] pool30) = (fst (Pool_Lookup ''a'' pool30), 0xC6120001)"
    by (simp add: pool30_def Pool_Lookup_def addrAt_def)
  have n: "pforward (lookups [] pool30) ''a'' = None" "length [''b''] < unat (psize (lookups [] pool30))"
    by (simp_all add: pool30_def)
  show ?thesis using fakeip_assignment_retained [OF NewPool_pool30 refl n(1) a n(2) refl] by blast
qed

text \<open>The type's comment announces least-recently-used eviction.  Slots are reused in the order of
  their allocation, whatever was looked up in between: here \<open>a\<close> was used last and is evicted.\<close>

lemma eviction_ignores_use:
  "pforward (lookups [''a'', ''b'', ''a'', ''c''] pool30) ''a'' = None"
  "pforward (lookups [''a'', ''b'', ''a'', ''c''] pool30) ''b'' = Some 0xC6120002"
  by (simp_all add: pool30_def Pool_Lookup_def addrAt_def)

end
