(* ===== verification/Replay.thy ===== *)
theory Replay
  imports GoBytes GoTime
begin

text \<open>
  The replay filter of \<^verbatim>\<open>crypto/replay.go\<close>: two cuckoo filters with one-byte fingerprints, swapped
  every half window. The bucket slice is a function of the index together with its length
  \<open>numBuckets\<close>; an index out of range is a panic, the value \<open>None\<close>. Random draws and clock readings
  are arguments.
\<close>

unbundle bit_operations_syntax

definition bucketSize :: nat where "bucketSize = 4"
definition maxKicks :: nat where "maxKicks = 500"
definition defaultCap :: int where "defaultCap = 2 ^ 20"

record cuckooFilter =
  buckets :: "u32 \<Rightarrow> bytes"
  cfcount :: int
  numBuckets :: u32

definition nextPow2 :: "u32 \<Rightarrow> u32" where
  "nextPow2 v0 =
     (let v = v0 - 1;
          v = v OR drop_bit 1 v;
          v = v OR drop_bit 2 v;
          v = v OR drop_bit 4 v;
          v = v OR drop_bit 8 v;
          v = v OR drop_bit 16 v
      in v + 1)"

definition newCuckooFilter :: "int \<Rightarrow> cuckooFilter" where
  "newCuckooFilter capacity =
     (let n = (word_of_int (godiv capacity (int bucketSize)) :: u32);
          n = (if n = 0 then 1024 else n)
      in \<lparr>buckets = (\<lambda>_. replicate bucketSize 0), cfcount = 0, numBuckets = nextPow2 n\<rparr>)"

definition fingerprint :: "u64 \<Rightarrow> byte" where
  "fingerprint x =
     (let fp = ucast (drop_bit 32 x) XOR ucast (drop_bit 24 x) XOR ucast (drop_bit 16 x)
               XOR ucast (drop_bit 8 x) XOR ucast x
      in if fp = 0 then 1 else fp)"

definition index1 :: "cuckooFilter \<Rightarrow> u64 \<Rightarrow> u32" where
  "index1 cf x = ucast x AND (numBuckets cf - 1)"

definition index2 :: "cuckooFilter \<Rightarrow> u32 \<Rightarrow> byte \<Rightarrow> u32" where
  "index2 cf i1 fp = (i1 XOR (ucast fp * 0x5bd1e995)) AND (numBuckets cf - 1)"

definition bucketAt :: "cuckooFilter \<Rightarrow> u32 \<Rightarrow> bytes option" where
  "bucketAt cf idx = (if idx < numBuckets cf then Some (buckets cf idx) else None)"

definition bucketContains :: "cuckooFilter \<Rightarrow> u32 \<Rightarrow> byte \<Rightarrow> bool option" where
  "bucketContains cf idx fp = map_option (list_ex (\<lambda>b. b = fp)) (bucketAt cf idx)"

definition cf_Lookup :: "cuckooFilter \<Rightarrow> u64 \<Rightarrow> bool option" where
  "cf_Lookup cf x =
     (let fp = fingerprint x; i1 = index1 cf x; i2 = index2 cf i1 fp
      in case bucketContains cf i1 fp of
           None \<Rightarrow> None
         | Some True \<Rightarrow> Some True
         | Some False \<Rightarrow> bucketContains cf i2 fp)"

primrec put_slot :: "byte \<Rightarrow> bytes \<Rightarrow> bytes option" where
  "put_slot fp [] = None"
| "put_slot fp (b # bs) = (if b = 0 then Some (fp # bs) else map_option ((#) b) (put_slot fp bs))"

definition setBucket :: "u32 \<Rightarrow> bytes \<Rightarrow> cuckooFilter \<Rightarrow> cuckooFilter" where
  "setBucket idx b cf = cf\<lparr>buckets := (buckets cf)(idx := b)\<rparr>"

definition bucketInsert :: "u32 \<Rightarrow> byte \<Rightarrow> cuckooFilter \<Rightarrow> (bool \<times> cuckooFilter) option" where
  "bucketInsert idx fp cf =
     (case bucketAt cf idx of
        None \<Rightarrow> None
      | Some b \<Rightarrow> Some (case put_slot fp b of
                          None \<Rightarrow> (False, cf)
                        | Some b' \<Rightarrow> (True, setBucket idx b' cf)))"

definition counted :: "cuckooFilter \<Rightarrow> cuckooFilter" where
  "counted cf = cf\<lparr>cfcount := cfcount cf + 1\<rparr>"

text \<open>One element of the list is the slot drawn in one round of the eviction loop.\<close>

primrec kicks :: "nat list \<Rightarrow> u32 \<Rightarrow> byte \<Rightarrow> cuckooFilter \<Rightarrow> (bool \<times> cuckooFilter) option" where
  "kicks [] idx fp cf = Some (False, cf)"
| "kicks (slot # slots) idx fp cf =
     (case bucketAt cf idx of
        None \<Rightarrow> None
      | Some b \<Rightarrow>
          if slot \<ge> length b then None
          else let cf1 = setBucket idx (b[slot := fp]) cf; fp1 = b ! slot; idx1 = index2 cf1 idx fp1
               in case bucketInsert idx1 fp1 cf1 of
                    None \<Rightarrow> None
                  | Some (True, cf2) \<Rightarrow> Some (True, counted cf2)
                  | Some (False, cf2) \<Rightarrow> kicks slots idx1 fp1 cf2)"

text \<open>\<open>rand.IntN\<close> reduces the random source's next value into its range.\<close>

definition IntN :: "nat \<Rightarrow> nat \<Rightarrow> nat" where
  "IntN n d = d mod n"

type_synonym draws = "nat \<times> (nat \<Rightarrow> nat)"

definition cf_Insert :: "draws \<Rightarrow> u64 \<Rightarrow> cuckooFilter \<Rightarrow> (bool \<times> cuckooFilter) option" where
  "cf_Insert rnd x cf =
     (let fp = fingerprint x; i1 = index1 cf x; i2 = index2 cf i1 fp
      in case bucketInsert i1 fp cf of
           None \<Rightarrow> None
         | Some (True, cf1) \<Rightarrow> Some (True, counted cf1)
         | Some (False, cf1) \<Rightarrow>
             (case bucketInsert i2 fp cf1 of
                None \<Rightarrow> None
              | Some (True, cf2) \<Rightarrow> Some (True, counted cf2)
              | Some (False, cf2) \<Rightarrow>
                  (let idx = (if IntN 2 (fst rnd) = 0 then i2 else i1)
                   in kicks (map (\<lambda>k. IntN bucketSize (snd rnd k)) [0..<maxKicks]) idx fp cf2)))"

section \<open>The replay filter\<close>

record ReplayFilter =
  rcurrent :: cuckooFilter
  rprevious :: cuckooFilter
  rwindow :: nanos
  lastSwap :: nanos
  rcapacity :: int

definition NewReplayFilter :: "nanos \<Rightarrow> nanos \<Rightarrow> ReplayFilter" where
  "NewReplayFilter now w =
     \<lparr>rcurrent = newCuckooFilter defaultCap, rprevious = newCuckooFilter defaultCap,
      rwindow = (if w = 0 then 120 * second else w), lastSwap = now, rcapacity = defaultCap\<rparr>"

text \<open>The first clock reading decides, the second is stored.\<close>

definition maybeSwap :: "nanos \<Rightarrow> nanos \<Rightarrow> ReplayFilter \<Rightarrow> ReplayFilter" where
  "maybeSwap t1 t2 rf =
     (if time_Sub t1 (lastSwap rf) < godiv (rwindow rf) 2 then rf
      else rf\<lparr>rprevious := rcurrent rf, rcurrent := newCuckooFilter (rcapacity rf), lastSwap := t2\<rparr>)"

record call =
  ct1 :: nanos
  ct2 :: nanos
  crnd :: draws

definition Check :: "call \<Rightarrow> u64 \<Rightarrow> ReplayFilter \<Rightarrow> (bool \<times> ReplayFilter) option" where
  "Check c nonce rf0 =
     (let rf = maybeSwap (ct1 c) (ct2 c) rf0
      in case cf_Lookup (rcurrent rf) nonce of
           None \<Rightarrow> None
         | Some True \<Rightarrow> Some (True, rf)
         | Some False \<Rightarrow>
             (case cf_Lookup (rprevious rf) nonce of
                None \<Rightarrow> None
              | Some True \<Rightarrow> Some (True, rf)
              | Some False \<Rightarrow>
                  (case cf_Insert (crnd c) nonce (rcurrent rf) of
                     None \<Rightarrow> None
                   | Some (_, cf) \<Rightarrow> Some (False, rf\<lparr>rcurrent := cf\<rparr>))))"

definition fnv64a :: "bytes \<Rightarrow> u64" where
  "fnv64a bs = fold (\<lambda>b h. (h XOR ucast b) * 1099511628211) bs 14695981039346656037"

definition CheckBytes :: "call \<Rightarrow> bytes \<Rightarrow> ReplayFilter \<Rightarrow> (bool \<times> ReplayFilter) option" where
  "CheckBytes c nonce rf = (if length nonce = 0 then Some (False, rf) else Check c (fnv64a nonce) rf)"

definition Replay_Size :: "ReplayFilter \<Rightarrow> int" where
  "Replay_Size rf = cfcount (rcurrent rf) + cfcount (rprevious rf)"

section \<open>Rounding up to a power of two\<close>

lemma bit_smear:
  fixes v :: u32
  assumes v: "\<And>n. bit v n \<longleftrightarrow> (\<exists>m<k. bit x (n + m))"
  shows "bit (v OR drop_bit k v) n \<longleftrightarrow> (\<exists>m<2 * k. bit x (n + m))"
proof
  assume "bit (v OR drop_bit k v) n"
  then consider "bit v n" | "bit v (n + k)" by (auto simp: bit_simps add.commute)
  then show "\<exists>m<2 * k. bit x (n + m)"
  proof cases
    case 1
    then obtain m where "m < k" "bit x (n + m)" using v by auto
    then show ?thesis by (intro exI [of _ m]) simp
  next
    case 2
    then obtain m where "m < k" "bit x (n + k + m)" using v by auto
    then show ?thesis by (intro exI [of _ "k + m"]) (simp add: add.assoc)
  qed
next
  assume "\<exists>m<2 * k. bit x (n + m)"
  then obtain m where m: "m < 2 * k" "bit x (n + m)" by auto
  show "bit (v OR drop_bit k v) n"
  proof (cases "m < k")
    case True
    then show ?thesis using v m by (auto simp: bit_simps)
  next
    case False
    then have "bit v (n + k)" using v [of "n + k"] m by (intro iffD2 [OF v] exI [of _ "m - k"]) auto
    then show ?thesis by (simp add: bit_simps add.commute)
  qed
qed

definition smear :: "u32 \<Rightarrow> u32" where
  "smear v =
     (let v = v OR drop_bit 1 v; v = v OR drop_bit 2 v; v = v OR drop_bit 4 v; v = v OR drop_bit 8 v
      in v OR drop_bit 16 v)"

lemma bit_smear_iff: "bit (smear x) n \<longleftrightarrow> (\<exists>m\<ge>n. bit x m)"
proof -
  define v1 where "v1 = x OR drop_bit 1 x"
  define v2 where "v2 = v1 OR drop_bit 2 v1"
  define v4 where "v4 = v2 OR drop_bit 4 v2"
  define v8 where "v8 = v4 OR drop_bit 8 v4"
  have 1: "bit v1 n \<longleftrightarrow> (\<exists>m<2. bit x (n + m))" for n
    unfolding v1_def using bit_smear [of x 1 x n] by simp
  have 2: "bit v2 n \<longleftrightarrow> (\<exists>m<4. bit x (n + m))" for n
    unfolding v2_def using bit_smear [of v1 2 x n] 1 by simp
  have 4: "bit v4 n \<longleftrightarrow> (\<exists>m<8. bit x (n + m))" for n
    unfolding v4_def using bit_smear [of v2 4 x n] 2 by simp
  have 8: "bit v8 n \<longleftrightarrow> (\<exists>m<16. bit x (n + m))" for n
    unfolding v8_def using bit_smear [of v4 8 x n] 4 by simp
  have "bit (smear x) n \<longleftrightarrow> (\<exists>m<32. bit x (n + m))"
    unfolding smear_def Let_def v1_def [symmetric] v2_def [symmetric] v4_def [symmetric] v8_def [symmetric]
    using bit_smear [of v8 16 x n] 8 by simp
  also have "\<dots> \<longleftrightarrow> (\<exists>m\<ge>n. bit x m)"
  proof
    assume "\<exists>m\<ge>n. bit x m"
    then obtain m where "n \<le> m" "bit x m" by auto
    moreover from this have "m < 32" using bit_imp_le_length [of x m] by simp
    ultimately show "\<exists>m<32. bit x (n + m)" by (intro exI [of _ "m - n"]) simp
  qed (auto intro: le_add1)
  finally show ?thesis .
qed

lemma smear_mask: "\<exists>k\<le>32. smear x = mask k \<and> (0 < k \<longrightarrow> bit x (k - 1)) \<and> (\<forall>m\<ge>k. \<not> bit x m)"
proof (cases "x = 0")
  case True
  then show ?thesis
    by (intro exI [of _ 0]) (auto simp: bit_smear_iff intro!: bit_word_eqI)
next
  case False
  define M where "M = Max {m. bit x m}"
  have fin: "finite {m. bit x m}"
    by (rule finite_subset [of _ "{..<32}"]) (auto dest: bit_imp_le_length)
  have ne: "{m. bit x m} \<noteq> {}" using False bit_eqI [of x 0] by auto
  have M: "bit x M" "\<And>m. bit x m \<Longrightarrow> m \<le> M"
    using Max_in [OF fin ne] Max_ge [OF fin] by (auto simp: M_def)
  have "M < 32" using M(1) bit_imp_le_length [of x M] by simp
  moreover have "smear x = mask (Suc M)"
    by (rule bit_word_eqI) (auto simp: bit_smear_iff bit_simps less_Suc_eq_le intro: M dest: M(2) order.trans)
  ultimately show ?thesis using M by (intro exI [of _ "Suc M"]) (auto dest: M(2))
qed

lemma bit_le_unat:
  fixes w :: u32
  assumes "bit w n" shows "2 ^ n \<le> unat w"
proof (rule ccontr)
  assume "\<not> 2 ^ n \<le> unat w"
  then have "unat w div 2 ^ n = 0" by simp
  moreover have "bit (unat w) n" using assms by (simp add: bit_unsigned_iff bit_imp_possible_bit)
  ultimately show False by (simp add: bit_iff_odd)
qed

text \<open>\<open>nextPow2\<close> rounds up to the next power of two on \<open>1 \<dots> 2^31\<close>, the range on which the
  result fits 32 bits.\<close>

theorem nextPow2_rounds_up:
  assumes "1 \<le> v" and "unat v \<le> 2 ^ 31"
  shows "\<exists>k\<le>31. unat (nextPow2 v) = 2 ^ k \<and> unat v \<le> 2 ^ k \<and> 2 ^ k < 2 * unat v"
proof -
  have v: "unat (v - 1) = unat v - 1" using assms(1) by (simp add: unat_sub)
  obtain k where k: "k \<le> 32" "smear (v - 1) = mask k" "0 < k \<Longrightarrow> bit (v - 1) (k - 1)" "\<And>m. k \<le> m \<Longrightarrow> \<not> bit (v - 1) m"
    using smear_mask [of "v - 1"] by blast
  have lo: "2 ^ (k - 1) \<le> unat (v - 1)" if "0 < k"
    by (rule bit_le_unat) (rule k(3) [OF that])
  have take: "take_bit k (v - 1) = v - 1"
    by (rule bit_word_eqI) (use k(4) not_le_imp_less in \<open>auto simp: bit_simps\<close>)
  have hi: "unat (v - 1) < 2 ^ k"
    using arg_cong [OF take, of unat] take_bit_nat_less_exp [of k "unat (v - 1)"]
    by (simp add: unsigned_take_bit_eq)
  have "k \<le> 31"
    using lo assms(2) v k(1) by (cases "k = 32") (auto simp: word_le_nat_alt)
  have "nextPow2 v = mask k + 1" using k(2) by (simp add: nextPow2_def smear_def Let_def)
  then have "nextPow2 v = 2 ^ k" by (simp add: mask_eq_exp_minus_1)
  then have "unat (nextPow2 v) = 2 ^ k"
    using \<open>k \<le> 31\<close> power_strict_increasing [of k 32 "2::nat"] unat_of_nat [of "2 ^ k", where ?'a = 32] by simp
  moreover have "unat v \<le> 2 ^ k" using hi v by linarith
  moreover have "2 ^ k < 2 * unat v"
    using lo v assms(1) by (cases k) (auto simp: word_le_nat_alt)
  ultimately show ?thesis using \<open>k \<le> 31\<close> by auto
qed

theorem nextPow2_rounds_up_witness: "\<exists>k\<le>31. unat (nextPow2 257) = 2 ^ k \<and> unat (257::u32) \<le> 2 ^ k \<and> (2::nat) ^ k < 2 * unat (257::u32)"
  by (rule nextPow2_rounds_up) simp_all

section \<open>Where a fingerprint may lie\<close>

lemma fingerprint_nonzero [simp]: "fingerprint x \<noteq> 0"
  by (simp add: fingerprint_def Let_def)

definition in_range :: "cuckooFilter \<Rightarrow> u32 \<Rightarrow> bool" where
  "in_range cf i \<longleftrightarrow> i AND (numBuckets cf - 1) = i"

lemma in_range_index [simp]: "in_range cf (index1 cf x)" "in_range cf (index2 cf i f)"
  by (simp_all add: in_range_def index1_def index2_def and.assoc)

lemma index2_involution [simp]: "in_range cf i \<Longrightarrow> index2 cf (index2 cf i f) f = i"
  unfolding in_range_def index2_def
  by (auto simp: bit_eq_iff bit_simps)

lemma in_range_less:
  assumes "in_range cf i" and "numBuckets cf \<noteq> 0" shows "i < numBuckets cf"
proof -
  have "unat i \<le> unat (numBuckets cf - 1)"
    using word_and_le1 [of i "numBuckets cf - 1"] assms(1) by (simp add: in_range_def word_le_nat_alt)
  moreover have "unat (numBuckets cf - 1) = unat (numBuckets cf) - 1"
    using assms(2) by (simp add: unat_minus_one)
  moreover have "0 < unat (numBuckets cf)" using assms(2) by (simp add: unat_gt_0)
  ultimately have "unat i < unat (numBuckets cf)" by linarith
  then show ?thesis by (simp add: word_less_nat_alt)
qed

definition nonzero :: "bytes \<Rightarrow> nat" where
  "nonzero b = length (filter (\<lambda>f. f \<noteq> 0) b)"

lemma put_slot_Some:
  assumes "put_slot fp b = Some b'"
  shows "length b' = length b" "fp \<in> set b'" "f \<in> set b \<Longrightarrow> f \<noteq> 0 \<Longrightarrow> f \<in> set b'"
    "fp \<noteq> 0 \<Longrightarrow> nonzero b' = nonzero b + 1"
  using assms by (induction b arbitrary: b') (auto simp: nonzero_def split: if_splits)

lemma put_slot_None: "put_slot fp b = None \<longleftrightarrow> 0 \<notin> set b"
  by (induction b) auto

lemma nonzero_full: "0 \<notin> set b \<Longrightarrow> nonzero b = length b"
  unfolding nonzero_def by (induction b) auto

definition present :: "cuckooFilter \<Rightarrow> u32 \<Rightarrow> byte \<Rightarrow> bool" where
  "present cf i f \<longleftrightarrow> f \<in> set (buckets cf i) \<or> f \<in> set (buckets cf (index2 cf i f))"

definition occupied :: "cuckooFilter \<Rightarrow> nat" where
  "occupied cf = (\<Sum>i\<in>{i. i < numBuckets cf}. nonzero (buckets cf i))"

definition cf_ok :: "cuckooFilter \<Rightarrow> bool" where
  "cf_ok cf \<longleftrightarrow> numBuckets cf \<noteq> 0 \<and> (\<forall>i. length (buckets cf i) = bucketSize)"

lemma setBucket_simps [simp]:
  "numBuckets (setBucket i b cf) = numBuckets cf" "cfcount (setBucket i b cf) = cfcount cf"
  "buckets (setBucket i b cf) = (buckets cf)(i := b)" "index2 (setBucket i b cf) = index2 cf"
  "index1 (setBucket i b cf) = index1 cf" "in_range (setBucket i b cf) = in_range cf"
  by (simp_all add: setBucket_def index2_def index1_def in_range_def fun_eq_iff)

lemma counted_simps [simp]:
  "numBuckets (counted cf) = numBuckets cf" "cfcount (counted cf) = cfcount cf + 1" "buckets (counted cf) = buckets cf"
  "index2 (counted cf) = index2 cf" "present (counted cf) = present cf" "occupied (counted cf) = occupied cf"
  "cf_ok (counted cf) = cf_ok cf"
  by (simp_all add: counted_def index2_def present_def occupied_def cf_ok_def fun_eq_iff)

lemma cf_ok_setBucket: "cf_ok cf \<Longrightarrow> length b = bucketSize \<Longrightarrow> cf_ok (setBucket i b cf)"
  by (simp add: cf_ok_def)

lemma occupied_setBucket:
  assumes "i < numBuckets cf"
  shows "occupied (setBucket i b cf) + nonzero (buckets cf i) = occupied cf + nonzero b"
proof -
  let ?A = "{i. i < numBuckets cf}"
  have "i \<in> ?A" using assms by simp
  moreover have "(\<Sum>x\<in>?A - {i}. nonzero (((buckets cf)(i := b)) x)) = (\<Sum>x\<in>?A - {i}. nonzero (buckets cf x))"
    by (rule sum.cong) auto
  ultimately show ?thesis by (simp add: occupied_def sum.remove [of ?A i])
qed

lemma bucketAt_in_range: "cf_ok cf \<Longrightarrow> in_range cf i \<Longrightarrow> bucketAt cf i = Some (buckets cf i)"
  by (simp add: bucketAt_def in_range_less cf_ok_def)

lemma cf_Lookup_present: "cf_ok cf \<Longrightarrow> cf_Lookup cf x = Some (present cf (index1 cf x) (fingerprint x))"
  by (auto simp: cf_Lookup_def Let_def bucketContains_def bucketAt_in_range present_def list_ex_iff split: bool.splits)

section \<open>Insertion\<close>

text \<open>\<open>kept cf S fp idx\<close>: every entry of \<open>S\<close> is in the filter, but for a copy of \<open>fp\<close> that is
  held outside the buckets and may go to bucket \<open>idx\<close> or its alternative.\<close>

definition kept :: "cuckooFilter \<Rightarrow> (u32 \<times> byte) set \<Rightarrow> byte \<Rightarrow> u32 \<Rightarrow> bool" where
  "kept cf S fp idx \<longleftrightarrow> (\<forall>(i, f)\<in>S. f \<noteq> 0 \<and> in_range cf i \<and>
     (present cf i f \<or> f = fp \<and> (i = idx \<or> index2 cf i f = idx)))"

definition all_present :: "cuckooFilter \<Rightarrow> (u32 \<times> byte) set \<Rightarrow> bool" where
  "all_present cf S \<longleftrightarrow> (\<forall>(i, f)\<in>S. present cf i f)"

lemma bucketInsert_cases:
  assumes ok: "cf_ok cf" and i: "in_range cf idx" and fp: "fp \<noteq> 0"
  obtains (full) "bucketInsert idx fp cf = Some (False, cf)" "0 \<notin> set (buckets cf idx)"
  | (stored) cf' where "bucketInsert idx fp cf = Some (True, cf')" "cf_ok cf'" "numBuckets cf' = numBuckets cf"
      "cfcount cf' = cfcount cf" "occupied cf' = occupied cf + 1" "index2 cf' = index2 cf"
      "\<And>S. kept cf S fp idx \<Longrightarrow> all_present cf' S"
proof (cases "put_slot fp (buckets cf idx)")
  case None
  then have "0 \<notin> set (buckets cf idx)" by (simp add: put_slot_None)
  then show ?thesis using full bucketAt_in_range [OF ok i] None by (simp add: bucketInsert_def)
next
  case (Some b)
  note b = put_slot_Some [OF Some]
  let ?cf = "setBucket idx b cf"
  have "all_present ?cf S" if "kept cf S fp idx" for S
    unfolding all_present_def
  proof clarify
    fix j f assume "(j, f) \<in> S"
    then have "f \<noteq> 0" "in_range cf j" "present cf j f \<or> f = fp \<and> (j = idx \<or> index2 cf j f = idx)"
      using that by (auto simp: kept_def)
    then show "present ?cf j f" using b(2,3) by (auto simp: present_def)
  qed
  moreover have "occupied ?cf = occupied cf + 1"
    using occupied_setBucket [of idx cf b] b(4) [OF fp] in_range_less [OF i] ok by (simp add: cf_ok_def)
  moreover have "cf_ok ?cf" using ok b(1) by (simp add: cf_ok_def)
  ultimately show ?thesis
    using stored [of ?cf] bucketAt_in_range [OF ok i] Some by (simp add: bucketInsert_def)
qed

lemma swap_kept:
  assumes ok: "cf_ok cf" and i: "in_range cf idx" and s: "slot < bucketSize" and k: "kept cf S fp idx"
  shows "kept (setBucket idx ((buckets cf idx)[slot := fp]) cf) S (buckets cf idx ! slot)
    (index2 cf idx (buckets cf idx ! slot))"
proof -
  let ?b = "buckets cf idx" and ?cf = "setBucket idx ((buckets cf idx)[slot := fp]) cf"
  have len: "slot < length ?b" using ok s by (simp add: cf_ok_def)
  have other: "f \<in> set (?b[slot := fp]) \<or> f = ?b ! slot" if "f \<in> set ?b" for f
    using that len by (auto simp: set_conv_nth nth_list_update)
  have own: "fp \<in> set (?b[slot := fp])" using len by (simp add: set_update_memI)
  have "present ?cf j f \<or> f = ?b ! slot \<and> (j = index2 cf idx f \<or> index2 cf j f = index2 cf idx f)"
    if "f \<noteq> 0" "in_range cf j" "present cf j f \<or> f = fp \<and> (j = idx \<or> index2 cf j f = idx)" for j f
    using that other [of f] own by (auto simp: present_def i split: if_splits)
  then show ?thesis using k by (fastforce simp: kept_def)
qed

lemma kicks_result:
  assumes "cf_ok cf" "in_range cf idx" "fp \<noteq> 0" "0 \<notin> set (buckets cf idx)" "\<forall>s\<in>set slots. s < bucketSize"
    and "kept cf S fp idx"
  shows "\<exists>b cf'. kicks slots idx fp cf = Some (b, cf') \<and> cf_ok cf' \<and> numBuckets cf' = numBuckets cf \<and>
    cfcount cf' = cfcount cf + (if b then 1 else 0) \<and> occupied cf' = occupied cf + (if b then 1 else 0) \<and>
    (if b then all_present cf' S else \<exists>g j. kept cf' S g j)"
  using assms
proof (induction slots arbitrary: idx fp cf)
  case Nil
  then show ?case by auto
next
  case (Cons slot slots)
  let ?b = "buckets cf idx"
  let ?cf = "setBucket idx (?b[slot := fp]) cf" and ?g = "?b ! slot"
  have s: "slot < length ?b" using Cons.prems(1,5) by (simp add: cf_ok_def)
  have g: "?g \<noteq> 0" using s Cons.prems(4) nth_mem by metis
  have ok: "cf_ok ?cf" using Cons.prems(1) by (simp add: cf_ok_def)
  have full: "0 \<notin> set (?b[slot := fp])" using Cons.prems(3,4) set_update_subset_insert by fastforce
  have occ: "occupied ?cf = occupied cf"
    using occupied_setBucket [of idx cf "?b[slot := fp]"] Cons.prems(1,2,4) full
    by (simp add: nonzero_full in_range_less cf_ok_def)
  have k: "kept ?cf S ?g (index2 cf idx ?g)"
    using swap_kept [of cf idx slot S fp] Cons.prems by simp
  have at: "bucketAt cf idx = Some ?b" using Cons.prems(1,2) by (rule bucketAt_in_range)
  have r: "in_range ?cf (index2 cf idx ?g)" by simp
  show ?case
  proof (cases rule: bucketInsert_cases [OF ok r g])
    case 1
    have "\<forall>s\<in>set slots. s < bucketSize" using Cons.prems(5) by simp
    from Cons.IH [OF ok r g 1(2) this k] show ?thesis using 1(1) at s occ by (simp add: Let_def)
  next
    case (2 cf')
    then show ?thesis using at s occ k by (auto simp: Let_def all_present_def)
  qed
qed

definition entries :: "cuckooFilter \<Rightarrow> (u32 \<times> byte) set" where
  "entries cf = {(i, f). f \<noteq> 0 \<and> in_range cf i \<and> present cf i f}"

lemma Insert_result:
  fixes x :: u64
  assumes ok: "cf_ok cf"
  defines "S \<equiv> insert (index1 cf x, fingerprint x) (entries cf)"
  shows "\<exists>b cf'. cf_Insert rnd x cf = Some (b, cf') \<and> cf_ok cf' \<and> numBuckets cf' = numBuckets cf \<and>
    cfcount cf' = cfcount cf + (if b then 1 else 0) \<and> occupied cf' = occupied cf + (if b then 1 else 0) \<and>
    (if b then all_present cf' S else \<exists>g j. kept cf' S g j)"
proof -
  let ?fp = "fingerprint x" and ?i1 = "index1 cf x"
  let ?i2 = "index2 cf ?i1 ?fp"
  have k: "kept cf S ?fp ?i1" "kept cf S ?fp ?i2" by (auto simp: kept_def S_def entries_def)
  show ?thesis
  proof (cases rule: bucketInsert_cases [OF ok in_range_index(1) fingerprint_nonzero, of x x])
    case (2 cf')
    then show ?thesis using k(1) by (auto simp: cf_Insert_def Let_def all_present_def)
  next
    case first: 1
    show ?thesis
    proof (cases rule: bucketInsert_cases [OF ok in_range_index(2) fingerprint_nonzero, of ?i1 ?fp x])
      case (2 cf')
      then show ?thesis using k(2) first by (auto simp: cf_Insert_def Let_def all_present_def)
    next
      case 1
      let ?idx = "if IntN 2 (fst rnd) = 0 then ?i2 else ?i1"
      let ?slots = "map (\<lambda>k. IntN bucketSize (snd rnd k)) [0..<maxKicks]"
      have "cf_Insert rnd x cf = kicks ?slots ?idx ?fp cf"
        using first 1 by (simp add: cf_Insert_def Let_def)
      moreover have "\<forall>s\<in>set ?slots. s < bucketSize" by (auto simp: IntN_def bucketSize_def)
      moreover have "in_range cf ?idx" "0 \<notin> set (buckets cf ?idx)" "kept cf S ?fp ?idx"
        using first(2) 1(2) k by simp_all
      ultimately show ?thesis using kicks_result [OF ok _ fingerprint_nonzero] by metis
    qed
  qed
qed

text \<open>C22: insertion into a cuckoo filter never indexes out of range. When it succeeds nothing is
  forgotten: the new value and every value found before are found after it, and the count grows by
  the one slot that is now occupied. When it fails, the new value and the values found before are still
  found, but for those with the one fingerprint that was evicted last.\<close>

theorem cuckoo_insert_correct:
  assumes "cf_ok cf"
  shows "\<exists>b cf'. cf_Insert rnd x cf = Some (b, cf') \<and> cf_ok cf' \<and>
    occupied cf' = occupied cf + (if b then 1 else 0) \<and> cfcount cf' = cfcount cf + (if b then 1 else 0) \<and>
    (\<exists>g. \<forall>y. y = x \<or> cf_Lookup cf y = Some True \<longrightarrow> cf_Lookup cf' y = Some True \<or> \<not> b \<and> fingerprint y = g)"
proof -
  let ?S = "insert (index1 cf x, fingerprint x) (entries cf)"
  obtain b cf' where r: "cf_Insert rnd x cf = Some (b, cf')" "cf_ok cf'" "numBuckets cf' = numBuckets cf"
    "cfcount cf' = cfcount cf + (if b then 1 else 0)" "occupied cf' = occupied cf + (if b then 1 else 0)"
    "if b then all_present cf' ?S else \<exists>g j. kept cf' ?S g j"
    using Insert_result [OF assms] by metis
  have i1: "index1 cf' = index1 cf" using r(3) by (simp add: index1_def fun_eq_iff)
  have mem: "(index1 cf y, fingerprint y) \<in> ?S" if "y = x \<or> cf_Lookup cf y = Some True" for y
    using that cf_Lookup_present [OF assms, of y] by (auto simp: entries_def)
  have "\<exists>g. \<forall>(i, f)\<in>?S. present cf' i f \<or> \<not> b \<and> f = g"
  proof (cases b)
    case True
    then show ?thesis using r(6) by (auto simp: all_present_def)
  next
    case False
    then obtain g j where "kept cf' ?S g j" using r(6) by auto
    then have "\<forall>(i, f)\<in>?S. present cf' i f \<or> f = g" unfolding kept_def by blast
    then show ?thesis using False by auto
  qed
  then obtain g where g: "\<forall>(i, f)\<in>?S. present cf' i f \<or> \<not> b \<and> f = g" by blast
  have "cf_Lookup cf' y = Some True \<or> \<not> b \<and> fingerprint y = g" if "y = x \<or> cf_Lookup cf y = Some True" for y
    using bspec [OF g mem [OF that]] cf_Lookup_present [OF r(2), of y] i1 by auto
  then show ?thesis using r(1,2,4,5) by blast
qed

definition small :: cuckooFilter where
  "small = \<lparr>buckets = (\<lambda>_. replicate 4 0), cfcount = 0, numBuckets = 1\<rparr>"

theorem cuckoo_insert_correct_witness:
  "\<exists>b cf'. cf_Insert (0, \<lambda>_. 0) 7 small = Some (b, cf') \<and> occupied cf' = occupied small + (if b then 1 else 0)"
proof -
  have "cf_ok small" by (simp add: cf_ok_def small_def bucketSize_def)
  from cuckoo_insert_correct [OF this] show ?thesis by blast
qed

section \<open>The two filters over time\<close>

definition cf_inv :: "cuckooFilter \<Rightarrow> bool" where
  "cf_inv cf \<longleftrightarrow> cf_ok cf \<and> cfcount cf = int (occupied cf) \<and> numBuckets cf = 262144"

definition replay_inv :: "ReplayFilter \<Rightarrow> bool" where
  "replay_inv rf \<longleftrightarrow> cf_inv (rcurrent rf) \<and> cf_inv (rprevious rf) \<and> rcapacity rf = defaultCap"

lemma newCuckooFilter_numBuckets: "numBuckets (newCuckooFilter defaultCap) = 262144"
  by code_simp

lemma newCuckooFilter_inv: "cf_inv (newCuckooFilter defaultCap)"
proof -
  have b: "buckets (newCuckooFilter defaultCap) = (\<lambda>_. replicate bucketSize 0)" "cfcount (newCuckooFilter defaultCap) = 0"
    by (simp_all add: newCuckooFilter_def Let_def)
  then have "occupied (newCuckooFilter defaultCap) = 0" by (simp add: occupied_def nonzero_def)
  then show ?thesis using b by (simp add: cf_inv_def cf_ok_def newCuckooFilter_numBuckets)
qed

lemma cf_inv_Insert:
  assumes "cf_inv cf" obtains b cf' where "cf_Insert rnd x cf = Some (b, cf')" "cf_inv cf'"
proof -
  have "cf_ok cf" using assms by (simp add: cf_inv_def)
  from Insert_result [OF this, of rnd x] obtain b cf' where
    "cf_Insert rnd x cf = Some (b, cf')" "cf_ok cf'" "numBuckets cf' = numBuckets cf"
    "cfcount cf' = cfcount cf + (if b then 1 else 0)" "occupied cf' = occupied cf + (if b then 1 else 0)"
    by blast
  then show thesis using that [of b cf'] assms by (simp add: cf_inv_def)
qed

lemma replay_inv_swap: "replay_inv rf \<Longrightarrow> replay_inv (maybeSwap t1 t2 rf)"
  by (simp add: replay_inv_def maybeSwap_def newCuckooFilter_inv)

text \<open>What a call does, in terms of the state after the swap.\<close>

definition known :: "ReplayFilter \<Rightarrow> u64 \<Rightarrow> bool" where
  "known rf x \<longleftrightarrow> cf_Lookup (rcurrent rf) x = Some True \<or> cf_Lookup (rprevious rf) x = Some True"

lemma Lookup_total: "cf_inv cf \<Longrightarrow> cf_Lookup cf x = Some True \<or> cf_Lookup cf x = Some False"
  by (simp add: cf_inv_def cf_Lookup_present)

lemma Check_known:
  assumes "replay_inv rf" and "known (maybeSwap (ct1 c) (ct2 c) rf) x"
  shows "Check c x rf = Some (True, maybeSwap (ct1 c) (ct2 c) rf)"
  using assms(2) replay_inv_swap [OF assms(1), of "ct1 c" "ct2 c"]
    Lookup_total [of "rcurrent (maybeSwap (ct1 c) (ct2 c) rf)" x]
  by (auto simp: known_def replay_inv_def Check_def Let_def)

lemma Check_fresh:
  assumes "replay_inv rf" and "\<not> known (maybeSwap (ct1 c) (ct2 c) rf) x"
    and "cf_Insert (crnd c) x (rcurrent (maybeSwap (ct1 c) (ct2 c) rf)) = Some (b, cf)"
  shows "Check c x rf = Some (False, (maybeSwap (ct1 c) (ct2 c) rf)\<lparr>rcurrent := cf\<rparr>)"
  using assms(2,3) replay_inv_swap [OF assms(1), of "ct1 c" "ct2 c"]
    Lookup_total [of "rcurrent (maybeSwap (ct1 c) (ct2 c) rf)" x]
    Lookup_total [of "rprevious (maybeSwap (ct1 c) (ct2 c) rf)" x]
  by (auto simp: known_def replay_inv_def Check_def Let_def)

definition check_step :: "ReplayFilter option \<Rightarrow> call \<times> u64 \<Rightarrow> ReplayFilter option" where
  "check_step s e = (case s of None \<Rightarrow> None | Some rf \<Rightarrow> map_option snd (Check (fst e) (snd e) rf))"

lemma check_step_inv:
  assumes "replay_inv rf" shows "\<exists>b rf'. Check c x rf = Some (b, rf') \<and> replay_inv rf'"
proof (cases "known (maybeSwap (ct1 c) (ct2 c) rf) x")
  case True
  then show ?thesis using Check_known [OF assms] replay_inv_swap [OF assms] by blast
next
  case False
  have i: "replay_inv (maybeSwap (ct1 c) (ct2 c) rf)" by (rule replay_inv_swap [OF assms])
  then obtain b cf where b: "cf_Insert (crnd c) x (rcurrent (maybeSwap (ct1 c) (ct2 c) rf)) = Some (b, cf)" "cf_inv cf"
    using cf_inv_Insert unfolding replay_inv_def by metis
  then show ?thesis using Check_fresh [OF assms False b(1)] i by (auto simp: replay_inv_def)
qed

interpretation replay: machine "\<lambda>s. \<exists>now w. s = Some (NewReplayFilter now w)" check_step
  "\<lambda>s. \<exists>rf. s = Some rf \<and> replay_inv rf"
proof
  show "\<exists>rf. s = Some rf \<and> replay_inv rf" if "\<exists>now w. s = Some (NewReplayFilter now w)" for s
    using that by (auto simp: replay_inv_def NewReplayFilter_def newCuckooFilter_inv)
  show "\<exists>rf. check_step s e = Some rf \<and> replay_inv rf" if "\<exists>rf. s = Some rf \<and> replay_inv rf" for s e
    using that check_step_inv by (fastforce simp: check_step_def)
qed

lemma occupied_bound:
  assumes "cf_ok cf" shows "occupied cf \<le> bucketSize * unat (numBuckets cf)"
proof -
  have "occupied cf \<le> (\<Sum>i\<in>{i. i < numBuckets cf}. bucketSize)"
    unfolding occupied_def nonzero_def
  proof (rule sum_mono)
    show "length (filter (\<lambda>f. f \<noteq> 0) (buckets cf i)) \<le> bucketSize" for i
      using assms by (intro order.trans [OF length_filter_le]) (simp add: cf_ok_def)
  qed
  moreover have "card {i. i < numBuckets cf} \<le> unat (numBuckets cf)"
  proof -
    have "inj_on unat {i. i < numBuckets cf}" by (rule inj_onI) (rule unsigned_word_eqI)
    moreover have "unat ` {i. i < numBuckets cf} \<subseteq> {..<unat (numBuckets cf)}"
      by (auto simp: word_less_nat_alt)
    ultimately show ?thesis using card_inj_on_le [of unat _ "{..<unat (numBuckets cf)}"] by fastforce
  qed
  ultimately show ?thesis by (simp add: mult.commute) (meson mult_le_mono2 order.trans)
qed

text \<open>C35: no sequence of calls, at whatever times and whatever the random draws, makes the filter index
  out of range, and it never holds more than \<open>2^21\<close> one-byte fingerprints.\<close>

theorem replay_filter_bounded:
  "\<exists>rf. foldl check_step (Some (NewReplayFilter now w)) es = Some rf \<and> 0 \<le> Replay_Size rf \<and> Replay_Size rf \<le> 2 ^ 21"
proof -
  obtain rf where rf: "foldl check_step (Some (NewReplayFilter now w)) es = Some rf" "replay_inv rf"
    using replay.reachable_inv by blast
  have c: "0 \<le> cfcount cf \<and> cfcount cf \<le> 2 ^ 20" if "cf_inv cf" for cf
    using that occupied_bound [of cf] by (simp add: cf_inv_def bucketSize_def)
  have "cf_inv (rcurrent rf)" "cf_inv (rprevious rf)" using rf(2) by (simp_all add: replay_inv_def)
  from c [OF this(1)] c [OF this(2)] show ?thesis using rf(1) by (simp add: Replay_Size_def)
qed

text \<open>\<open>lost\<close>: the call accepts its nonce and the insertion fails, which \<open>Check\<close> does not report.\<close>

definition lost :: "call \<Rightarrow> u64 \<Rightarrow> ReplayFilter \<Rightarrow> bool" where
  "lost c x rf0 =
     (let rf = maybeSwap (ct1 c) (ct2 c) rf0
      in \<not> known rf x \<and> map_option fst (cf_Insert (crnd c) x (rcurrent rf)) \<noteq> Some True)"

primrec no_loss :: "(call \<times> u64) list \<Rightarrow> ReplayFilter \<Rightarrow> bool" where
  "no_loss [] rf = True"
| "no_loss (e # es) rf =
     (\<not> lost (fst e) (snd e) rf \<and>
      (case Check (fst e) (snd e) rf of None \<Rightarrow> False | Some (b, rf') \<Rightarrow> no_loss es rf'))"

definition remembers :: "u64 \<Rightarrow> nanos \<Rightarrow> ReplayFilter \<Rightarrow> bool" where
  "remembers x t rf \<longleftrightarrow> replay_inv rf \<and> (cf_Lookup (rcurrent rf) x = Some True \<or>
     cf_Lookup (rprevious rf) x = Some True \<and> t \<le> lastSwap rf)"

lemma remembers_swap:
  assumes "remembers x t rf" and "t \<le> t2" and "t1 < t + rwindow rf div 2" and "0 < rwindow rf" "rwindow rf < 2 ^ 63"
  shows "remembers x t (maybeSwap t1 t2 rf)"
proof -
  have "time_Sub t1 (lastSwap rf) < godiv (rwindow rf) 2 \<longleftrightarrow> t1 - lastSwap rf < rwindow rf div 2"
    using time_Sub_less_iff [of "rwindow rf div 2" t1 "lastSwap rf"] assms(4,5) by simp
  moreover have "replay_inv (maybeSwap t1 t2 rf)" using assms(1) replay_inv_swap by (simp add: remembers_def)
  ultimately show ?thesis using assms(1-3) by (auto simp: remembers_def maybeSwap_def)
qed

lemma rwindow_swap [simp]: "rwindow (maybeSwap t1 t2 rf) = rwindow rf"
  by (simp add: maybeSwap_def)

lemma Insert_keeps:
  assumes "cf_inv cf" and "cf_Insert rnd x cf = Some (True, cf')"
  shows "cf_inv cf'" "cf_Lookup cf' x = Some True" "cf_Lookup cf y = Some True \<Longrightarrow> cf_Lookup cf' y = Some True"
proof -
  have ok: "cf_ok cf" using assms(1) by (simp add: cf_inv_def)
  let ?S = "insert (index1 cf x, fingerprint x) (entries cf)"
  from Insert_result [OF ok, of rnd x] assms(2) have r: "cf_ok cf'" "numBuckets cf' = numBuckets cf"
    "cfcount cf' = cfcount cf + 1" "occupied cf' = occupied cf + 1" "all_present cf' ?S"
    by auto
  then show "cf_inv cf'" using assms(1) by (simp add: cf_inv_def)
  have i1: "index1 cf' = index1 cf" using r(2) by (simp add: index1_def fun_eq_iff)
  show "cf_Lookup cf' x = Some True"
    using r(5) i1 by (simp add: cf_Lookup_present [OF r(1)] all_present_def)
  show "cf_Lookup cf' y = Some True" if "cf_Lookup cf y = Some True"
    using that r(5) i1 by (auto simp: cf_Lookup_present [OF r(1)] cf_Lookup_present [OF ok] all_present_def entries_def)
qed

lemma Check_remembers:
  assumes rem: "remembers x t rf" and "t \<le> ct2 c" and "ct1 c < t + rwindow rf div 2"
    and w: "0 < rwindow rf" "rwindow rf < 2 ^ 63" and nl: "\<not> lost c y rf"
  shows "\<exists>b rf'. Check c y rf = Some (b, rf') \<and> remembers x t rf' \<and> rwindow rf' = rwindow rf \<and> (y = x \<longrightarrow> b)"
proof -
  let ?rf = "maybeSwap (ct1 c) (ct2 c) rf"
  have r: "remembers x t ?rf" by (rule remembers_swap [OF assms(1-5)])
  have inv: "replay_inv rf" using rem by (simp add: remembers_def)
  show ?thesis
  proof (cases "known ?rf y")
    case True
    then show ?thesis using Check_known [OF inv True] r by auto
  next
    case False
    then have "y \<noteq> x" using r by (auto simp: remembers_def known_def)
    obtain cf where cf: "cf_Insert (crnd c) y (rcurrent ?rf) = Some (True, cf)"
      using nl False by (auto simp: lost_def Let_def)
    have "cf_inv (rcurrent ?rf)" using r by (simp add: remembers_def replay_inv_def)
    note k = Insert_keeps [OF this cf]
    have "remembers x t (?rf\<lparr>rcurrent := cf\<rparr>)"
      using r k(1) k(3) [of x] by (auto simp: remembers_def replay_inv_def)
    then show ?thesis using Check_fresh [OF inv False cf] \<open>y \<noteq> x\<close> by auto
  qed
qed

definition within_half :: "call \<Rightarrow> nanos \<Rightarrow> call \<Rightarrow> bool" where
  "within_half c w d \<longleftrightarrow> ct2 c \<le> ct2 d \<and> ct1 d < ct2 c + w div 2"

lemma run_remembers:
  assumes "remembers x (ct2 c) rf" and "0 < rwindow rf" "rwindow rf < 2 ^ 63"
    and "\<forall>(d, n)\<in>set es. within_half c (rwindow rf) d" and "no_loss es rf"
    and "foldl check_step (Some rf) es = Some rf'"
  shows "remembers x (ct2 c) rf' \<and> rwindow rf' = rwindow rf"
  using assms
proof (induction es arbitrary: rf)
  case (Cons e es)
  obtain d y where e: "e = (d, y)" by (cases e)
  have w: "ct2 c \<le> ct2 d" "ct1 d < ct2 c + rwindow rf div 2" and nl: "\<not> lost d y rf"
    using Cons.prems(4,5) by (simp_all add: e within_half_def)
  obtain b rf1 where r: "Check d y rf = Some (b, rf1)" "remembers x (ct2 c) rf1" "rwindow rf1 = rwindow rf"
    using Check_remembers [OF Cons.prems(1) w Cons.prems(2,3) nl] by auto
  show ?case
    using Cons.IH [OF r(2)] Cons.prems(2-6) r by (simp add: e check_step_def)
qed simp

lemma Check_accepts:
  assumes "replay_inv rf" and "Check c x rf = Some (False, rf1)" and "\<not> lost c x rf"
  shows "remembers x t rf1 \<and> rwindow rf1 = rwindow rf"
proof -
  let ?rf = "maybeSwap (ct1 c) (ct2 c) rf"
  have nk: "\<not> known ?rf x" using Check_known [OF assms(1)] assms(2) by auto
  then obtain cf where cf: "cf_Insert (crnd c) x (rcurrent ?rf) = Some (True, cf)"
    using assms(3) by (auto simp: lost_def Let_def)
  have i: "replay_inv ?rf" by (rule replay_inv_swap [OF assms(1)])
  then have "cf_inv (rcurrent ?rf)" by (simp add: replay_inv_def)
  note k = Insert_keeps [OF this cf]
  show ?thesis
    using Check_fresh [OF assms(1) nk cf] assms(2) i k(1,2) by (auto simp: remembers_def replay_inv_def)
qed

lemma check_step_Some:
  assumes "check_step s e = Some rf" obtains rf1 where "s = Some rf1" "rwindow rf = rwindow rf1"
  using assms by (cases s) (auto simp: check_step_def Check_def Let_def split: option.splits bool.splits)

lemma run_rwindow: "foldl check_step (Some rf0) es = Some rf \<Longrightarrow> rwindow rf = rwindow rf0"
proof (induction es arbitrary: rf rule: rev_induct)
  case (snoc e es)
  then show ?case by (auto elim: check_step_Some)
qed simp

text \<open>C6: a replayed nonce is detected for half a window. Once \<open>Check\<close> has accepted a nonce and stored
  it, every call with the same nonce whose clock reading is less than half a window later reports a
  replay, whatever other nonces came in between, provided that no insertion failed in the meantime.\<close>

theorem replay_detected:
  assumes "0 < w" "w < 2 ^ 63" and "foldl check_step (Some (NewReplayFilter now w)) es0 = Some rf"
    and "Check c x rf = Some (False, rf1)" and "\<not> lost c x rf"
    and "foldl check_step (Some rf1) es = Some rf2" and "no_loss es rf1"
    and "\<forall>(d, n)\<in>set es. within_half c w d" and "within_half c w d"
  shows "\<exists>rf3. Check d x rf2 = Some (True, rf3)"
proof -
  have inv: "replay_inv rf" using replay.reachable_inv [of "Some (NewReplayFilter now w)" es0] assms(3) by auto
  have rw: "rwindow rf = w" using run_rwindow [OF assms(3)] assms(1) by (simp add: NewReplayFilter_def)
  have r1: "remembers x (ct2 c) rf1" "rwindow rf1 = w" using Check_accepts [OF inv assms(4,5)] rw by simp_all
  have r2: "remembers x (ct2 c) rf2" "rwindow rf2 = w"
    using run_remembers [OF r1(1)] assms(1,2,6-8) r1(2) by simp_all
  have d: "ct2 c \<le> ct2 d" "ct1 d < ct2 c + rwindow rf2 div 2" using assms(9) r2(2) by (simp_all add: within_half_def)
  let ?rf = "maybeSwap (ct1 d) (ct2 d) rf2"
  have "remembers x (ct2 c) ?rf" using remembers_swap [OF r2(1) d] assms(1,2) r2(2) by simp
  then have "known ?rf x" by (auto simp: remembers_def known_def)
  then show ?thesis using Check_known [of rf2 d x] r2(1) by (auto simp: remembers_def)
qed

text \<open>The inputs of the witness: a filter of two minutes and calls at a given second.\<close>

definition at_second :: "int \<Rightarrow> call" where
  "at_second t = \<lparr>ct1 = t * second, ct2 = t * second, crnd = (0, \<lambda>_. 0)\<rparr>"

definition rf2min :: ReplayFilter where
  "rf2min = NewReplayFilter 0 (120 * second)"

definition after_check :: "int \<Rightarrow> u64 \<Rightarrow> ReplayFilter \<Rightarrow> ReplayFilter" where
  "after_check t x rf = (case Check (at_second t) x rf of Some (b, rf') \<Rightarrow> rf' | None \<Rightarrow> rf)"

lemma first_check: "map_option fst (Check (at_second 1) 7 rf2min) = Some False" "\<not> lost (at_second 1) 7 rf2min"
  by code_simp+

lemma second_check:
  "map_option fst (Check (at_second 2) 9 (after_check 1 7 rf2min)) = Some False"
  "\<not> lost (at_second 2) 9 (after_check 1 7 rf2min)"
  by code_simp+

lemma Check_after_check: "map_option fst (Check (at_second t) x rf) = Some b \<Longrightarrow> Check (at_second t) x rf = Some (b, after_check t x rf)"
  by (auto simp: after_check_def)

theorem replay_detected_witness:
  "\<exists>rf3. Check (at_second 3) 7 (after_check 2 9 (after_check 1 7 rf2min)) = Some (True, rf3)"
proof (rule replay_detected)
  show "foldl check_step (Some (NewReplayFilter 0 (120 * second))) [] = Some rf2min" by (simp add: rf2min_def)
  show "Check (at_second 1) 7 rf2min = Some (False, after_check 1 7 rf2min)" "\<not> lost (at_second 1) 7 rf2min"
    by (rule Check_after_check [OF first_check(1)], rule first_check(2))
  show "foldl check_step (Some (after_check 1 7 rf2min)) [(at_second 2, 9)] = Some (after_check 2 9 (after_check 1 7 rf2min))"
    "no_loss [(at_second 2, 9)] (after_check 1 7 rf2min)"
    by (simp_all add: check_step_def Check_after_check [OF second_check(1)] second_check(2))
qed (simp_all add: within_half_def at_second_def)

text \<open>The bound is sharp: a nonce accepted in second 59 of a two-minute window is accepted again in
  second 120, when two swaps have removed it.\<close>

lemma replay_accepted_in_window:
  "map_option fst (Check (at_second 59) 7 rf2min) = Some False"
  "map_option fst (Check (at_second 120) 7 (after_check 60 9 (after_check 59 7 rf2min))) = Some False"
  by code_simp+

end
