(* ===== verification/DomainTrie.thy ===== *)
theory DomainTrie
  imports GoStrings
begin

text \<open>
  The domain trie of \<open>src/router/trie.go\<close>: a tree of nodes keyed by the labels of a domain from
  the top-level label down, with an action at the nodes that end an inserted domain. A Go
  \<open>map[string]*trieNode\<close> is a partial function; the trie owns its nodes, so the tree is a datatype.

  The abstract view is the map \<open>trie_entries\<close> from reversed label paths to actions. The locale
  \<open>suffix_index\<close> states what a client of the trie may rely on: insertion updates the map, deletion
  removes a key, a lookup returns the last match along the path of the domain. What follows from
  that (which domains match, and that the most specific entry wins) is proved once in the locale.
\<close>

section \<open>Data and operations\<close>

datatype trieNode =
  TrieNode (children: "string \<Rightarrow> trieNode option") (nodeValue: string) (isEnd: bool)

record DomainTrie =
  root :: trieNode
  tsize :: int

definition newNode :: trieNode where
  "newNode = TrieNode (\<lambda>_. None) '''' False"

definition NewDomainTrie :: DomainTrie where
  "NewDomainTrie = \<lparr>root = newNode, tsize = 0\<rparr>"

definition normalizeDomain :: "string \<Rightarrow> string" where
  "normalizeDomain d = ToLower (TrimSuffix (TrimPrefix d ''+.'') ''.'')"

definition reverseDomain :: "string \<Rightarrow> string list" where
  "reverseDomain domain =
     (let d1 = TrimPrefix domain ''+.'';
          d2 = TrimSuffix d1 ''.'';
          d3 = ToLower d2
      in rev (Split d3 (CHR ''.'')))"

text \<open>
  The walk of \<open>Insert\<close>: missing children are created on the way. The flag says whether the final
  node ended an entry before, which decides the size.
\<close>

fun insert_path :: "string list \<Rightarrow> string \<Rightarrow> trieNode \<Rightarrow> trieNode \<times> bool" where
  "insert_path [] action (TrieNode ch v e) = (TrieNode ch action True, e)"
| "insert_path (p # ps) action (TrieNode ch v e) =
     (let child = (case ch p of None \<Rightarrow> newNode | Some c \<Rightarrow> c);
          (child', was) = insert_path ps action child
      in (TrieNode (ch(p \<mapsto> child')) v e, was))"

definition DomainTrie_Insert :: "string \<Rightarrow> string \<Rightarrow> DomainTrie \<Rightarrow> DomainTrie" where
  "DomainTrie_Insert domain action t =
     (let (r, was) = insert_path (reverseDomain domain) action (root t)
      in \<lparr>root = r, tsize = (if was then tsize t else tsize t + 1)\<rparr>)"

fun lookup_loop :: "string list \<Rightarrow> trieNode \<Rightarrow> string \<Rightarrow> bool \<Rightarrow> string \<times> bool" where
  "lookup_loop [] node lastMatch found = (lastMatch, found)"
| "lookup_loop (part # parts) node lastMatch found =
     (let (lm, fnd) = (case children node ''+'' of
                         Some wild \<Rightarrow> if isEnd wild then (nodeValue wild, True) else (lastMatch, found)
                       | None \<Rightarrow> (lastMatch, found))
      in case children node part of
           None \<Rightarrow> (lm, fnd)
         | Some child \<Rightarrow>
             if isEnd child then lookup_loop parts child (nodeValue child) True
             else lookup_loop parts child lm fnd)"

definition DomainTrie_Lookup :: "DomainTrie \<Rightarrow> string \<Rightarrow> string \<times> bool" where
  "DomainTrie_Lookup t domain = lookup_loop (reverseDomain domain) (root t) '''' False"

text \<open>The walk of \<open>Delete\<close>; \<open>None\<close> is the early \<^verbatim>\<open>return false\<close>.\<close>

fun delete_path :: "string list \<Rightarrow> trieNode \<Rightarrow> trieNode option" where
  "delete_path [] (TrieNode ch v e) = (if \<not> e then None else Some (TrieNode ch '''' False))"
| "delete_path (p # ps) (TrieNode ch v e) =
     (case ch p of
        None \<Rightarrow> None
      | Some c \<Rightarrow> map_option (\<lambda>c'. TrieNode (ch(p \<mapsto> c')) v e) (delete_path ps c))"

definition DomainTrie_Delete :: "string \<Rightarrow> DomainTrie \<Rightarrow> DomainTrie \<times> bool" where
  "DomainTrie_Delete domain t =
     (case delete_path (reverseDomain domain) (root t) of
        None \<Rightarrow> (t, False)
      | Some r \<Rightarrow> (\<lparr>root = r, tsize = tsize t - 1\<rparr>, True))"

definition DomainTrie_Size :: "DomainTrie \<Rightarrow> int" where
  "DomainTrie_Size t = tsize t"

section \<open>The abstract map\<close>

fun node_entries :: "trieNode \<Rightarrow> string list \<Rightarrow> string option" where
  "node_entries (TrieNode ch v e) [] = (if e then Some v else None)"
| "node_entries (TrieNode ch v e) (p # ps) =
     (case ch p of None \<Rightarrow> None | Some c \<Rightarrow> node_entries c ps)"

definition trie_entries :: "DomainTrie \<Rightarrow> string list \<Rightarrow> string option" where
  "trie_entries t = node_entries (root t)"

text \<open>
  The paths a lookup may match, least specific first: at each level the wildcard label and then
  the label of the domain itself.
\<close>

fun candidates :: "string list \<Rightarrow> string list list" where
  "candidates [] = []"
| "candidates (p # ps) = [''+''] # [p] # map (Cons p) (candidates ps)"

definition best_match :: "(string list \<Rightarrow> string option) \<Rightarrow> string list \<Rightarrow> string option" where
  "best_match m parts = last_some m (candidates parts)"

definition as_pair :: "string option \<Rightarrow> string \<times> bool" where
  "as_pair r = (case r of None \<Rightarrow> ('''', False) | Some a \<Rightarrow> (a, True))"

definition trie_wf :: "DomainTrie \<Rightarrow> bool" where
  "trie_wf t \<longleftrightarrow> finite (dom (trie_entries t)) \<and> tsize t = int (card (dom (trie_entries t)))"

lemma node_entries_Nil: "node_entries n [] = (if isEnd n then Some (nodeValue n) else None)"
  by (cases n) simp

lemma node_entries_Cons:
  "node_entries n (p # ps) = (case children n p of None \<Rightarrow> None | Some c \<Rightarrow> node_entries c ps)"
  by (cases n) simp

lemma node_entries_new [simp]: "node_entries newNode ps = None"
  by (cases ps) (simp_all add: newNode_def)

lemma insert_path_entries:
  "insert_path ps a n = (n', was) \<Longrightarrow>
     node_entries n' = (node_entries n)(ps \<mapsto> a) \<and> was = (node_entries n ps \<noteq> None)"
proof (induction ps a n arbitrary: n' was rule: insert_path.induct)
  case (1 action ch v e)
  then have "node_entries n' qs = ((node_entries (TrieNode ch v e))([] \<mapsto> action)) qs" for qs
    by (cases qs) auto
  with 1 show ?case by (auto simp: fun_eq_iff)
next
  case (2 p ps action ch v e)
  let ?child = "case ch p of None \<Rightarrow> newNode | Some c \<Rightarrow> c"
  obtain c' where c': "insert_path ps action ?child = (c', was)"
    and n': "n' = TrieNode (ch(p \<mapsto> c')) v e"
    using "2.prems" by (auto split: prod.splits)
  from "2.IH" [OF refl, of c' was] c'
  have ih: "node_entries c' = (node_entries ?child)(ps \<mapsto> action)"
    and was: "was = (node_entries ?child ps \<noteq> None)"
    by auto
  have "node_entries n' qs = ((node_entries (TrieNode ch v e))(p # ps \<mapsto> action)) qs" for qs
    by (cases qs) (auto simp: n' ih split: option.splits)
  then show ?case
    using was by (auto simp: fun_eq_iff split: option.splits)
qed

lemma delete_path_None: "delete_path ps n = None \<longleftrightarrow> node_entries n ps = None"
  by (induction ps n rule: delete_path.induct) (auto split: option.splits)

lemma delete_path_entries:
  "delete_path ps n = Some n' \<Longrightarrow> node_entries n' = (node_entries n)(ps := None)"
proof (induction ps n arbitrary: n' rule: delete_path.induct)
  case (1 ch v e)
  then have "node_entries n' qs = ((node_entries (TrieNode ch v e))([] := None)) qs" for qs
    by (cases qs) (auto split: if_splits)
  then show ?case by (auto simp: fun_eq_iff)
next
  case (2 p ps ch v e)
  then obtain c c' where c: "ch p = Some c" "delete_path ps c = Some c'"
    and n': "n' = TrieNode (ch(p \<mapsto> c')) v e"
    by (auto split: option.splits)
  have ih: "node_entries c' = (node_entries c)(ps := None)"
    by (rule "2.IH") (use c in auto)
  have "node_entries n' qs = ((node_entries (TrieNode ch v e))(p # ps := None)) qs" for qs
    by (cases qs) (auto simp: n' ih c(1) split: option.splits)
  then show ?case by (auto simp: fun_eq_iff)
qed

lemma lookup_loop_best:
  "lookup_loop parts n lm fnd =
     (case best_match (node_entries n) parts of None \<Rightarrow> (lm, fnd) | Some a \<Rightarrow> (a, True))"
proof (induction parts arbitrary: n lm fnd)
  case Nil
  then show ?case by (simp add: best_match_def)
next
  case (Cons p parts)
  have none: "children n p = None \<Longrightarrow> last_some (node_entries n) (map (Cons p) cs) = None" for cs
    by (auto simp: last_some_None node_entries_Cons)
  have some: "children n p = Some c \<Longrightarrow>
      last_some (node_entries n) (map (Cons p) cs) = last_some (node_entries c) cs" for c cs
    by (auto simp: last_some_map comp_def node_entries_Cons)
  show ?case
    by (auto simp: Cons.IH best_match_def none some node_entries_Nil node_entries_Cons
        split: option.splits)
qed

section \<open>Most specific matches\<close>

lemma last_some_upt:
  assumes "last_some f (map g [0..<n]) = Some a"
  shows "\<exists>k<n. f (g k) = Some a \<and> (\<forall>j. k < j \<and> j < n \<longrightarrow> f (g j) = None)"
  using assms
proof (induction n)
  case (Suc n)
  show ?case
  proof (cases "f (g n)")
    case None
    with Suc obtain k where "k < n" "f (g k) = Some a" "\<forall>j. k < j \<and> j < n \<longrightarrow> f (g j) = None"
      by (auto simp: last_some_snoc)
    with None show ?thesis
      by (intro exI [of _ k]) (auto simp: less_Suc_eq)
  next
    case (Some b)
    with Suc.prems show ?thesis
      by (intro exI [of _ n]) (auto simp: last_some_snoc)
  qed
qed simp

lemma take_Suc_upt_Cons:
  "map (\<lambda>k. take (Suc k) (p # ps)) [0..<length (p # ps)] =
     [p] # map (Cons p) (map (\<lambda>k. take (Suc k) ps) [0..<length ps])"
proof -
  have "[0..<length (p # ps)] = 0 # map Suc [0..<length ps]"
    by (simp add: upt_conv_Cons map_Suc_upt del: upt_Suc)
  then show ?thesis by (simp add: comp_def)
qed

lemma best_match_prefixes:
  assumes "\<And>c. ''+'' \<in> set c \<Longrightarrow> m c = None"
  shows "best_match m ps = last_some m (map (\<lambda>k. take (Suc k) ps) [0..<length ps])"
  using assms unfolding best_match_def
proof (induction ps arbitrary: m)
  case (Cons p ps)
  have ih: "last_some (m \<circ> Cons p) (candidates ps) =
      last_some (m \<circ> Cons p) (map (\<lambda>k. take (Suc k) ps) [0..<length ps])"
    by (rule Cons.IH) (simp add: Cons.prems)
  have plus: "m [''+''] = None" by (rule Cons.prems) simp
  show ?case
    unfolding take_Suc_upt_Cons candidates.simps
    by (simp add: last_some_map [of m "Cons p"] ih plus del: map_map split: option.splits)
qed simp

text \<open>
  \<open>matches_domain r d\<close>: the domain \<open>d\<close> is the domain of the rule \<open>r\<close> or one of its subdomains,
  after both are normalised (case, a trailing dot, a leading \<open>+.\<close>).
\<close>

definition matches_domain :: "string \<Rightarrow> string \<Rightarrow> bool" where
  "matches_domain r d \<longleftrightarrow>
     normalizeDomain d = normalizeDomain r \<or> HasSuffix (normalizeDomain d) (''.'' @ normalizeDomain r)"

lemma reverseDomain_eq: "reverseDomain d = rev (Split (normalizeDomain d) (CHR ''.''))"
  by (simp add: reverseDomain_def normalizeDomain_def Let_def)

lemma reverseDomain_ne [simp]: "reverseDomain d \<noteq> []"
  by (simp add: reverseDomain_eq)

lemma matches_domain_iff:
  "matches_domain r d \<longleftrightarrow> (\<exists>k<length (reverseDomain d). reverseDomain r = take (Suc k) (reverseDomain d))"
proof -
  let ?S = "\<lambda>x. Split (normalizeDomain x) (CHR ''.'')"
  have "matches_domain r d \<longleftrightarrow> (\<exists>pre. ?S d = pre @ ?S r)"
    by (simp add: matches_domain_def Split_suffix_iff)
  also have "\<dots> \<longleftrightarrow> (\<exists>suf. reverseDomain d = reverseDomain r @ suf)"
    by (metis reverseDomain_eq rev_append rev_rev_ident)
  also have "\<dots> \<longleftrightarrow> (\<exists>k<length (reverseDomain d). reverseDomain r = take (Suc k) (reverseDomain d))"
  proof
    assume "\<exists>suf. reverseDomain d = reverseDomain r @ suf"
    then show "\<exists>k<length (reverseDomain d). reverseDomain r = take (Suc k) (reverseDomain d)"
      using reverseDomain_ne [of r]
      by (intro exI [of _ "length (reverseDomain r) - 1"]) (cases "reverseDomain r"; auto)
  qed (metis append_take_drop_id)
  finally show ?thesis .
qed

lemma shorter_path_shorter_domain:
  assumes "reverseDomain r = take i (reverseDomain d)" and "reverseDomain r' = take j (reverseDomain d)"
    and "j \<le> i"
  shows "length (normalizeDomain r') \<le> length (normalizeDomain r)"
proof -
  have "reverseDomain r' = take j (reverseDomain r)"
    using assms by (simp add: min_absorb1)
  then have "\<exists>pre. Split (normalizeDomain r) (CHR ''.'') = pre @ Split (normalizeDomain r') (CHR ''.'')"
    by (metis append_take_drop_id reverseDomain_eq rev_append rev_rev_ident)
  then show ?thesis
    by (auto simp: Split_suffix_iff HasSuffix_iff)
qed

text \<open>
  An entry whose leftmost label is \<open>+\<close> after normalisation covers the proper subdomains of the rest
  (and everything, if it is \<open>+\<close> alone). \<open>covers_domain\<close> is the meaning of an arbitrary entry.
\<close>

definition wildcard_covers :: "string \<Rightarrow> string \<Rightarrow> bool" where
  "wildcard_covers r d \<longleftrightarrow> (\<exists>k<length (reverseDomain d). reverseDomain r = take k (reverseDomain d) @ [''+''])"

definition covers_domain :: "string \<Rightarrow> string \<Rightarrow> bool" where
  "covers_domain r d \<longleftrightarrow> matches_domain r d \<or> wildcard_covers r d"

lemma set_candidates:
  "c \<in> set (candidates ps) \<longleftrightarrow> (\<exists>k<length ps. c = take k ps @ [''+''] \<or> c = take (Suc k) ps)"
proof (induction ps arbitrary: c)
  case (Cons p ps)
  have "c \<in> set (candidates (p # ps)) \<longleftrightarrow> c = [''+''] \<or> c = [p] \<or> (\<exists>c'. c = p # c' \<and> c' \<in> set (candidates ps))"
    by auto
  also have "\<dots> \<longleftrightarrow>
      c = [''+''] \<or> c = [p] \<or> (\<exists>c'. c = p # c' \<and> (\<exists>k<length ps. c' = take k ps @ [''+''] \<or> c' = take (Suc k) ps))"
    unfolding Cons.IH ..
  also have "\<dots> \<longleftrightarrow> (\<exists>k<length (p # ps). c = take k (p # ps) @ [''+''] \<or> c = take (Suc k) (p # ps))"
    by (auto simp: Ex_less_Suc2)
  finally show ?case .
qed simp

lemma covers_domain_iff [code]:
  "covers_domain r d \<longleftrightarrow> reverseDomain r \<in> set (candidates (reverseDomain d))"
  by (auto simp: covers_domain_def wildcard_covers_def matches_domain_iff set_candidates)

section \<open>The interface of the trie\<close>

lemma as_pair_eq [simp]: "as_pair r = (a, True) \<longleftrightarrow> r = Some a"
  by (auto simp: as_pair_def split: option.splits)

lemma snd_as_pair [simp]: "snd (as_pair r) \<longleftrightarrow> r \<noteq> None"
  by (auto simp: as_pair_def split: option.splits)

definition insert_all :: "(string \<Rightarrow> string \<Rightarrow> 't \<Rightarrow> 't) \<Rightarrow> (string \<times> string) list \<Rightarrow> 't \<Rightarrow> 't" where
  "insert_all ins rs t = fold (\<lambda>(d, a) t. ins d a t) rs t"

definition plain_rules :: "(string \<times> string) list \<Rightarrow> bool" where
  "plain_rules rs = list_all (\<lambda>(d, a). ''+'' \<notin> set (reverseDomain d)) rs"

locale suffix_index =
  fixes empty :: "'t"
    and insert :: "string \<Rightarrow> string \<Rightarrow> 't \<Rightarrow> 't"
    and lookup :: "'t \<Rightarrow> string \<Rightarrow> string \<times> bool"
    and entries :: "'t \<Rightarrow> string list \<Rightarrow> string option"
  assumes entries_empty: "entries empty = (\<lambda>_. None)"
    and entries_insert: "entries (insert d a t) = (entries t)(reverseDomain d \<mapsto> a)"
    and lookup_entries: "lookup t d = as_pair (best_match (entries t) (reverseDomain d))"
begin

lemma entries_insert_all:
  "entries (insert_all insert rs t) p =
     (case map_of (rev (map (apfst reverseDomain) rs)) p of Some a \<Rightarrow> Some a | None \<Rightarrow> entries t p)"
proof (induction rs arbitrary: t)
  case Nil
  then show ?case by (simp add: insert_all_def)
next
  case (Cons r rs)
  obtain d a where r: "r = (d, a)" by (cases r)
  have "insert_all insert (r # rs) t = insert_all insert rs (insert d a t)"
    by (simp add: insert_all_def r)
  then show ?case
    by (auto simp: Cons.IH r entries_insert map_add_def split: option.splits)
qed

lemma entries_all_SomeD:
  assumes "entries (insert_all insert rs empty) p = Some a"
  shows "\<exists>r. (r, a) \<in> set rs \<and> reverseDomain r = p"
proof -
  from assms have "map_of (rev (map (apfst reverseDomain) rs)) p = Some a"
    by (simp add: entries_insert_all entries_empty split: option.splits)
  then have "(p, a) \<in> set (map (apfst reverseDomain) rs)"
    by (metis map_of_SomeD set_rev)
  then show ?thesis by auto
qed

lemma entries_all_None:
  "entries (insert_all insert rs empty) p = None \<longleftrightarrow> (\<forall>(r, a)\<in>set rs. reverseDomain r \<noteq> p)"
proof -
  have "entries (insert_all insert rs empty) p = None \<longleftrightarrow>
      map_of (rev (map (apfst reverseDomain) rs)) p = None"
    by (simp add: entries_insert_all entries_empty split: option.splits)
  also have "\<dots> \<longleftrightarrow> (\<forall>(r, a)\<in>set rs. reverseDomain r \<noteq> p)"
    by (force simp: map_of_eq_None_iff image_image)
  finally show ?thesis .
qed

text \<open>Whatever rules are inserted, a domain is found exactly when a rule covers it.\<close>

lemma lookup_found_any:
  "snd (lookup (insert_all insert rs empty) d) \<longleftrightarrow> (\<exists>(r, a)\<in>set rs. covers_domain r d)"
proof -
  have "snd (lookup (insert_all insert rs empty) d) \<longleftrightarrow>
      (\<exists>c \<in> set (candidates (reverseDomain d)). entries (insert_all insert rs empty) c \<noteq> None)"
    by (simp add: lookup_entries best_match_def last_some_None)
  also have "\<dots> \<longleftrightarrow> (\<exists>(r, a)\<in>set rs. covers_domain r d)"
    unfolding entries_all_None covers_domain_iff by fast
  finally show ?thesis .
qed

lemma plain_best_match:
  assumes "plain_rules rs"
  shows "best_match (entries (insert_all insert rs empty)) ps =
     last_some (entries (insert_all insert rs empty)) (map (\<lambda>k. take (Suc k) ps) [0..<length ps])"
proof (rule best_match_prefixes)
  fix c :: "string list"
  assume "''+'' \<in> set c"
  with assms show "entries (insert_all insert rs empty) c = None"
    by (auto simp: entries_all_None plain_rules_def list_all_iff)
qed

lemma lookup_found_iff:
  assumes "plain_rules rs"
  shows "snd (lookup (insert_all insert rs empty) d) \<longleftrightarrow> (\<exists>(r, a)\<in>set rs. matches_domain r d)"
proof -
  have "snd (lookup (insert_all insert rs empty) d) \<longleftrightarrow>
      \<not> (\<forall>k<length (reverseDomain d).
          entries (insert_all insert rs empty) (take (Suc k) (reverseDomain d)) = None)"
    using plain_best_match [OF assms]
    by (auto simp: lookup_entries last_some_None)
  also have "\<dots> \<longleftrightarrow> (\<exists>(r, a)\<in>set rs. matches_domain r d)"
    unfolding entries_all_None matches_domain_iff by fast
  finally show ?thesis .
qed

lemma lookup_most_specific:
  assumes "plain_rules rs" and "lookup (insert_all insert rs empty) d = (a, True)"
  shows "\<exists>r. (r, a) \<in> set rs \<and> matches_domain r d \<and>
     (\<forall>(r', a')\<in>set rs. matches_domain r' d \<longrightarrow>
        length (normalizeDomain r') \<le> length (normalizeDomain r))"
proof -
  let ?e = "entries (insert_all insert rs empty)" and ?p = "reverseDomain d"
  have "last_some ?e (map (\<lambda>k. take (Suc k) ?p) [0..<length ?p]) = Some a"
    using assms(2) plain_best_match [OF assms(1)] by (simp add: lookup_entries)
  from last_some_upt [OF this] obtain k where k: "k < length ?p" "?e (take (Suc k) ?p) = Some a"
    and later: "\<And>j. k < j \<Longrightarrow> j < length ?p \<Longrightarrow> ?e (take (Suc j) ?p) = None"
    by blast
  from entries_all_SomeD [OF k(2)] obtain r where r: "(r, a) \<in> set rs" "reverseDomain r = take (Suc k) ?p"
    by blast
  have "length (normalizeDomain r') \<le> length (normalizeDomain r)"
    if r': "(r', a') \<in> set rs" "matches_domain r' d" for r' a'
  proof -
    from r'(2) obtain j where j: "j < length ?p" "reverseDomain r' = take (Suc j) ?p"
      by (auto simp: matches_domain_iff)
    with r'(1) have "?e (take (Suc j) ?p) \<noteq> None"
      by (auto simp: entries_all_None)
    with later j(1) have "j \<le> k" by (meson leI)
    then show ?thesis
      using shorter_path_shorter_domain [OF r(2) j(2)] by simp
  qed
  with r k(1) show ?thesis
    by (intro exI [of _ r]) (auto simp: matches_domain_iff)
qed

end

interpretation trie: suffix_index NewDomainTrie DomainTrie_Insert DomainTrie_Lookup trie_entries
proof
  show "trie_entries NewDomainTrie = (\<lambda>_. None)"
    by (simp add: trie_entries_def NewDomainTrie_def fun_eq_iff)
  show "trie_entries (DomainTrie_Insert d a t) = (trie_entries t)(reverseDomain d \<mapsto> a)" for d a t
    by (auto simp: trie_entries_def DomainTrie_Insert_def dest: insert_path_entries split: prod.splits)
  show "DomainTrie_Lookup t d = as_pair (best_match (trie_entries t) (reverseDomain d))" for t d
    by (simp add: trie_entries_def DomainTrie_Lookup_def lookup_loop_best as_pair_def split: option.splits)
qed

section \<open>Correctness of the trie\<close>

datatype trie_op = OpInsert string string | OpDelete string

fun trie_step :: "DomainTrie \<Rightarrow> trie_op \<Rightarrow> DomainTrie" where
  "trie_step t (OpInsert d a) = DomainTrie_Insert d a t"
| "trie_step t (OpDelete d) = fst (DomainTrie_Delete d t)"

lemma DomainTrie_Delete_entries:
  "trie_entries (fst (DomainTrie_Delete d t)) = (trie_entries t)(reverseDomain d := None)"
  by (auto simp: DomainTrie_Delete_def trie_entries_def delete_path_None delete_path_entries
      split: option.splits)

lemma DomainTrie_Delete_flag:
  "snd (DomainTrie_Delete d t) \<longleftrightarrow> trie_entries t (reverseDomain d) \<noteq> None"
  by (auto simp: DomainTrie_Delete_def trie_entries_def delete_path_None [symmetric] split: option.splits)

lemma DomainTrie_Insert_size:
  "tsize (DomainTrie_Insert d a t) =
     (if trie_entries t (reverseDomain d) = None then tsize t + 1 else tsize t)"
  by (auto simp: DomainTrie_Insert_def trie_entries_def dest: insert_path_entries split: prod.splits)

lemma DomainTrie_Delete_size:
  "tsize (fst (DomainTrie_Delete d t)) =
     (if trie_entries t (reverseDomain d) = None then tsize t else tsize t - 1)"
  by (auto simp: DomainTrie_Delete_def trie_entries_def delete_path_None [symmetric] split: option.splits)

lemma trie_wf_Insert [inv_intros]: "trie_wf t \<Longrightarrow> trie_wf (DomainTrie_Insert d a t)"
  by (auto simp: trie_wf_def trie.entries_insert DomainTrie_Insert_size insert_absorb card_insert_if
      split: if_splits)

lemma trie_wf_Delete [inv_intros]: "trie_wf t \<Longrightarrow> trie_wf (fst (DomainTrie_Delete d t))"
proof -
  assume wf: "trie_wf t"
  show ?thesis
  proof (cases "trie_entries t (reverseDomain d)")
    case None
    with wf show ?thesis
      by (simp add: trie_wf_def DomainTrie_Delete_entries DomainTrie_Delete_size dom_def)
  next
    case (Some a)
    then have "reverseDomain d \<in> dom (trie_entries t)" by blast
    moreover have "finite (dom (trie_entries t))" using wf by (simp add: trie_wf_def)
    ultimately have "int (card (dom (trie_entries t) - {reverseDomain d})) = int (card (dom (trie_entries t))) - 1"
      by (metis card_Suc_Diff1 add_diff_cancel_left' of_nat_Suc)
    with wf Some show ?thesis
      by (simp add: trie_wf_def DomainTrie_Delete_entries DomainTrie_Delete_size)
  qed
qed

interpretation trie_machine: machine "\<lambda>t. t = NewDomainTrie" trie_step trie_wf
proof
  show "trie_wf t" if "t = NewDomainTrie" for t
    using that by (simp add: trie_wf_def trie.entries_empty) (simp add: NewDomainTrie_def)
  show "trie_wf (trie_step t e)" if "trie_wf t" for t e
    using that by (cases e) (auto intro: inv_intros)
qed

section \<open>Properties\<close>

text \<open>
  C4: a trie filled with any sequence of plain rules answers a lookup exactly when some rule is the
  domain itself or a parent domain of it, and the answer it gives is the action of a matching
  rule than which no other matching rule is more specific.
\<close>

theorem trie_lookup_most_specific:
  assumes "plain_rules rs"
  shows "(snd (DomainTrie_Lookup (insert_all DomainTrie_Insert rs NewDomainTrie) d) \<longleftrightarrow>
       (\<exists>(r, a)\<in>set rs. matches_domain r d)) \<and>
     (\<forall>a. DomainTrie_Lookup (insert_all DomainTrie_Insert rs NewDomainTrie) d = (a, True) \<longrightarrow>
       (\<exists>r. (r, a) \<in> set rs \<and> matches_domain r d \<and>
         (\<forall>(r', a')\<in>set rs. matches_domain r' d \<longrightarrow>
            length (normalizeDomain r') \<le> length (normalizeDomain r))))"
  using trie.lookup_found_iff [OF assms] trie.lookup_most_specific [OF assms] by blast

theorem trie_lookup_most_specific_witness:
  "\<exists>r. (r, ''reject'') \<in> set [(''example.com'', ''proxy''), (''Ads.Example.com'', ''reject'')] \<and>
     matches_domain r ''x.ads.example.com'' \<and>
     (\<forall>(r', a')\<in>set [(''example.com'', ''proxy''), (''Ads.Example.com'', ''reject'')].
        matches_domain r' ''x.ads.example.com'' \<longrightarrow> length (normalizeDomain r') \<le> length (normalizeDomain r))"
proof -
  let ?rs = "[(''example.com'', ''proxy''), (''Ads.Example.com'', ''reject'')]"
  have p: "plain_rules ?rs" by code_simp
  have l: "DomainTrie_Lookup (insert_all DomainTrie_Insert ?rs NewDomainTrie) ''x.ads.example.com'' = (''reject'', True)"
    by code_simp
  show ?thesis
    using trie_lookup_most_specific [OF p, of "''x.ads.example.com''"] l by blast
qed

text \<open>
  C16: the trie refines a finite map from reversed label lists to actions: insertion overwrites one
  entry, deletion removes one and reports whether it was there, and a lookup is the last hit among
  the paths of the domain, wildcard label before the domain's own label at each level.
\<close>

theorem trie_refines_map:
  "trie_entries NewDomainTrie = (\<lambda>_. None) \<and>
   trie_entries (DomainTrie_Insert d a t) = (trie_entries t)(reverseDomain d \<mapsto> a) \<and>
   trie_entries (fst (DomainTrie_Delete d t)) = (trie_entries t)(reverseDomain d := None) \<and>
   (snd (DomainTrie_Delete d t) \<longleftrightarrow> trie_entries t (reverseDomain d) \<noteq> None) \<and>
   DomainTrie_Lookup t d = as_pair (last_some (trie_entries t) (candidates (reverseDomain d)))"
  using trie.entries_empty trie.entries_insert trie.lookup_entries
  by (simp add: DomainTrie_Delete_entries DomainTrie_Delete_flag best_match_def)

text \<open>
  C29: after any sequence of insertions and deletions, repeated and failing ones included, the size
  is the number of domains stored.
\<close>

theorem trie_size_counts_entries:
  "finite (dom (trie_entries (foldl trie_step NewDomainTrie ops))) \<and>
   DomainTrie_Size (foldl trie_step NewDomainTrie ops) =
     int (card (dom (trie_entries (foldl trie_step NewDomainTrie ops))))"
  using trie_machine.reachable_inv [OF refl, of ops]
  by (simp add: trie_wf_def DomainTrie_Size_def)

lemma plus_prefix_ignored:
  "\<not> HasPrefix d ''+.'' \<Longrightarrow> DomainTrie_Insert (''+.'' @ d) a t = DomainTrie_Insert d a t"
  by (simp add: DomainTrie_Insert_def reverseDomain_def TrimPrefix_def HasPrefix_def)

end
