(* ===== verification/IPv4Nets.thy ===== *)
theory IPv4Nets
  imports GoNet
begin

text \<open>
  IPv4 networks as 32-bit prefixes: what \<open>ParseCIDR\<close> returns for an IPv4 network, containment as
  equality under the mask, and the addresses \<open>base + offset\<close> of a network.
\<close>

unbundle bit_operations_syntax

text \<open>The last partial byte of a mask, and masks of any length byte by byte.\<close>

lemma partial_bytes:
  "list_all (\<lambda>n. NOT (drop_bit n 255) \<noteq> (255 :: byte) \<and> leading_ones 8 (NOT (drop_bit n 255)) = Some n) [0..<8]"
  by code_simp

lemma partial_byte:
  "n < 8 \<Longrightarrow> NOT (drop_bit n 255) \<noteq> (255 :: byte)" "n < 8 \<Longrightarrow> leading_ones 8 (NOT (drop_bit n 255)) = Some n"
  using partial_bytes by (auto simp: list_all_iff)

lemma cidr_mask_zero: "cidr_mask_loop l 0 = replicate l 0"
  by (induction l) (auto intro!: bit_word_eqI simp: bit_simps)

lemma cidr_mask_size: "simpleMaskLength (cidr_mask_loop l n) = Some (min n (8 * l))"
  by (induction l arbitrary: n) (auto simp: partial_byte cidr_mask_zero list_all_iff)

lemma cidr_mask_nth: "i < l \<Longrightarrow> cidr_mask_loop l n ! i = 255 \<longleftrightarrow> 8 * (i + 1) \<le> n"
  by (induction l arbitrary: n i) (auto simp: partial_byte cidr_mask_zero nth_Cons split: nat.splits)

lemma cidr_mask_heads: "list_all (\<lambda>k. get32 (CIDRMask k 32) = prefix_mask k) [0..<33]"
  by code_simp

lemma cidr_mask_facts:
  "k \<le> 32 \<Longrightarrow> get32 (CIDRMask k 32) = prefix_mask k" "k \<le> 32 \<Longrightarrow> IPMask_Size (CIDRMask k 32) = k"
  using cidr_mask_heads by (simp_all add: list_all_iff IPMask_Size_def CIDRMask_def cidr_mask_size)

lemma ParseCIDR_shape:
  assumes "ParseCIDR c = Some n"
  obtains a k s where "ParseAddr s = Some a" "k \<le> Addr_BitLen a"
    "n = \<lparr>netIP = IP_Mask (Addr_As16 a) (CIDRMask k (Addr_BitLen a)), netMask = CIDRMask k (Addr_BitLen a)\<rparr>"
  using assms by (simp add: ParseCIDR_def Let_def not_less split: option.splits prod.splits if_splits)
    (metis nat_le_iff)

lemma ParseCIDR_v4:
  assumes "ParseCIDR c = Some n" and "length (netMask n) = 4"
  obtains b k where "length b = 4" "k \<le> 32" "netMask n = CIDRMask k 32"
    "netIP n = map2 and b (CIDRMask k 32)"
proof -
  from assms(1) obtain a k s where a: "ParseAddr s = Some a" "k \<le> Addr_BitLen a"
    and n: "n = \<lparr>netIP = IP_Mask (Addr_As16 a) (CIDRMask k (Addr_BitLen a)), netMask = CIDRMask k (Addr_BitLen a)\<rparr>"
    by (rule ParseCIDR_shape)
  with assms(2) obtain b where b: "a = Addr4 b" by (cases a) auto
  then have "length b = 4" using a(1) parse_addr_scan_Addr4 by (auto simp: ParseAddr_def)
  then show thesis
    using that [of b k] a(2) n b by (simp add: IP_Mask_def v4InV6Prefix_def)
qed

lemma ParseCIDR_v4_ne:
  assumes "ParseCIDR c = Some n" and "length (netMask n) = 4"
  shows "To4 (netIP n) \<noteq> []"
proof -
  obtain b k where "length b = 4" "netIP n = map2 and b (CIDRMask k 32)"
    using assms by (rule ParseCIDR_v4)
  then have "length (netIP n) = 4" by simp
  then show ?thesis by auto
qed

lemma get32_and:
  assumes "length xs = 4" "length ys = 4"
  shows "get32 (map2 and xs ys) = get32 xs AND get32 ys"
proof -
  have "put32 (x AND y) = map2 and (put32 x) (put32 y)" for x y :: u32
    by (auto simp: put32_def bit_simps intro!: bit_word_eqI)
  then show ?thesis
    using put32_get32 [OF assms(1)] put32_get32 [OF assms(2)] by (metis get32_put32)
qed

lemma get32_inj:
  assumes "length xs = 4" "length ys = 4" "get32 xs = get32 ys"
  shows "xs = ys"
  using assms put32_get32 by metis

lemma IPNet_Contains_v4:
  assumes "length (netIP n) = 4" "length (netMask n) = 4" "length ip = 4"
  shows "IPNet_Contains n ip \<longleftrightarrow> map2 and (netIP n) (netMask n) = map2 and ip (netMask n)"
proof -
  obtain a b c d where x: "netIP n = [a, b, c, d]" using assms(1) by (rule list4E)
  obtain a' b' c' d' where y: "netMask n = [a', b', c', d']" using assms(2) by (rule list4E)
  obtain p q r s where z: "ip = [p, q, r, s]" using assms(3) by (rule list4E)
  show ?thesis
    using x y z by (simp add: IPNet_Contains_def networkNumberAndMask_def Let_def)
qed

end
