(* ===== verification/GoSort.thy ===== *)
theory GoSort
  imports Prelude "HOL-Library.Multiset"
begin

text \<open>
  Go's \<open>sort.Search\<close>, \<open>sort.SliceStable\<close> and \<open>rand.Shuffle\<close>. A search comes with
  what its callers rely on: on a predicate that stays true once it is true, the search splits
  the indices into those where it is false and those where it is true.
\<close>

text \<open>\<open>sort.Search\<close>: binary search for the least index in \<open>[i, j)\<close> with \<open>f\<close>, or \<open>j\<close>.\<close>

function search_loop :: "(nat \<Rightarrow> bool) \<Rightarrow> nat \<Rightarrow> nat \<Rightarrow> nat" where
  "search_loop f i j =
     (if i < j then
        (let h = (i + j) div 2
         in if \<not> f h then search_loop f (h + 1) j else search_loop f i h)
      else i)"
  by pat_completeness auto
termination
  by (relation "measure (\<lambda>(f, i, j). j - i)") auto

declare search_loop.simps [simp del]

definition sort_Search :: "nat \<Rightarrow> (nat \<Rightarrow> bool) \<Rightarrow> nat" where
  "sort_Search n f = search_loop f 0 n"

lemma search_loop_stop [simp]: "\<not> i < j \<Longrightarrow> search_loop f i j = i"
  by (subst search_loop.simps) simp

lemma search_loop_step:
  "i < j \<Longrightarrow> search_loop f i j =
     (if f ((i + j) div 2) then search_loop f i ((i + j) div 2) else search_loop f ((i + j) div 2 + 1) j)"
  by (subst search_loop.simps) (simp add: Let_def)

lemma search_loop_cong:
  assumes "\<And>h. h < j \<Longrightarrow> f h = g h"
  shows "search_loop f i j = search_loop g i j"
  using assms
proof (induction "j - i" arbitrary: i j rule: less_induct)
  case less
  show ?case
  proof (cases "i < j")
    case True
    let ?h = "(i + j) div 2"
    have h: "i \<le> ?h" "?h < j" using True by auto
    have "search_loop f i ?h = search_loop g i ?h"
      by (rule less.hyps) (use h less.prems in auto)
    moreover have "search_loop f (?h + 1) j = search_loop g (?h + 1) j"
      by (rule less.hyps) (use h less.prems in auto)
    ultimately show ?thesis
      using True h(2) less.prems by (simp add: search_loop_step)
  qed simp
qed

lemma search_loop_range: "i \<le> j \<Longrightarrow> i \<le> search_loop f i j \<and> search_loop f i j \<le> j"
proof (induction "j - i" arbitrary: i j rule: less_induct)
  case less
  show ?case
  proof (cases "i < j")
    case True
    let ?h = "(i + j) div 2"
    have h: "i \<le> ?h" "?h < j" using True by auto
    have "i \<le> search_loop f i ?h \<and> search_loop f i ?h \<le> ?h"
      by (rule less.hyps) (use h in auto)
    moreover have "?h + 1 \<le> search_loop f (?h + 1) j \<and> search_loop f (?h + 1) j \<le> j"
      by (rule less.hyps) (use h in auto)
    ultimately show ?thesis
      using True h by (auto simp: search_loop_step)
  qed (use less.prems in simp)
qed

lemma search_loop_sound:
  assumes "i \<le> j" and "\<And>a b. a \<le> b \<Longrightarrow> f a \<Longrightarrow> f b"
  shows "(\<forall>k. i \<le> k \<and> k < search_loop f i j \<longrightarrow> \<not> f k) \<and>
         (\<forall>k. search_loop f i j \<le> k \<and> k < j \<longrightarrow> f k)"
  using assms(1)
proof (induction "j - i" arbitrary: i j rule: less_induct)
  case less
  show ?case
  proof (cases "i < j")
    case True
    let ?h = "(i + j) div 2"
    have h: "i \<le> ?h" "?h < j" using True by auto
    show ?thesis
    proof (cases "f ?h")
      case True
      have "search_loop f i j = search_loop f i ?h"
        using True \<open>i < j\<close> by (simp add: search_loop_step)
      moreover have "search_loop f i ?h \<le> ?h" using search_loop_range h(1) by blast
      moreover have "\<And>k. ?h \<le> k \<Longrightarrow> f k" using assms(2) True by blast
      moreover have "(\<forall>k. i \<le> k \<and> k < search_loop f i ?h \<longrightarrow> \<not> f k) \<and>
          (\<forall>k. search_loop f i ?h \<le> k \<and> k < ?h \<longrightarrow> f k)"
        by (rule less.hyps) (use h in auto)
      ultimately show ?thesis by (metis not_le)
    next
      case False
      have "search_loop f i j = search_loop f (?h + 1) j"
        using False \<open>i < j\<close> by (simp add: search_loop_step)
      moreover have "\<And>k. k \<le> ?h \<Longrightarrow> \<not> f k" using assms(2) False by blast
      moreover have "(\<forall>k. ?h + 1 \<le> k \<and> k < search_loop f (?h + 1) j \<longrightarrow> \<not> f k) \<and>
          (\<forall>k. search_loop f (?h + 1) j \<le> k \<and> k < j \<longrightarrow> f k)"
        by (rule less.hyps) (use h in auto)
      ultimately show ?thesis by (metis not_less_eq_eq Suc_eq_plus1)
    qed
  qed (use less.prems in auto)
qed

lemma sort_Search_le: "sort_Search n f \<le> n"
  by (simp add: sort_Search_def search_loop_range)

lemma sort_Search_iff:
  assumes "\<And>a b. a \<le> b \<Longrightarrow> b < n \<Longrightarrow> f a \<Longrightarrow> f b" "k < n" shows "f k \<longleftrightarrow> sort_Search n f \<le> k"
proof -
  let ?g = "\<lambda>k. n \<le> k \<or> f k"
  have e: "sort_Search n f = search_loop ?g 0 n" unfolding sort_Search_def by (rule search_loop_cong) simp
  have "(\<forall>k. 0 \<le> k \<and> k < search_loop ?g 0 n \<longrightarrow> \<not> ?g k) \<and> (\<forall>k. search_loop ?g 0 n \<le> k \<and> k < n \<longrightarrow> ?g k)"
  proof (rule search_loop_sound)
    show "?g b" if "a \<le> b" "?g a" for a b using that assms(1) [of a b] by (cases "b < n") auto
  qed simp
  then show ?thesis using assms(2) unfolding e by (meson linorder_not_le zero_le)
qed

section \<open>Stable sorting and shuffling\<close>

text \<open>\<open>sort.SliceStable\<close> as a stable insertion sort: an element moves behind a later one only when
  that one is less. For a strict weak order this is the only stable result.\<close>

fun stable_insert :: "('a \<Rightarrow> 'a \<Rightarrow> bool) \<Rightarrow> 'a \<Rightarrow> 'a list \<Rightarrow> 'a list" where
  "stable_insert lt x [] = [x]"
| "stable_insert lt x (y # ys) = (if lt y x then y # stable_insert lt x ys else x # y # ys)"

definition SliceStable :: "('a \<Rightarrow> 'a \<Rightarrow> bool) \<Rightarrow> 'a list \<Rightarrow> 'a list" where
  "SliceStable lt xs = foldr (stable_insert lt) xs []"

lemma mset_SliceStable [simp]: "mset (SliceStable lt xs) = mset xs"
proof -
  have "mset (stable_insert lt x ys) = add_mset x (mset ys)" for x ys
    by (induction ys) auto
  then show ?thesis
    by (induction xs) (simp_all add: SliceStable_def)
qed

lemma sorted_SliceStable:
  assumes trans: "\<And>a b c. \<not> lt b a \<Longrightarrow> \<not> lt c b \<Longrightarrow> \<not> lt c a" and asym: "\<And>a b. lt a b \<Longrightarrow> \<not> lt b a"
  shows "sorted_wrt (\<lambda>a b. \<not> lt b a) (SliceStable lt xs)"
proof -
  have ins: "set (stable_insert lt x ys) = insert x (set ys)" for x ys
    by (induction ys) auto
  have "sorted_wrt (\<lambda>a b. \<not> lt b a) ys \<Longrightarrow> sorted_wrt (\<lambda>a b. \<not> lt b a) (stable_insert lt x ys)" for x ys
    by (induction ys) (auto simp: ins dest: asym trans)
  then show ?thesis
    by (induction xs) (simp_all add: SliceStable_def)
qed

text \<open>\<open>rand.Shuffle\<close>: \<open>rnd i\<close> is the number drawn for index \<open>i\<close>, reduced to \<open>0 .. i\<close>.\<close>

definition swap_at :: "nat \<Rightarrow> nat \<Rightarrow> 'a list \<Rightarrow> 'a list" where
  "swap_at i j xs = xs[i := xs ! j, j := xs ! i]"

fun shuffle_loop :: "(nat \<Rightarrow> nat) \<Rightarrow> nat \<Rightarrow> 'a list \<Rightarrow> 'a list" where
  "shuffle_loop rnd 0 xs = xs"
| "shuffle_loop rnd (Suc i) xs = shuffle_loop rnd i (swap_at (Suc i) (rnd (Suc i) mod (i + 2)) xs)"

definition rand_Shuffle :: "(nat \<Rightarrow> nat) \<Rightarrow> 'a list \<Rightarrow> 'a list" where
  "rand_Shuffle rnd xs = shuffle_loop rnd (length xs - 1) xs"

lemma mset_shuffle_loop: "xs = [] \<or> i < length xs \<Longrightarrow> mset (shuffle_loop rnd i xs) = mset xs"
proof (induction i arbitrary: xs)
  case (Suc i)
  show ?case
  proof (cases "xs = []")
    case False
    with Suc.prems have i: "Suc i < length xs" by simp
    have "rnd (Suc i) mod (i + 2) < i + 2" by simp
    then have j: "rnd (Suc i) mod (i + 2) < length xs" using i by linarith
    have "mset (shuffle_loop rnd i (swap_at (Suc i) (rnd (Suc i) mod (i + 2)) xs)) = mset (swap_at (Suc i) (rnd (Suc i) mod (i + 2)) xs)"
      by (rule Suc.IH) (use i in \<open>simp add: swap_at_def\<close>)
    also have "\<dots> = mset xs"
      unfolding swap_at_def using j i by (rule mset_swap)
    finally show ?thesis by simp
  next
    case True
    have "shuffle_loop rnd k ([] :: 'a list) = []" for k
      by (induction k) (simp_all add: swap_at_def)
    with True show ?thesis
      by (simp add: swap_at_def)
  qed
qed simp

lemma mset_rand_Shuffle [simp]: "mset (rand_Shuffle rnd xs) = mset xs"
  unfolding rand_Shuffle_def by (rule mset_shuffle_loop) (cases xs, auto)

end
