(* ===== verification/GeoIP.thy ===== *)
theory GeoIP
  imports IPv4Nets GoSort "HOL-Library.Multiset"
begin

text \<open>
  The GeoIP and GeoSite databases of \<open>src/router/geoip.go\<close>. A database is a pointer to an
  immutable snapshot that loaders replace; the model is the snapshot, and a loader maps the old
  snapshot to the new one (the compare-and-swap loop of \<open>LoadFromCIDRs\<close> retries until it has done
  that atomically). \<open>sort.Slice\<close> promises a sorted permutation and nothing about ties, so the sort
  is an argument of the loaders; the order in which Go ranges over a map is an argument of
  \<open>lookupIPv6\<close>. A shift by a negative amount panics in Go: the loaders return \<open>None\<close> there.
\<close>

unbundle bit_operations_syntax

section \<open>Snapshots and loaders\<close>

record geoEntry =
  gstart :: u32
  gmask :: u32
  gcountry :: string

record geoIPSnapshot =
  ipv4Entries :: "geoEntry list"
  ipv4Sorted :: bool
  ipv6Entries :: "string \<Rightarrow> IPNet list option"

definition NewGeoIPDB :: geoIPSnapshot where
  "NewGeoIPDB = \<lparr>ipv4Entries = [], ipv4Sorted = False, ipv6Entries = (\<lambda>_. None)\<rparr>"

definition v4_mask :: "nat \<Rightarrow> u32" where
  "v4_mask ones = (if ones > 0 then push_bit (32 - ones) (NOT 0) else 0)"

definition geo_entry :: "string \<Rightarrow> IPNet \<Rightarrow> geoEntry option" where
  "geo_entry country n =
     (let ones = IPMask_Size (netMask n)
      in if ones > 32 then None
         else Some \<lparr>gstart = get32 (To4 (netIP n)) AND v4_mask ones, gmask = v4_mask ones,
                    gcountry = country\<rparr>)"

definition append6 :: "(string \<Rightarrow> IPNet list option) \<Rightarrow> string \<Rightarrow> IPNet \<Rightarrow> (string \<Rightarrow> IPNet list option)" where
  "append6 m country n = m(country \<mapsto> (case m country of None \<Rightarrow> [] | Some ns \<Rightarrow> ns) @ [n])"

fun load_loop :: "string \<Rightarrow> string list \<Rightarrow> geoEntry list \<Rightarrow> (string \<Rightarrow> IPNet list option)
    \<Rightarrow> (geoEntry list \<times> (string \<Rightarrow> IPNet list option)) option" where
  "load_loop country [] v4 v6 = Some (v4, v6)"
| "load_loop country (cidr # cidrs) v4 v6 =
     (case ParseCIDR cidr of
        None \<Rightarrow> load_loop country cidrs v4 v6
      | Some ipnet \<Rightarrow>
          if To4 (netIP ipnet) \<noteq> [] then
            (case geo_entry country ipnet of
               None \<Rightarrow> None
             | Some e \<Rightarrow> load_loop country cidrs (v4 @ [e]) v6)
          else load_loop country cidrs v4 (append6 v6 country ipnet))"

definition LoadFromCIDRs :: "(geoEntry list \<Rightarrow> geoEntry list) \<Rightarrow> string \<Rightarrow> string list
    \<Rightarrow> geoIPSnapshot \<Rightarrow> geoIPSnapshot option" where
  "LoadFromCIDRs srt country cidrs old =
     map_option (\<lambda>(v4, v6). \<lparr>ipv4Entries = srt v4, ipv4Sorted = True, ipv6Entries = v6\<rparr>)
       (load_loop country cidrs (ipv4Entries old) (ipv6Entries old))"

fun reload_loop :: "(string \<times> string list) list \<Rightarrow> geoEntry list \<Rightarrow> (string \<Rightarrow> IPNet list option)
    \<Rightarrow> (geoEntry list \<times> (string \<Rightarrow> IPNet list option)) option" where
  "reload_loop [] v4 v6 = Some (v4, v6)"
| "reload_loop ((country, cidrs) # es) v4 v6 =
     (case load_loop country cidrs v4 v6 of
        None \<Rightarrow> None
      | Some (v4', v6') \<Rightarrow> reload_loop es v4' v6')"

definition GeoIPDB_Reload :: "(geoEntry list \<Rightarrow> geoEntry list) \<Rightarrow> (string \<times> string list) list
    \<Rightarrow> geoIPSnapshot option" where
  "GeoIPDB_Reload srt es =
     map_option (\<lambda>(v4, v6). \<lparr>ipv4Entries = srt v4, ipv4Sorted = True, ipv6Entries = v6\<rparr>)
       (reload_loop es [] (\<lambda>_. None))"

section \<open>Lookups\<close>

text \<open>The backward scan; \<open>Suc i\<close> stands for the loop index \<open>i\<close>, 0 for the exit at \<open>-1\<close>.\<close>

fun scan_back :: "geoEntry list \<Rightarrow> u32 \<Rightarrow> nat \<Rightarrow> string" where
  "scan_back entries addr 0 = ''''"
| "scan_back entries addr (Suc i) =
     (let e = entries ! i
      in if addr AND gmask e = gstart e then gcountry e
         else if gstart e < addr AND gmask e then ''''
         else scan_back entries addr i)"

definition lookupIPv4 :: "geoIPSnapshot \<Rightarrow> u32 \<Rightarrow> string" where
  "lookupIPv4 snap addr =
     (let entries = ipv4Entries snap; n = length entries
      in if n = 0 then ''''
         else scan_back entries addr (sort_Search n (\<lambda>i. gstart (entries ! i) > addr)))"

fun lookupIPv6 :: "string list \<Rightarrow> geoIPSnapshot \<Rightarrow> IP \<Rightarrow> string" where
  "lookupIPv6 [] snap ip = ''''"
| "lookupIPv6 (country # order) snap ip =
     (case ipv6Entries snap country of
        None \<Rightarrow> lookupIPv6 order snap ip
      | Some cidrs \<Rightarrow> if list_ex (\<lambda>c. IPNet_Contains c ip) cidrs then country
                      else lookupIPv6 order snap ip)"

definition LookupCountry :: "string list \<Rightarrow> geoIPSnapshot \<Rightarrow> IP \<Rightarrow> string" where
  "LookupCountry order snap ip =
     (if To4 ip \<noteq> [] then lookupIPv4 snap (get32 (To4 ip)) else lookupIPv6 order snap ip)"

section \<open>GeoSite\<close>

type_synonym geoSiteSnapshot = "string \<Rightarrow> string list option"

definition NewGeoSiteDB :: geoSiteSnapshot where
  "NewGeoSiteDB = (\<lambda>_. None)"

definition LoadCategory :: "string \<Rightarrow> string list \<Rightarrow> geoSiteSnapshot \<Rightarrow> geoSiteSnapshot" where
  "LoadCategory category domains old = old(category \<mapsto> domains)"

definition ReloadSites :: "(string \<times> string list) list \<Rightarrow> geoSiteSnapshot" where
  "ReloadSites entries = fold (\<lambda>(c, ds) m. m(c \<mapsto> ds)) entries (\<lambda>_. None)"

definition GeoSiteDB_Lookup :: "geoSiteSnapshot \<Rightarrow> string \<Rightarrow> string list" where
  "GeoSiteDB_Lookup snap category = (case snap category of None \<Rightarrow> [] | Some ds \<Rightarrow> ds)"

section \<open>Prefix masks\<close>

lemma v4_mask_prefix: "v4_mask = prefix_mask"
  by (rule ext) (simp add: v4_mask_def prefix_mask_def)

lemma and_v4_mask_mono: "n \<le> 32 \<Longrightarrow> a \<le> b \<Longrightarrow> a AND v4_mask n \<le> b AND v4_mask n"
  by (simp add: v4_mask_prefix and_prefix_mask_mono)

definition entry_wf :: "geoEntry \<Rightarrow> bool" where
  "entry_wf e \<longleftrightarrow> (\<exists>n\<le>32. gmask e = v4_mask n) \<and> gstart e AND gmask e = gstart e"

definition geo_contains :: "geoEntry \<Rightarrow> u32 \<Rightarrow> bool" where
  "geo_contains e addr \<longleftrightarrow> addr AND gmask e = gstart e"

definition snap_wf :: "geoIPSnapshot \<Rightarrow> bool" where
  "snap_wf s \<longleftrightarrow> list_all entry_wf (ipv4Entries s) \<and> sorted (map gstart (ipv4Entries s))"

definition disjoint_entries :: "geoEntry list \<Rightarrow> bool" where
  "disjoint_entries es \<longleftrightarrow>
     (\<forall>i j. i < j \<and> j < length es \<longrightarrow> (\<forall>a. \<not> (geo_contains (es ! i) a \<and> geo_contains (es ! j) a)))"

lemma geo_contains_start: "entry_wf e \<Longrightarrow> geo_contains e (gstart e)"
  by (simp add: entry_wf_def geo_contains_def)

lemma geo_contains_ge: "geo_contains e addr \<Longrightarrow> gstart e \<le> addr"
  unfolding geo_contains_def by (metis word_and_le2)

lemma geo_contains_between:
  assumes "entry_wf e" and "geo_contains e b" and "gstart e \<le> a" and "a \<le> b"
  shows "geo_contains e a"
proof -
  obtain n where n: "n \<le> 32" "gmask e = v4_mask n" using assms(1) by (auto simp: entry_wf_def)
  have "gstart e AND gmask e \<le> a AND gmask e" "a AND gmask e \<le> b AND gmask e"
    using assms(3,4) n by (simp_all add: and_v4_mask_mono)
  then show ?thesis
    using assms(1,2) by (simp add: entry_wf_def geo_contains_def)
qed

text \<open>
  The start of an entry at or below the address lies at or below the masked address, so the scan
  never goes past the first entry it looks at.
\<close>

lemma scan_back_first:
  assumes "entry_wf (entries ! i)" and "gstart (entries ! i) \<le> addr"
  shows "scan_back entries addr (Suc i) =
     (if geo_contains (entries ! i) addr then gcountry (entries ! i) else '''')"
proof -
  let ?e = "entries ! i"
  obtain n where n: "n \<le> 32" "gmask ?e = v4_mask n" using assms(1) by (auto simp: entry_wf_def)
  have "gstart ?e \<le> addr AND gmask ?e"
    using and_v4_mask_mono [OF n(1) assms(2)] assms(1) n(2) by (simp add: entry_wf_def)
  then show ?thesis
    by (auto simp: geo_contains_def Let_def)
qed

lemma sort_Search_starts:
  fixes addr :: u32
  assumes "sorted (map gstart es)"
  defines "k \<equiv> sort_Search (length es) (\<lambda>i. gstart (es ! i) > addr)"
  shows "k \<le> length es" and "\<And>i. i < k \<Longrightarrow> gstart (es ! i) \<le> addr"
    and "\<And>i. k \<le> i \<Longrightarrow> i < length es \<Longrightarrow> addr < gstart (es ! i)"
proof -
  define f where "f i \<longleftrightarrow> length es \<le> i \<or> addr < gstart (es ! i)" for i
  have mono: "f b" if "a \<le> b" "f a" for a b
  proof (cases "b < length es")
    case True
    with that have "addr < gstart (es ! a)" "gstart (es ! a) \<le> gstart (es ! b)"
      using assms(1) by (auto simp: f_def sorted_iff_nth_mono)
    then show ?thesis by (auto simp: f_def)
  qed (simp add: f_def)
  have same: "search_loop (\<lambda>i. gstart (es ! i) > addr) 0 (length es) = search_loop f 0 (length es)"
    by (rule search_loop_cong) (simp add: f_def)
  have k: "k = search_loop f 0 (length es)"
    by (simp add: k_def sort_Search_def same)
  show "k \<le> length es" using search_loop_range [of 0 "length es" f] k by simp
  have bounds: "(\<forall>i. 0 \<le> i \<and> i < k \<longrightarrow> \<not> f i) \<and> (\<forall>i. k \<le> i \<and> i < length es \<longrightarrow> f i)"
    unfolding k by (rule search_loop_sound) (simp, rule mono)
  show "gstart (es ! i) \<le> addr" if "i < k" for i
    using bounds that by (auto simp: f_def not_less)
  show "addr < gstart (es ! i)" if "k \<le> i" "i < length es" for i
    using bounds that by (auto simp: f_def)
qed

text \<open>What the IPv4 lookup computes: one entry decides, the last one that starts at or below.\<close>

lemma lookupIPv4_last_start:
  assumes "snap_wf s"
  shows "lookupIPv4 s addr =
     (let es = filter (\<lambda>e. gstart e \<le> addr) (ipv4Entries s)
      in if es \<noteq> [] \<and> geo_contains (last es) addr then gcountry (last es) else '''')"
proof -
  define es where "es = ipv4Entries s"
  define k where "k = sort_Search (length es) (\<lambda>i. gstart (es ! i) > addr)"
  have srt: "sorted (map gstart es)" and wf: "list_all entry_wf es"
    using assms by (auto simp: snap_wf_def es_def)
  note ks = sort_Search_starts [OF srt, where addr = addr, folded k_def]
  have "filter (\<lambda>e. gstart e \<le> addr) (take k es) = take k es"
    using ks(1,2) by (auto simp: filter_id_conv set_conv_nth)
  moreover have "filter (\<lambda>e. gstart e \<le> addr) (drop k es) = []"
    using ks(1,3) by (fastforce simp: filter_empty_conv set_conv_nth not_le)
  ultimately have filt: "filter (\<lambda>e. gstart e \<le> addr) es = take k es"
    by (metis append_take_drop_id append_Nil2 filter_append)
  have eq: "lookupIPv4 s addr = (if es = [] then '''' else scan_back es addr k)"
    by (simp add: lookupIPv4_def es_def k_def Let_def)
  show ?thesis
  proof (cases k)
    case 0
    then show ?thesis using filt eq by (simp add: es_def)
  next
    case (Suc i)
    then have i: "i < length es" using ks(1) by simp
    have "scan_back es addr (Suc i) = (if geo_contains (es ! i) addr then gcountry (es ! i) else '''')"
      by (rule scan_back_first) (use i wf Suc ks(2) in \<open>auto simp: list_all_length\<close>)
    moreover have "take k es = take i es @ [es ! i]"
      using i Suc by (simp add: take_Suc_conv_app_nth)
    ultimately show ?thesis
      using filt eq Suc i by (auto simp: es_def [symmetric] Let_def)
  qed
qed

section \<open>Loaded snapshots\<close>

text \<open>
  What the loaders rely on: \<open>sort.Slice\<close> returns a permutation, sorted by the given order.
\<close>

definition sorts_starts :: "(geoEntry list \<Rightarrow> geoEntry list) \<Rightarrow> bool" where
  "sorts_starts srt \<longleftrightarrow> (\<forall>xs. mset (srt xs) = mset xs \<and> sorted (map gstart (srt xs)))"

lemma geo_entry_wf: "geo_entry c n = Some e \<Longrightarrow> entry_wf e"
  by (auto simp: geo_entry_def entry_wf_def Let_def and.assoc not_less split: if_splits)

lemma load_loop_wf:
  "load_loop c cidrs v4 v6 = Some (v4', v6') \<Longrightarrow> list_all entry_wf v4 \<Longrightarrow> list_all entry_wf v4'"
  by (induction c cidrs v4 v6 rule: load_loop.induct)
    (auto split: option.splits if_splits dest: geo_entry_wf)

lemma reload_loop_wf:
  "reload_loop es v4 v6 = Some (v4', v6') \<Longrightarrow> list_all entry_wf v4 \<Longrightarrow> list_all entry_wf v4'"
  by (induction es v4 v6 rule: reload_loop.induct)
    (auto split: option.splits prod.splits dest: load_loop_wf)

locale start_sorter =
  fixes srt :: "geoEntry list \<Rightarrow> geoEntry list"
  assumes sorts: "sorts_starts srt"
begin

lemma set_srt: "set (srt xs) = set xs"
  using sorts by (metis sorts_starts_def set_mset_mset)

lemma sorted_srt: "sorted (map gstart (srt xs))"
  using sorts by (simp add: sorts_starts_def)

lemma snap_wf_srt:
  "list_all entry_wf v4 \<Longrightarrow> snap_wf \<lparr>ipv4Entries = srt v4, ipv4Sorted = b, ipv6Entries = v6\<rparr>"
  by (simp add: snap_wf_def sorted_srt list_all_iff set_srt)

lemma load_wf:
  assumes "snap_wf old" and "LoadFromCIDRs srt c cidrs old = Some new"
  shows "snap_wf new"
proof -
  obtain v4 v6 where l: "load_loop c cidrs (ipv4Entries old) (ipv6Entries old) = Some (v4, v6)"
    and n: "new = \<lparr>ipv4Entries = srt v4, ipv4Sorted = True, ipv6Entries = v6\<rparr>"
    using assms(2) by (auto simp: LoadFromCIDRs_def)
  show ?thesis
    unfolding n by (intro snap_wf_srt load_loop_wf [OF l]) (use assms(1) in \<open>simp add: snap_wf_def\<close>)
qed

lemma reload_wf:
  assumes "GeoIPDB_Reload srt es = Some new" shows "snap_wf new"
proof -
  obtain v4 v6 where l: "reload_loop es [] (\<lambda>_. None) = Some (v4, v6)"
    and n: "new = \<lparr>ipv4Entries = srt v4, ipv4Sorted = True, ipv6Entries = v6\<rparr>"
    using assms by (auto simp: GeoIPDB_Reload_def)
  show ?thesis
    unfolding n by (intro snap_wf_srt reload_loop_wf [OF l]) simp
qed

end

lemma sorts_starts_sort_key: "sorts_starts (sort_key gstart)"
  by (simp add: sorts_starts_def)

interpretation stable: start_sorter "sort_key gstart"
  by unfold_locales (rule sorts_starts_sort_key)

text \<open>Prefixes are disjoint when neither contains the start of the other.\<close>

definition apart_entries :: "geoEntry \<Rightarrow> geoEntry \<Rightarrow> bool" where
  "apart_entries e f \<longleftrightarrow> \<not> geo_contains e (gstart f) \<and> \<not> geo_contains f (gstart e)"

lemma disjoint_entriesI:
  assumes "list_all entry_wf es" and "sorted_wrt apart_entries es"
  shows "disjoint_entries es"
  unfolding disjoint_entries_def
proof (intro allI impI notI)
  fix i j a
  assume ij: "i < j \<and> j < length es" and c: "geo_contains (es ! i) a \<and> geo_contains (es ! j) a"
  have wf: "entry_wf (es ! i)" "entry_wf (es ! j)" using assms(1) ij by (auto simp: list_all_length)
  have "apart_entries (es ! i) (es ! j)" using assms(2) ij by (auto simp: sorted_wrt_iff_nth_less)
  then show False
    using c wf geo_contains_between geo_contains_ge linear unfolding apart_entries_def by metis
qed

lemma lookupIPv4_disjoint_unique:
  assumes "snap_wf s" and "disjoint_entries (ipv4Entries s)"
    and "e \<in> set (ipv4Entries s)" and "geo_contains e addr"
  shows "lookupIPv4 s addr = gcountry e"
proof -
  let ?es = "ipv4Entries s"
  let ?fs = "filter (\<lambda>e. gstart e \<le> addr) ?es"
  have wf: "\<And>x. x \<in> set ?es \<Longrightarrow> entry_wf x" and srt: "sorted (map gstart ?fs)"
    using assms(1) by (auto simp: snap_wf_def list_all_iff sorted_filter)
  have ein: "e \<in> set ?fs" using assms(3,4) by (simp add: geo_contains_ge)
  then have ne: "?fs \<noteq> []" by (metis empty_iff list.set(1))
  let ?l = "last ?fs"
  have lin: "?l \<in> set ?es" "gstart ?l \<le> addr" using last_in_set [OF ne] by auto
  obtain i where i: "i < length ?fs" "?fs ! i = e" using ein by (metis in_set_conv_nth)
  then have "gstart (?fs ! i) \<le> gstart (?fs ! (length ?fs - 1))"
    using sorted_nth_mono [OF srt, of i "length ?fs - 1"] by simp
  then have "gstart e \<le> gstart ?l" using i ne by (simp add: last_conv_nth)
  then have both: "geo_contains e (gstart ?l)"
    using geo_contains_between [OF wf [OF assms(3)] assms(4)] lin(2) by simp
  have "?l = e"
  proof (rule ccontr)
    assume "?l \<noteq> e"
    then obtain i j where "i < length ?es" "j < length ?es" "?es ! i = e" "?es ! j = ?l" "i \<noteq> j"
      using assms(3) lin(1) by (metis in_set_conv_nth)
    then show False
      using assms(2) both geo_contains_start [OF wf [OF lin(1)]]
      unfolding disjoint_entries_def by (metis linorder_neqE_nat)
  qed
  then show ?thesis
    using assms(1,4) ne by (simp add: lookupIPv4_last_start Let_def)
qed

lemma lookupIPv4_none:
  assumes "snap_wf s" and "\<And>e. e \<in> set (ipv4Entries s) \<Longrightarrow> \<not> geo_contains e addr"
  shows "lookupIPv4 s addr = ''''"
proof -
  let ?fs = "filter (\<lambda>e. gstart e \<le> addr) (ipv4Entries s)"
  have "?fs \<noteq> [] \<Longrightarrow> \<not> geo_contains (last ?fs) addr"
    using last_in_set [of ?fs] assms(2) by auto
  then show ?thesis
    using assms(1) by (auto simp: lookupIPv4_last_start Let_def)
qed

section \<open>Entries and networks\<close>

text \<open>
  An entry made from an IPv4 CIDR contains exactly the addresses of the network, in the sense of
  \<open>net.IPNet.Contains\<close>.
\<close>

lemmas v4_mask_facts = cidr_mask_facts [folded v4_mask_prefix]

lemma geo_entry_contains:
  assumes "ParseCIDR c = Some n" and "length (netMask n) = 4" and "length ip = 4"
  obtains e where "geo_entry country n = Some e" "gcountry e = country"
    "geo_contains e (get32 ip) \<longleftrightarrow> IPNet_Contains n ip"
proof -
  obtain b k where b: "length b = 4" "k \<le> 32" "netMask n = CIDRMask k 32"
    "netIP n = map2 and b (CIDRMask k 32)" using assms(1,2) by (rule ParseCIDR_v4)
  have l: "length (netIP n) = 4" using b by simp
  define e where "e = \<lparr>gstart = get32 (netIP n) AND v4_mask k, gmask = v4_mask k, gcountry = country\<rparr>"
  have "geo_entry country n = Some e"
    using b l by (simp add: geo_entry_def e_def v4_mask_facts)
  moreover have "geo_contains e (get32 ip) \<longleftrightarrow> get32 (map2 and ip (netMask n)) = get32 (map2 and (netIP n) (netMask n))"
    using b l assms(3) by (simp add: geo_contains_def e_def get32_and v4_mask_facts)
  moreover have "\<dots> \<longleftrightarrow> IPNet_Contains n ip"
    using l assms(2,3) by (auto simp: IPNet_Contains_v4 dest: get32_inj [rotated 2])
  ultimately show thesis using that [of e] by (simp add: e_def)
qed

text \<open>
  An IPv4-in-IPv6 CIDR has a mask of at least 96 bits, and the shift by \<open>32 - ones\<close> panics.
\<close>

lemma v6_masks: "CIDRMask k 128 ! 11 = 255 \<Longrightarrow> 32 < IPMask_Size (CIDRMask k 128)"
  by (simp add: CIDRMask_def cidr_mask_nth cidr_mask_size IPMask_Size_def)

lemma geo_entry_mapped:
  assumes "ParseCIDR c = Some n" and "To4 (netIP n) \<noteq> []" and "length (netMask n) \<noteq> 4"
  shows "geo_entry country n = None"
proof -
  obtain a k s where a: "ParseAddr s = Some a" "k \<le> Addr_BitLen a"
    and n: "n = \<lparr>netIP = IP_Mask (Addr_As16 a) (CIDRMask k (Addr_BitLen a)), netMask = CIDRMask k (Addr_BitLen a)\<rparr>"
    using assms(1) by (rule ParseCIDR_shape)
  then obtain b z where b: "a = Addr6 b z" using assms(3) by (cases a) auto
  let ?m = "CIDRMask k 128"
  have "16 \<le> length b" using a(1) b parse_addr_scan_Addr6 by (simp add: ParseAddr_def)
  then have l: "length b = 16" and ip: "netIP n = map2 and b ?m"
    using assms(2) n b by (auto simp: IP_Mask_def To4_def split: if_splits)
  then have p: "take 12 (map2 and b ?m) = v4InV6Prefix"
    using assms(2) by (auto simp: To4_def split: if_splits)
  have "map2 and b ?m ! 11 = take 12 (map2 and b ?m) ! 11" by simp
  also have "\<dots> = 255" unfolding p by (simp add: v4InV6Prefix_def nth_append)
  finally have "and (b ! 11) (?m ! 11) = 255" using l by simp
  then have "?m ! 11 = 255" using and_eq_minus_1_iff [of "b ! 11" "?m ! 11"] by simp
  then show ?thesis
    using v6_masks n b by (simp add: geo_entry_def)
qed

text \<open>The entries of a load are those of the CIDRs that parse to an IPv4 network.\<close>

definition cidr_entries :: "(string \<times> string list) list \<Rightarrow> geoEntry set" where
  "cidr_entries es = (\<Union>(country, cidrs) \<in> set es. {e. \<exists>c n. c \<in> set cidrs \<and>
     ParseCIDR c = Some n \<and> To4 (netIP n) \<noteq> [] \<and> geo_entry country n = Some e})"

lemma load_loop_set:
  "load_loop country cidrs v4 v6 = Some (v4', v6') \<Longrightarrow> set v4' = set v4 \<union> cidr_entries [(country, cidrs)]"
  by (induction country cidrs v4 v6 rule: load_loop.induct)
    (auto simp: cidr_entries_def split: option.splits if_splits)

lemma cidr_entries_Cons: "cidr_entries (x # es) = cidr_entries [x] \<union> cidr_entries es"
  by (simp add: cidr_entries_def)

lemma reload_loop_set:
  "reload_loop es v4 v6 = Some (v4', v6') \<Longrightarrow> set v4' = set v4 \<union> cidr_entries es"
proof (induction es v4 v6 rule: reload_loop.induct)
  case (2 country cidrs es v4 v6)
  then obtain a b where "load_loop country cidrs v4 v6 = Some (a, b)" "reload_loop es a b = Some (v4', v6')"
    by (auto split: option.splits)
  then show ?case
    using 2(1) load_loop_set cidr_entries_Cons [of "(country, cidrs)" es] by auto
qed (simp add: cidr_entries_def)

context start_sorter
begin

lemma reload_set:
  assumes "GeoIPDB_Reload srt es = Some s"
  shows "set (ipv4Entries s) = cidr_entries es"
  using assms by (auto simp: GeoIPDB_Reload_def set_srt dest: reload_loop_set)

lemma lookup_disjoint:
  assumes "GeoIPDB_Reload srt es = Some s" and "disjoint_entries (ipv4Entries s)"
    and "(country, cidrs) \<in> set es" and "c \<in> set cidrs" and "ParseCIDR c = Some n"
    and "length (netMask n) = 4" and "length ip = 4" and "IPNet_Contains n ip"
  shows "LookupCountry order s ip = country"
proof -
  obtain e where e: "geo_entry country n = Some e" "gcountry e = country" "geo_contains e (get32 ip)"
    using geo_entry_contains [OF assms(5,6,7)] assms(8) by metis
  have "To4 (netIP n) \<noteq> []"
    using ParseCIDR_v4_ne [OF assms(5,6)] .
  then have "e \<in> set (ipv4Entries s)"
    using assms(3,4,5) e reload_set [OF assms(1)] by (auto simp: cidr_entries_def)
  then show ?thesis
    using lookupIPv4_disjoint_unique [OF reload_wf [OF assms(1)] assms(2) _ e(3)] e(2) assms(7)
    by (auto simp: LookupCountry_def)
qed

lemma lookup_uncovered:
  assumes "GeoIPDB_Reload srt es = Some s" and "length ip = 4"
    and none: "\<And>country cidrs c n. (country, cidrs) \<in> set es \<Longrightarrow> c \<in> set cidrs \<Longrightarrow>
         ParseCIDR c = Some n \<Longrightarrow> \<not> IPNet_Contains n ip"
  shows "LookupCountry order s ip = ''''"
proof -
  have "\<not> geo_contains e (get32 ip)" if in_s: "e \<in> set (ipv4Entries s)" for e
  proof -
    obtain country cidrs c n where c: "(country, cidrs) \<in> set es" "c \<in> set cidrs" "ParseCIDR c = Some n"
      "To4 (netIP n) \<noteq> []" "geo_entry country n = Some e"
      using in_s reload_set [OF assms(1)] by (auto simp: cidr_entries_def)
    then have "length (netMask n) = 4" using geo_entry_mapped by fastforce
    then show ?thesis
      using geo_entry_contains [OF c(3) _ assms(2), of country] c(5) none [OF c(1-3)] by fastforce
  qed
  then show ?thesis
    using lookupIPv4_none [OF reload_wf [OF assms(1)]] assms(2) by (auto simp: LookupCountry_def)
qed

end



section \<open>Properties\<close>

text \<open>
  C26: after a reload whose IPv4 networks do not overlap, looking up an IPv4 address gives the
  country listed with the network that contains it, in the sense of \<open>net.IPNet.Contains\<close>, and the
  empty string when no network of the input contains it.
\<close>

theorem geoip_lookup_country:
  assumes "sorts_starts srt" and "GeoIPDB_Reload srt es = Some s"
    and "disjoint_entries (ipv4Entries s)" and "length ip = 4"
  shows "(\<forall>country cidrs c n. (country, cidrs) \<in> set es \<and> c \<in> set cidrs \<and> ParseCIDR c = Some n \<and>
       length (netMask n) = 4 \<and> IPNet_Contains n ip \<longrightarrow> LookupCountry order s ip = country) \<and>
     ((\<forall>country cidrs c n. (country, cidrs) \<in> set es \<and> c \<in> set cidrs \<and> ParseCIDR c = Some n \<longrightarrow>
       \<not> IPNet_Contains n ip) \<longrightarrow> LookupCountry order s ip = '''')"
proof -
  have srt: "start_sorter srt" using assms(1) by unfold_locales
  show ?thesis
    using start_sorter.lookup_disjoint [OF srt assms(2,3)] start_sorter.lookup_uncovered [OF srt assms(2,4)]
      assms(4) by blast
qed

theorem geoip_lookup_country_witness:
  "LookupCountry [] (the (GeoIPDB_Reload (sort_key gstart) [(''US'', [''8.8.8.0/24'']), (''CN'', [''1.0.1.0/24''])]))
     [8, 8, 8, 8] = ''US''"
proof -
  let ?es = "[(''US'', [''8.8.8.0/24'']), (''CN'', [''1.0.1.0/24''])]"
  have "GeoIPDB_Reload (sort_key gstart) ?es \<noteq> None" by code_simp
  then obtain s where s: "GeoIPDB_Reload (sort_key gstart) ?es = Some s" by blast
  have "sorted_wrt apart_entries (ipv4Entries (the (GeoIPDB_Reload (sort_key gstart) ?es)))" by code_simp
  then have d: "disjoint_entries (ipv4Entries s)"
    using disjoint_entriesI stable.reload_wf [OF s] s by (simp add: snap_wf_def)
  have n: "ParseCIDR ''8.8.8.0/24'' = Some \<lparr>netIP = [8, 8, 8, 0], netMask = [255, 255, 255, 0]\<rparr>"
    by code_simp
  have "IPNet_Contains \<lparr>netIP = [8, 8, 8, 0], netMask = [255, 255, 255, 0]\<rparr> [8, 8, 8, 8]"
    by code_simp
  then show ?thesis
    using geoip_lookup_country [OF sorts_starts_sort_key s d, of "[8, 8, 8, 8]" "[]"] s n by auto
qed

text \<open>
  a lookup in a loaded table considers one entry only, the last one that starts at or below the
  address: its country is the answer when it contains the address, and the answer is empty
  otherwise, even where an enclosing network of the table contains the address.
\<close>

theorem geoip_lookup_last_start:
  assumes "sorts_starts srt" and "GeoIPDB_Reload srt es = Some s"
  shows "lookupIPv4 s addr =
     (let below = filter (\<lambda>e. gstart e \<le> addr) (ipv4Entries s)
      in if below \<noteq> [] \<and> geo_contains (last below) addr then gcountry (last below) else '''')"
proof -
  have "start_sorter srt" using assms(1) by unfold_locales
  then show ?thesis
    using assms(2) by (intro lookupIPv4_last_start start_sorter.reload_wf)
qed

lemma geoip_overlap_gap:
  "LookupCountry [] (the (GeoIPDB_Reload (sort_key gstart) [(''CN'', [''10.0.0.0/8'']), (''US'', [''10.1.0.0/16''])]))
     [10, 2, 0, 1] = ''''"
  by code_simp

theorem geoip_lookup_last_start_witness:
  "lookupIPv4 (the (GeoIPDB_Reload (sort_key gstart) [(''US'', [''10.1.0.0/16'']), (''CN'', [''10.0.0.0/8''])]))
     0x0A020001 = ''''"
proof -
  let ?r = "GeoIPDB_Reload (sort_key gstart) [(''US'', [''10.1.0.0/16'']), (''CN'', [''10.0.0.0/8''])]"
  have "?r \<noteq> None" by code_simp
  then obtain s where s: "?r = Some s" by blast
  have "let below = filter (\<lambda>e. gstart e \<le> 0x0A020001) (ipv4Entries (the ?r))
        in \<not> (below \<noteq> [] \<and> geo_contains (last below) 0x0A020001)" by code_simp
  then show ?thesis
    using geoip_lookup_last_start [OF sorts_starts_sort_key s, of "0x0A020001"]
    by (simp only: Let_def s option.sel if_False)
qed

text \<open>
  an IPv4-in-IPv6 CIDR in the input makes the loader panic: its mask has more than 32 one bits,
  and the shift count \<open>32 - ones\<close> is negative.
\<close>

theorem geoip_mapped_cidr_panics:
  assumes "ParseCIDR c = Some n" and "To4 (netIP n) \<noteq> []" and "length (netMask n) \<noteq> 4"
  shows "LoadFromCIDRs srt country (c # cidrs) old = None"
  using assms geo_entry_mapped by (simp add: LoadFromCIDRs_def)

theorem geoip_mapped_cidr_panics_witness:
  "LoadFromCIDRs (sort_key gstart) ''US'' [''::ffff:1.2.3.0/120''] NewGeoIPDB = None"
proof -
  have "ParseCIDR ''::ffff:1.2.3.0/120'' =
      Some \<lparr>netIP = v4InV6Prefix @ [1, 2, 3, 0], netMask = replicate 15 255 @ [0]\<rparr>"
    by code_simp
  then show ?thesis
    by (rule geoip_mapped_cidr_panics) simp_all
qed

end
