(* ===== verification/RuleProvider.thy ===== *)
theory RuleProvider
  imports GoNet GoTime
begin

text \<open>
  The rule provider of \<^verbatim>\<open>provider/rule_provider.go\<close>: a list of rules fetched from a URL, parsed line
  by line according to its behavior, and swapped in atomically. The HTTP client and the file system are
  arguments: a fetch has one of the outcomes of \<open>fetch\<close>, and the cache file is its content with its
  modification time, if it can be read. The abstract view of a rule set is the list of \<open>rule\<close>s its
  lines denote.
\<close>

record RuleProviderConfig =
  rpcName :: string
  rpcURL :: string
  rpcPath :: string
  rpcBehavior :: string
  rpcInterval :: nanos

record ruleSet =
  rsdomains :: "string \<Rightarrow> bool"
  domainSuffixes :: "string list"
  domainKeywords :: "string list"
  rscidrs :: "IPNet list"

datatype provider_error =
  EmptyURL | BadScheme | EmptyBehavior | UnknownBehavior string
| CreateRequest | FetchFailed | HTTPStatus int | ReadBody

record RuleProvider =
  rpname :: string
  rpurl :: string
  rppath :: string
  behavior :: string
  interval :: nanos
  rules :: "ruleSet option"
  updatedAt :: nanos
  lastErr :: "provider_error option"

section \<open>Parsing\<close>

definition parseDomainLine :: "string \<Rightarrow> ruleSet \<Rightarrow> ruleSet" where
  "parseDomainLine line rs =
     (let domain = ToLower line
      in rs\<lparr>rsdomains := (rsdomains rs)(domain := True), domainSuffixes := domainSuffixes rs @ [''.'' @ domain]\<rparr>)"

definition parseCIDRLine :: "string \<Rightarrow> ruleSet \<Rightarrow> ruleSet" where
  "parseCIDRLine line rs =
     (case ParseCIDR line of None \<Rightarrow> rs | Some ipnet \<Rightarrow> rs\<lparr>rscidrs := rscidrs rs @ [ipnet]\<rparr>)"

definition parseClassicalLine :: "string \<Rightarrow> ruleSet \<Rightarrow> ruleSet" where
  "parseClassicalLine line rs =
     (let parts = SplitN line (CHR '','') 3
      in if length parts < 2 then rs
         else let ruleType = ToUpper (TrimSpace (parts ! 0)); val = TrimSpace (parts ! 1)
              in if val = '''' then rs
                 else if ruleType = ''DOMAIN'' then rs\<lparr>rsdomains := (rsdomains rs)(ToLower val := True)\<rparr>
                 else if ruleType = ''DOMAIN-SUFFIX'' then
                   rs\<lparr>domainSuffixes := domainSuffixes rs @ [''.'' @ ToLower val]\<rparr>
                 else if ruleType = ''DOMAIN-KEYWORD'' then
                   rs\<lparr>domainKeywords := domainKeywords rs @ [ToLower val]\<rparr>
                 else if ruleType = ''IP-CIDR'' \<or> ruleType = ''IP-CIDR6'' then
                   (case ParseCIDR val of None \<Rightarrow> rs | Some ipnet \<Rightarrow> rs\<lparr>rscidrs := rscidrs rs @ [ipnet]\<rparr>)
                 else rs)"

definition parseLine :: "string \<Rightarrow> string \<Rightarrow> ruleSet \<Rightarrow> ruleSet" where
  "parseLine bhv raw rs =
     (let line = TrimSpace raw
      in if line = '''' \<or> HasPrefix line ''#'' then rs
         else if bhv = ''domain'' then parseDomainLine line rs
         else if bhv = ''ipcidr'' then parseCIDRLine line rs
         else if bhv = ''classical'' then parseClassicalLine line rs
         else rs)"

definition emptyRuleSet :: ruleSet where
  "emptyRuleSet = \<lparr>rsdomains = (\<lambda>_. False), domainSuffixes = [], domainKeywords = [], rscidrs = []\<rparr>"

definition parseRuleSet :: "string \<Rightarrow> bytes \<Rightarrow> ruleSet" where
  "parseRuleSet bhv data = fold (parseLine bhv) (Split (string_of data) (CHR 0x0A)) emptyRuleSet"

section \<open>The provider\<close>

definition NewRuleProvider :: "(string \<Rightarrow> (bytes \<times> nanos) option) \<Rightarrow> RuleProviderConfig \<Rightarrow> provider_error + RuleProvider" where
  "NewRuleProvider file cfg =
     (if rpcURL cfg = '''' then Inl EmptyURL
      else if \<not> HasPrefix (rpcURL cfg) ''http://'' \<and> \<not> HasPrefix (rpcURL cfg) ''https://'' then Inl BadScheme
      else if rpcBehavior cfg = '''' then Inl EmptyBehavior
      else if rpcBehavior cfg \<notin> {''domain'', ''ipcidr'', ''classical''} then Inl (UnknownBehavior (rpcBehavior cfg))
      else let iv = (if rpcInterval cfg \<le> 0 then 3600 * second else rpcInterval cfg);
               p = \<lparr>rpname = rpcName cfg, rpurl = rpcURL cfg, rppath = rpcPath cfg, behavior = rpcBehavior cfg,
                    interval = iv, rules = None, updatedAt = 0, lastErr = None\<rparr>
           in Inr (if rpcPath cfg \<noteq> '''' then
                     (case file (rpcPath cfg) of
                        None \<Rightarrow> p
                      | Some (data, modTime) \<Rightarrow>
                          p\<lparr>rules := Some (parseRuleSet (rpcBehavior cfg) data), updatedAt := modTime\<rparr>)
                   else p))"

datatype fetch =
  NoRequest
| NoResponse
| Response int (body: "bytes option")

definition setErr :: "provider_error \<Rightarrow> RuleProvider \<Rightarrow> RuleProvider \<times> provider_error option" where
  "setErr e p = (p\<lparr>lastErr := Some e\<rparr>, Some e)"

definition maxBytes :: nat where "maxBytes = 10 * 2 ^ 20"

text \<open>\<open>Refresh\<close> returns the provider and its error; what it writes to the cache file is \<open>cached\<close>.\<close>

definition Refresh :: "fetch \<Rightarrow> nanos \<Rightarrow> RuleProvider \<Rightarrow> RuleProvider \<times> provider_error option" where
  "Refresh f now p =
     (case f of
        NoRequest \<Rightarrow> setErr CreateRequest p
      | NoResponse \<Rightarrow> setErr FetchFailed p
      | Response status b \<Rightarrow>
          if status < 200 \<or> status \<ge> 300 then setErr (HTTPStatus status) p
          else (case b of
                  None \<Rightarrow> setErr ReadBody p
                | Some bd \<Rightarrow>
                    (p\<lparr>rules := Some (parseRuleSet (behavior p) (take maxBytes bd)), updatedAt := now, lastErr := None\<rparr>, None)))"

definition cached :: "fetch \<Rightarrow> RuleProvider \<Rightarrow> bytes option" where
  "cached f p =
     (case f of
        Response status (Some bd) \<Rightarrow>
          if status < 200 \<or> status \<ge> 300 \<or> rppath p = '''' then None else Some (take maxBytes bd)
      | _ \<Rightarrow> None)"

fun suffix_loop :: "string \<Rightarrow> string list \<Rightarrow> bool" where
  "suffix_loop lower [] = False"
| "suffix_loop lower (suffix # ss) = (HasSuffix lower suffix \<or> lower = drop 1 suffix \<or> suffix_loop lower ss)"

definition RuleProvider_MatchDomain :: "RuleProvider \<Rightarrow> string \<Rightarrow> bool" where
  "RuleProvider_MatchDomain p domain =
     (case rules p of
        None \<Rightarrow> False
      | Some rs \<Rightarrow>
          (let lower = ToLower domain
           in rsdomains rs lower \<or> suffix_loop lower (domainSuffixes rs) \<or>
              list_ex (\<lambda>kw. Contains lower kw) (domainKeywords rs)))"

definition RuleProvider_MatchIP :: "RuleProvider \<Rightarrow> string \<Rightarrow> bool" where
  "RuleProvider_MatchIP p ipStr =
     (case rules p of
        None \<Rightarrow> False
      | Some rs \<Rightarrow>
          (let ip = ParseIP ipStr
           in if ip = [] then False else list_ex (\<lambda>cidr. IPNet_Contains cidr ip) (rscidrs rs)))"

section \<open>What the lines mean\<close>

datatype rule = RDomain string | RSuffix string | RKeyword string | RCidr IPNet

definition cidr_rule :: "string \<Rightarrow> rule list" where
  "cidr_rule s = (case ParseCIDR s of None \<Rightarrow> [] | Some n \<Rightarrow> [RCidr n])"

definition line_rules :: "string \<Rightarrow> string \<Rightarrow> rule list" where
  "line_rules bhv raw =
     (let line = TrimSpace raw; parts = SplitN line (CHR '','') 3;
          ty = ToUpper (TrimSpace (parts ! 0)); val = TrimSpace (parts ! 1)
      in if line = '''' \<or> HasPrefix line ''#'' then []
         else if bhv = ''domain'' then [RDomain line, RSuffix line]
         else if bhv = ''ipcidr'' then cidr_rule line
         else if bhv \<noteq> ''classical'' \<or> length parts < 2 \<or> val = '''' then []
         else if ty = ''DOMAIN'' then [RDomain val]
         else if ty = ''DOMAIN-SUFFIX'' then [RSuffix val]
         else if ty = ''DOMAIN-KEYWORD'' then [RKeyword val]
         else if ty = ''IP-CIDR'' \<or> ty = ''IP-CIDR6'' then cidr_rule val
         else [])"

definition file_rules :: "string \<Rightarrow> bytes \<Rightarrow> rule list" where
  "file_rules bhv data = concat (map (line_rules bhv) (Split (string_of data) (CHR 0x0A)))"

fun domain_rule_holds :: "string \<Rightarrow> rule \<Rightarrow> bool" where
  "domain_rule_holds d (RDomain s) = (ToLower d = ToLower s)"
| "domain_rule_holds d (RSuffix s) = (ToLower d = ToLower s \<or> HasSuffix (ToLower d) (''.'' @ ToLower s))"
| "domain_rule_holds d (RKeyword s) = Contains (ToLower d) (ToLower s)"
| "domain_rule_holds d (RCidr n) = False"

fun ip_rule_holds :: "IP \<Rightarrow> rule \<Rightarrow> bool" where
  "ip_rule_holds ip (RCidr n) = IPNet_Contains n ip"
| "ip_rule_holds ip _ = False"

fun add_rule :: "rule \<Rightarrow> ruleSet \<Rightarrow> ruleSet" where
  "add_rule (RDomain s) rs = rs\<lparr>rsdomains := (rsdomains rs)(ToLower s := True)\<rparr>"
| "add_rule (RSuffix s) rs = rs\<lparr>domainSuffixes := domainSuffixes rs @ [''.'' @ ToLower s]\<rparr>"
| "add_rule (RKeyword s) rs = rs\<lparr>domainKeywords := domainKeywords rs @ [ToLower s]\<rparr>"
| "add_rule (RCidr n) rs = rs\<lparr>rscidrs := rscidrs rs @ [n]\<rparr>"

lemma parseLine_rules: "parseLine bhv raw rs = fold add_rule (line_rules bhv raw) rs"
  by (simp add: parseLine_def line_rules_def parseDomainLine_def parseCIDRLine_def parseClassicalLine_def
      cidr_rule_def Let_def split: option.splits)

lemma parseRuleSet_rules: "parseRuleSet bhv data = fold add_rule (file_rules bhv data) emptyRuleSet"
proof -
  have "fold (parseLine bhv) ls rs = fold add_rule (concat (map (line_rules bhv) ls)) rs" for ls rs
    by (induction ls arbitrary: rs) (simp_all add: parseLine_rules)
  then show ?thesis by (simp add: parseRuleSet_def file_rules_def)
qed

lemma suffix_loop_iff: "suffix_loop lower ss \<longleftrightarrow> (\<exists>s\<in>set ss. HasSuffix lower s \<or> lower = drop 1 s)"
  by (induction ss) auto

definition set_matches :: "ruleSet \<Rightarrow> string \<Rightarrow> bool" where
  "set_matches rs d \<longleftrightarrow> rsdomains rs (ToLower d) \<or> suffix_loop (ToLower d) (domainSuffixes rs) \<or>
     list_ex (\<lambda>kw. Contains (ToLower d) kw) (domainKeywords rs)"

lemma set_matches_add: "set_matches (add_rule r rs) d \<longleftrightarrow> set_matches rs d \<or> domain_rule_holds d r"
  by (cases r) (auto simp: set_matches_def suffix_loop_iff)

lemma set_matches_fold: "set_matches (fold add_rule rls rs) d \<longleftrightarrow> set_matches rs d \<or> (\<exists>r\<in>set rls. domain_rule_holds d r)"
  by (induction rls arbitrary: rs) (auto simp: set_matches_add)

lemma cidrs_fold: "list_ex P (rscidrs (fold add_rule rls rs)) \<longleftrightarrow> list_ex P (rscidrs rs) \<or> (\<exists>n. RCidr n \<in> set rls \<and> P n)"
proof (induction rls arbitrary: rs)
  case (Cons r rls)
  then show ?case by (cases r) auto
qed simp

lemma ip_rule_holds_iff: "ip_rule_holds ip r \<longleftrightarrow> (\<exists>n. r = RCidr n \<and> IPNet_Contains n ip)"
  by (cases r) auto

text \<open>C14: after a successful refresh the provider matches exactly what the fetched lines say: a domain
  is matched if and only if some line of the body denotes a domain, suffix or keyword rule that holds of
  it, an address if and only if some line denotes a network that contains it.\<close>

theorem provider_matches_lines:
  assumes "Refresh f now p = (p', None)"
  shows "\<exists>status bd. f = Response status (Some bd) \<and>
    (RuleProvider_MatchDomain p' d \<longleftrightarrow> (\<exists>r\<in>set (file_rules (behavior p) (take maxBytes bd)). domain_rule_holds d r)) \<and>
    (RuleProvider_MatchIP p' ipStr \<longleftrightarrow> ParseIP ipStr \<noteq> [] \<and>
       (\<exists>r\<in>set (file_rules (behavior p) (take maxBytes bd)). ip_rule_holds (ParseIP ipStr) r))"
proof -
  obtain status bd where f: "f = Response status (Some bd)"
    and p': "rules p' = Some (parseRuleSet (behavior p) (take maxBytes bd))"
    using assms by (auto simp: Refresh_def setErr_def split: fetch.splits option.splits if_splits)
  let ?rls = "file_rules (behavior p) (take maxBytes bd)"
  have "RuleProvider_MatchDomain p' d \<longleftrightarrow> set_matches (fold add_rule ?rls emptyRuleSet) d"
    by (simp add: RuleProvider_MatchDomain_def p' parseRuleSet_rules set_matches_def Let_def)
  also have "\<dots> \<longleftrightarrow> (\<exists>r\<in>set ?rls. domain_rule_holds d r)"
    by (simp add: set_matches_fold) (simp add: set_matches_def emptyRuleSet_def)
  finally have "RuleProvider_MatchDomain p' d \<longleftrightarrow> (\<exists>r\<in>set ?rls. domain_rule_holds d r)" .
  moreover have "RuleProvider_MatchIP p' ipStr \<longleftrightarrow> ParseIP ipStr \<noteq> [] \<and>
      (\<exists>n. RCidr n \<in> set ?rls \<and> IPNet_Contains n (ParseIP ipStr))"
    by (simp add: RuleProvider_MatchIP_def p' parseRuleSet_rules cidrs_fold Let_def) (simp add: emptyRuleSet_def)
  ultimately show ?thesis using f by (auto simp: ip_rule_holds_iff)
qed
definition classical_provider :: RuleProvider where
  "classical_provider = \<lparr>rpname = ''ads'', rpurl = ''https://x'', rppath = '''', behavior = ''classical'',
     interval = second, rules = None, updatedAt = 0, lastErr = None\<rparr>"

definition classical_body :: bytes where
  "classical_body = bytes_of (''# ads'' @ [CHR 0x0A] @ ''DOMAIN-SUFFIX, Ads.com,no-resolve'' @ [CHR 0x0A])"

theorem provider_matches_lines_witness:
  "RuleProvider_MatchDomain (fst (Refresh (Response 200 (Some classical_body)) 5 classical_provider)) ''WWW.ads.com''"
proof -
  let ?f = "Response 200 (Some classical_body)"
  have "file_rules ''classical'' (take (length classical_body) classical_body) = [RSuffix ''Ads.com'']" by code_simp
  moreover have "take maxBytes classical_body = take (length classical_body) classical_body"
    by (simp add: maxBytes_def classical_body_def)
  ultimately have r: "file_rules (behavior classical_provider) (take maxBytes classical_body) = [RSuffix ''Ads.com'']"
    by (simp add: classical_provider_def)
  have h: "domain_rule_holds ''WWW.ads.com'' (RSuffix ''Ads.com'')" by code_simp
  have "Refresh ?f 5 classical_provider = (fst (Refresh ?f 5 classical_provider), None)"
    by (simp add: Refresh_def)
  from provider_matches_lines [OF this, of "''WWW.ads.com''"] show ?thesis using r h by simp
qed

text \<open>A refresh that fails leaves the last good rule set, its time and the cache file alone, and
  records the error.\<close>

lemma refresh_failure_keeps:
  assumes "Refresh f now p = (p', Some e)"
  shows "rules p' = rules p" "updatedAt p' = updatedAt p" "lastErr p' = Some e" "cached f p = None"
  using assms by (auto simp: Refresh_def setErr_def cached_def split: fetch.splits option.splits if_splits)

text \<open>The slice \<open>suffix[1:]\<close> of \<open>MatchDomain\<close> is never taken of an empty string.\<close>

lemma parsed_suffixes_nonempty: "'''' \<notin> set (domainSuffixes (parseRuleSet bhv data))"
proof -
  have "'''' \<in> set (domainSuffixes (fold add_rule rls rs)) \<longleftrightarrow> '''' \<in> set (domainSuffixes rs)" for rls rs
  proof (induction rls arbitrary: rs)
    case (Cons r rls)
    then show ?case by (cases r) auto
  qed simp
  then show ?thesis by (simp add: parseRuleSet_rules emptyRuleSet_def)
qed

end
