(* ===== verification/RuleChain.thy ===== *)
theory RuleChain
  imports DomainTrie GeoIP RuleProvider
begin

text \<open>
  The ordered rule chain of \<^verbatim>\<open>router/rule_chain.go\<close>, \<^verbatim>\<open>router/matcher_port.go\<close> and
  \<^verbatim>\<open>router/matcher_srcip.go\<close>. A matcher is a datatype with one constructor per Go type, and holds what
  that type's fields hold; a \<open>map[string]struct{}\<close> is a predicate. The GeoIP and GeoSite databases and
  the rule providers are pointers to data that is reloaded at run time: matching reads their current
  contents from the environment \<open>env\<close>, where \<open>None\<close> is a nil pointer. A compiled chain holds the
  addresses of its providers, taken from the map of providers at compile time; the environment is the
  store from addresses to providers. A nil \<open>net.IP\<close> is the empty list.
\<close>

section \<open>Contexts and matchers\<close>

record MatchContext =
  Domain :: string
  CtxIP :: IP
  Port :: u16
  SrcIP :: IP
  Process :: string
  Protocol :: string
  NetworkType :: string

type_synonym provider_ref = nat

record env =
  envGeoIP :: "geoIPSnapshot option"
  envOrder :: "string list"
  envGeoSite :: "geoSiteSnapshot option"
  envProviders :: "provider_ref \<Rightarrow> RuleProvider option"

type_synonym strset = "string \<Rightarrow> bool"

datatype Matcher =
  domainExactMatcher strset
| domainSuffixMatcher DomainTrie
| domainKeywordMatcher "string list"
| ipCIDRMatcher "IPNet list"
| geoIPMatcher strset
| geoSiteMatcher "string list"
| portMatcher "(u16 \<times> u16) list"
| srcIPMatcher "IPNet list"
| processMatcher strset
| protocolMatcher strset
| networkTypeMatcher strset
| ruleProviderMatcher "provider_ref list"

datatype port_error = PortSyntax num_error | PortZero | PortOrder | NoPorts

datatype chain_error =
  InvalidLogic nat string | ActionRequired nat | InvalidAction nat string
| ChainCIDR nat string | ChainPort nat port_error | ChainSrcIP nat string | NoSrcIPs nat
| ProviderNotFound nat string | NoCondition nat

text \<open>The loops that fill a \<open>map[string]struct{}\<close>.\<close>

definition set_of :: "(string \<Rightarrow> string) \<Rightarrow> string list \<Rightarrow> strset" where
  "set_of f xs = fold (\<lambda>x m. m(f x := True)) xs (\<lambda>_. False)"

definition newDomainExactMatcher :: "string list \<Rightarrow> Matcher" where
  "newDomainExactMatcher domains = domainExactMatcher (set_of ToLower domains)"

definition newDomainSuffixMatcher :: "string list \<Rightarrow> Matcher" where
  "newDomainSuffixMatcher suffixes =
     domainSuffixMatcher
       (fold (\<lambda>s t. let lower = ToLower s
                    in DomainTrie_Insert lower ''match'' (DomainTrie_Insert (''+.'' @ lower) ''match'' t))
             suffixes NewDomainTrie)"

definition newDomainKeywordMatcher :: "string list \<Rightarrow> Matcher" where
  "newDomainKeywordMatcher keywords = domainKeywordMatcher (map ToLower keywords)"

fun parse_cidrs :: "string list \<Rightarrow> string + IPNet list" where
  "parse_cidrs [] = Inr []"
| "parse_cidrs (c # cs) =
     (case ParseCIDR c of
        None \<Rightarrow> Inl c
      | Some n \<Rightarrow> rbind (parse_cidrs cs) (\<lambda>ns. Inr (n # ns)))"

definition newIPCIDRMatcher :: "string list \<Rightarrow> string + Matcher" where
  "newIPCIDRMatcher cidrs = rbind (parse_cidrs cidrs) (\<lambda>ns. Inr (ipCIDRMatcher ns))"

definition newGeoIPMatcher :: "string list \<Rightarrow> Matcher" where
  "newGeoIPMatcher countries = geoIPMatcher (set_of ToUpper countries)"

definition newGeoSiteMatcher :: "string list \<Rightarrow> Matcher" where
  "newGeoSiteMatcher categories = geoSiteMatcher (map ToLower categories)"

definition parsePort :: "string \<Rightarrow> port_error + u16" where
  "parsePort s =
     (case ParseUint (TrimSpace s) 16 of
        Inl e \<Rightarrow> Inl (PortSyntax e)
      | Inr n \<Rightarrow> if n = 0 then Inl PortZero else Inr (of_nat n))"

definition parse_range :: "string \<Rightarrow> port_error + (u16 \<times> u16)" where
  "parse_range spec =
     (case Cut spec (CHR ''-'') of
        Some (a, b) \<Rightarrow>
          rbind (parsePort a) (\<lambda>lo. rbind (parsePort b) (\<lambda>hi. if lo > hi then Inl PortOrder else Inr (lo, hi)))
      | None \<Rightarrow> rbind (parsePort spec) (\<lambda>p. Inr (p, p)))"

fun parse_ranges :: "string list \<Rightarrow> port_error + (u16 \<times> u16) list" where
  "parse_ranges [] = Inr []"
| "parse_ranges (spec0 # specs) =
     (let spec = TrimSpace spec0
      in if spec = '''' then parse_ranges specs
         else rbind (parse_range spec) (\<lambda>r. rbind (parse_ranges specs) (\<lambda>rs. Inr (r # rs))))"

definition newPortMatcher :: "string list \<Rightarrow> port_error + Matcher" where
  "newPortMatcher specs =
     rbind (parse_ranges specs) (\<lambda>rs. if rs = [] then Inl NoPorts else Inr (portMatcher rs))"

definition src_net :: "string \<Rightarrow> IPNet option" where
  "src_net spec =
     (case ParseCIDR spec of
        Some n \<Rightarrow> Some n
      | None \<Rightarrow>
          (let ip = ParseIP spec
           in if ip = [] then None
              else if To4 ip \<noteq> [] then Some \<lparr>netIP = To4 ip, netMask = CIDRMask 32 32\<rparr>
              else Some \<lparr>netIP = ip, netMask = CIDRMask 128 128\<rparr>))"

fun src_nets :: "string list \<Rightarrow> string + IPNet list" where
  "src_nets [] = Inr []"
| "src_nets (s # ss) =
     (case src_net s of None \<Rightarrow> Inl s | Some n \<Rightarrow> rbind (src_nets ss) (\<lambda>ns. Inr (n # ns)))"

definition newSrcIPMatcher :: "nat \<Rightarrow> string list \<Rightarrow> chain_error + Matcher" where
  "newSrcIPMatcher i specs =
     rbind (map_err (ChainSrcIP i) (src_nets specs)) (\<lambda>ns. if ns = [] then Inl (NoSrcIPs i) else Inr (srcIPMatcher ns))"

definition newProcessMatcher :: "string list \<Rightarrow> Matcher" where
  "newProcessMatcher names = processMatcher (set_of ToLower names)"

definition newProtocolMatcher :: "string list \<Rightarrow> Matcher" where
  "newProtocolMatcher protocols = protocolMatcher (set_of ToLower protocols)"

definition newNetworkTypeMatcher :: "string list \<Rightarrow> Matcher" where
  "newNetworkTypeMatcher types = networkTypeMatcher (set_of ToLower types)"
section \<open>Matching\<close>

definition domainExactMatcher_Match :: "strset \<Rightarrow> MatchContext \<Rightarrow> bool" where
  "domainExactMatcher_Match domains ctx = (if Domain ctx = '''' then False else domains (ToLower (Domain ctx)))"

definition domainSuffixMatcher_Match :: "DomainTrie \<Rightarrow> MatchContext \<Rightarrow> bool" where
  "domainSuffixMatcher_Match t ctx = (if Domain ctx = '''' then False else snd (DomainTrie_Lookup t (Domain ctx)))"

definition domainKeywordMatcher_Match :: "string list \<Rightarrow> MatchContext \<Rightarrow> bool" where
  "domainKeywordMatcher_Match keywords ctx =
     (if Domain ctx = '''' then False
      else let d = ToLower (Domain ctx) in list_ex (\<lambda>k. Contains d k) keywords)"

definition ipCIDRMatcher_Match :: "IPNet list \<Rightarrow> MatchContext \<Rightarrow> bool" where
  "ipCIDRMatcher_Match nets ctx = (if CtxIP ctx = [] then False else list_ex (\<lambda>n. IPNet_Contains n (CtxIP ctx)) nets)"

definition geoIPMatcher_Match :: "env \<Rightarrow> strset \<Rightarrow> MatchContext \<Rightarrow> bool" where
  "geoIPMatcher_Match e countries ctx =
     (case envGeoIP e of
        None \<Rightarrow> False
      | Some db \<Rightarrow>
          if CtxIP ctx = [] then False
          else countries (ToUpper (LookupCountry (envOrder e) db (CtxIP ctx))))"

definition site_matches :: "string \<Rightarrow> string \<Rightarrow> bool" where
  "site_matches domain d0 =
     (let d = ToLower d0
      in if HasPrefix d ''+.'' then (let base = drop 2 d in domain = base \<or> HasSuffix domain (''.'' @ base))
         else domain = d \<or> HasSuffix domain (''.'' @ d))"

definition geoSiteMatcher_Match :: "env \<Rightarrow> string list \<Rightarrow> MatchContext \<Rightarrow> bool" where
  "geoSiteMatcher_Match e categories ctx =
     (case envGeoSite e of
        None \<Rightarrow> False
      | Some db \<Rightarrow>
          if Domain ctx = '''' then False
          else let domain = ToLower (Domain ctx)
               in list_ex (\<lambda>cat. list_ex (\<lambda>d. site_matches domain d) (GeoSiteDB_Lookup db cat)) categories)"

definition portMatcher_Match :: "(u16 \<times> u16) list \<Rightarrow> MatchContext \<Rightarrow> bool" where
  "portMatcher_Match ranges ctx =
     (if Port ctx = 0 then False else list_ex (\<lambda>(lo, hi). Port ctx \<ge> lo \<and> Port ctx \<le> hi) ranges)"

definition srcIPMatcher_Match :: "IPNet list \<Rightarrow> MatchContext \<Rightarrow> bool" where
  "srcIPMatcher_Match nets ctx = (if SrcIP ctx = [] then False else list_ex (\<lambda>n. IPNet_Contains n (SrcIP ctx)) nets)"

definition processMatcher_Match :: "strset \<Rightarrow> MatchContext \<Rightarrow> bool" where
  "processMatcher_Match names ctx = (if Process ctx = '''' then False else names (ToLower (Process ctx)))"

definition protocolMatcher_Match :: "strset \<Rightarrow> MatchContext \<Rightarrow> bool" where
  "protocolMatcher_Match protocols ctx = (if Protocol ctx = '''' then False else protocols (ToLower (Protocol ctx)))"

definition networkTypeMatcher_Match :: "strset \<Rightarrow> MatchContext \<Rightarrow> bool" where
  "networkTypeMatcher_Match types ctx = (if NetworkType ctx = '''' then False else types (ToLower (NetworkType ctx)))"

definition ruleProviderMatcher_Match :: "env \<Rightarrow> provider_ref list \<Rightarrow> MatchContext \<Rightarrow> bool" where
  "ruleProviderMatcher_Match e refs ctx =
     list_ex (\<lambda>ref. case envProviders e ref of
                       None \<Rightarrow> False
                     | Some rp \<Rightarrow> Domain ctx \<noteq> '''' \<and> RuleProvider_MatchDomain rp (Domain ctx) \<or>
                                  CtxIP ctx \<noteq> [] \<and> RuleProvider_MatchIP rp (IP_String (CtxIP ctx))) refs"

fun Matcher_Match :: "env \<Rightarrow> Matcher \<Rightarrow> MatchContext \<Rightarrow> bool" where
  "Matcher_Match e (domainExactMatcher s) ctx = domainExactMatcher_Match s ctx"
| "Matcher_Match e (domainSuffixMatcher t) ctx = domainSuffixMatcher_Match t ctx"
| "Matcher_Match e (domainKeywordMatcher ks) ctx = domainKeywordMatcher_Match ks ctx"
| "Matcher_Match e (ipCIDRMatcher ns) ctx = ipCIDRMatcher_Match ns ctx"
| "Matcher_Match e (geoIPMatcher s) ctx = geoIPMatcher_Match e s ctx"
| "Matcher_Match e (geoSiteMatcher cs) ctx = geoSiteMatcher_Match e cs ctx"
| "Matcher_Match e (portMatcher rs) ctx = portMatcher_Match rs ctx"
| "Matcher_Match e (srcIPMatcher ns) ctx = srcIPMatcher_Match ns ctx"
| "Matcher_Match e (processMatcher s) ctx = processMatcher_Match s ctx"
| "Matcher_Match e (protocolMatcher s) ctx = protocolMatcher_Match s ctx"
| "Matcher_Match e (networkTypeMatcher s) ctx = networkTypeMatcher_Match s ctx"
| "Matcher_Match e (ruleProviderMatcher ps) ctx = ruleProviderMatcher_Match e ps ctx"

datatype logicOp = logicAnd | logicOr

record compiledRule =
  matchers :: "Matcher list"
  logic :: logicOp
  negate :: bool
  action :: string

definition compiledRule_Match :: "env \<Rightarrow> compiledRule \<Rightarrow> MatchContext \<Rightarrow> bool" where
  "compiledRule_Match e r ctx =
     (if matchers r = [] then False
      else let result = (case logic r of
                           logicOr \<Rightarrow> list_ex (\<lambda>m. Matcher_Match e m ctx) (matchers r)
                         | logicAnd \<Rightarrow> list_all (\<lambda>m. Matcher_Match e m ctx) (matchers r))
           in if negate r then \<not> result else result)"

section \<open>The compiler\<close>

record RuleMatch =
  mDomain :: "string list"
  mDomainSuffix :: "string list"
  mDomainKeyword :: "string list"
  mGeoSite :: "string list"
  mIPCIDR :: "string list"
  mGeoIP :: "string list"
  mPort :: "string list"
  mSrcIP :: "string list"
  mProcess :: "string list"
  mProtocol :: "string list"
  mNetworkType :: "string list"
  mRuleProvider :: "string list"

record RuleChainEntry =
  entryMatch :: RuleMatch
  entryLogic :: string
  entryNegate :: bool
  entryAction :: string

definition parse_logic :: "nat \<Rightarrow> string \<Rightarrow> chain_error + logicOp" where
  "parse_logic i s =
     (let l = ToLower s
      in if l = '''' \<or> l = ''and'' then Inr logicAnd else if l = ''or'' then Inr logicOr else Inl (InvalidLogic i s))"

definition parse_action :: "nat \<Rightarrow> string \<Rightarrow> chain_error + string" where
  "parse_action i s =
     (let a = ToLower s
      in if a = '''' then Inl (ActionRequired i)
         else if a = ''proxy'' \<or> a = ''direct'' \<or> a = ''reject'' then Inr a else Inl (InvalidAction i s))"

fun find_providers :: "nat \<Rightarrow> (string \<Rightarrow> provider_ref option) \<Rightarrow> string list \<Rightarrow> chain_error + provider_ref list" where
  "find_providers i known [] = Inr []"
| "find_providers i known (n # ns) =
     (case known n of
        None \<Rightarrow> Inl (ProviderNotFound i n)
      | Some rp \<Rightarrow> rbind (find_providers i known ns) (\<lambda>ps. Inr (rp # ps)))"

text \<open>One conditional \<open>append\<close> of the compiler: nothing for an empty condition list.\<close>

definition cond :: "string list \<Rightarrow> (string list \<Rightarrow> chain_error + Matcher) \<Rightarrow> chain_error + Matcher list" where
  "cond vs mk = (if vs = [] then Inr [] else rbind (mk vs) (\<lambda>m. Inr [m]))"

definition matcher_groups :: "nat \<Rightarrow> (string \<Rightarrow> provider_ref option) \<Rightarrow> RuleMatch \<Rightarrow> (chain_error + Matcher list) list" where
  "matcher_groups i known m =
     [cond (mDomain m) (\<lambda>v. Inr (newDomainExactMatcher v)),
      cond (mDomainSuffix m) (\<lambda>v. Inr (newDomainSuffixMatcher v)),
      cond (mDomainKeyword m) (\<lambda>v. Inr (newDomainKeywordMatcher v)),
      cond (mGeoSite m) (\<lambda>v. Inr (newGeoSiteMatcher v)),
      cond (mIPCIDR m) (\<lambda>v. map_err (ChainCIDR i) (newIPCIDRMatcher v)),
      cond (mGeoIP m) (\<lambda>v. Inr (newGeoIPMatcher v)),
      cond (mPort m) (\<lambda>v. map_err (ChainPort i) (newPortMatcher v)),
      cond (mSrcIP m) (newSrcIPMatcher i),
      cond (mProcess m) (\<lambda>v. Inr (newProcessMatcher v)),
      cond (mProtocol m) (\<lambda>v. Inr (newProtocolMatcher v)),
      cond (mNetworkType m) (\<lambda>v. Inr (newNetworkTypeMatcher v)),
      cond (mRuleProvider m) (\<lambda>v. rbind (find_providers i known v) (\<lambda>ps. Inr (ruleProviderMatcher ps)))]"

fun append_groups :: "('e + 'a list) list \<Rightarrow> 'e + 'a list" where
  "append_groups [] = Inr []"
| "append_groups (g # gs) = rbind g (\<lambda>ms. rbind (append_groups gs) (\<lambda>rest. Inr (ms @ rest)))"

definition compile_entry :: "nat \<Rightarrow> (string \<Rightarrow> provider_ref option) \<Rightarrow> RuleChainEntry \<Rightarrow> chain_error + compiledRule" where
  "compile_entry i known entry =
     rbind (parse_logic i (entryLogic entry)) (\<lambda>lg.
     rbind (parse_action i (entryAction entry)) (\<lambda>act.
     rbind (append_groups (matcher_groups i known (entryMatch entry))) (\<lambda>ms.
       if ms = [] then Inl (NoCondition i)
       else Inr \<lparr>matchers = ms, logic = lg, negate = entryNegate entry, action = act\<rparr>)))"

fun compile_from :: "nat \<Rightarrow> (string \<Rightarrow> provider_ref option) \<Rightarrow> RuleChainEntry list \<Rightarrow> chain_error + compiledRule list" where
  "compile_from i known [] = Inr []"
| "compile_from i known (entry # entries) =
     rbind (compile_entry i known entry) (\<lambda>r. rbind (compile_from (i + 1) known entries) (\<lambda>rs. Inr (r # rs)))"

definition CompileRuleChain :: "(string \<Rightarrow> provider_ref option) \<Rightarrow> RuleChainEntry list \<Rightarrow> chain_error + compiledRule list" where
  "CompileRuleChain known entries = compile_from 0 known entries"

section \<open>What an entry means\<close>

text \<open>\<open>group_specs\<close> lists the condition groups of an entry, each with whether it holds of a connection,
  stated on the entry's own strings.\<close>

definition port_in :: "u16 \<Rightarrow> string \<Rightarrow> bool" where
  "port_in p s =
     (TrimSpace s \<noteq> '''' \<and> (case parse_range (TrimSpace s) of Inl _ \<Rightarrow> False | Inr (lo, hi) \<Rightarrow> lo \<le> p \<and> p \<le> hi))"

definition ip_in :: "IP \<Rightarrow> IPNet option \<Rightarrow> bool" where
  "ip_in ip n = (case n of None \<Rightarrow> False | Some n \<Rightarrow> IPNet_Contains n ip)"

definition provider_has :: "env \<Rightarrow> MatchContext \<Rightarrow> provider_ref \<Rightarrow> bool" where
  "provider_has e ctx ref =
     (case envProviders e ref of
        None \<Rightarrow> False
      | Some rp \<Rightarrow> Domain ctx \<noteq> '''' \<and> RuleProvider_MatchDomain rp (Domain ctx) \<or>
                   CtxIP ctx \<noteq> [] \<and> RuleProvider_MatchIP rp (IP_String (CtxIP ctx)))"

definition in_category :: "env \<Rightarrow> string \<Rightarrow> string \<Rightarrow> bool" where
  "in_category e d cat =
     (case envGeoSite e of
        None \<Rightarrow> False
      | Some db \<Rightarrow> list_ex (\<lambda>s. site_matches (ToLower d) s) (GeoSiteDB_Lookup db (ToLower cat)))"

definition in_country :: "env \<Rightarrow> IP \<Rightarrow> string \<Rightarrow> bool" where
  "in_country e ip c =
     (case envGeoIP e of None \<Rightarrow> False | Some db \<Rightarrow> ToUpper c = ToUpper (LookupCountry (envOrder e) db ip))"

text \<open>A suffix covers the domain it names and its subdomains; \<open>+.\<close> alone covers every domain.\<close>

definition suffix_covers :: "string \<Rightarrow> string \<Rightarrow> bool" where
  "suffix_covers s d \<longleftrightarrow> s = ''+.'' \<or> covers_domain s d"

definition group_specs :: "(string \<Rightarrow> provider_ref option) \<Rightarrow> env \<Rightarrow> MatchContext \<Rightarrow> RuleMatch \<Rightarrow> (string list \<times> bool) list" where
  "group_specs known e ctx m =
     [(mDomain m, Domain ctx \<noteq> '''' \<and> (\<exists>d\<in>set (mDomain m). ToLower d = ToLower (Domain ctx))),
      (mDomainSuffix m, Domain ctx \<noteq> '''' \<and> (\<exists>s\<in>set (mDomainSuffix m). suffix_covers s (Domain ctx))),
      (mDomainKeyword m, Domain ctx \<noteq> '''' \<and> (\<exists>k\<in>set (mDomainKeyword m). Contains (ToLower (Domain ctx)) (ToLower k))),
      (mGeoSite m, Domain ctx \<noteq> '''' \<and> (\<exists>c\<in>set (mGeoSite m). in_category e (Domain ctx) c)),
      (mIPCIDR m, CtxIP ctx \<noteq> [] \<and> (\<exists>c\<in>set (mIPCIDR m). ip_in (CtxIP ctx) (ParseCIDR c))),
      (mGeoIP m, CtxIP ctx \<noteq> [] \<and> (\<exists>c\<in>set (mGeoIP m). in_country e (CtxIP ctx) c)),
      (mPort m, Port ctx \<noteq> 0 \<and> (\<exists>s\<in>set (mPort m). port_in (Port ctx) s)),
      (mSrcIP m, SrcIP ctx \<noteq> [] \<and> (\<exists>s\<in>set (mSrcIP m). ip_in (SrcIP ctx) (src_net s))),
      (mProcess m, Process ctx \<noteq> '''' \<and> (\<exists>n\<in>set (mProcess m). ToLower n = ToLower (Process ctx))),
      (mProtocol m, Protocol ctx \<noteq> '''' \<and> (\<exists>n\<in>set (mProtocol m). ToLower n = ToLower (Protocol ctx))),
      (mNetworkType m, NetworkType ctx \<noteq> '''' \<and> (\<exists>n\<in>set (mNetworkType m). ToLower n = ToLower (NetworkType ctx))),
      (mRuleProvider m, \<exists>n\<in>set (mRuleProvider m). case known n of None \<Rightarrow> False | Some ref \<Rightarrow> provider_has e ctx ref)]"

text \<open>An entry holds if all (or, with logic \<open>or\<close>, some) of its non-empty groups hold, inverted under
  \<open>negate\<close>.\<close>

definition entry_holds :: "(string \<Rightarrow> provider_ref option) \<Rightarrow> env \<Rightarrow> RuleChainEntry \<Rightarrow> MatchContext \<Rightarrow> bool" where
  "entry_holds known e entry ctx \<longleftrightarrow>
     (let groups = filter (\<lambda>(vs, b). vs \<noteq> []) (group_specs known e ctx (entryMatch entry))
      in (if ToLower (entryLogic entry) = ''or'' then \<exists>(vs, b)\<in>set groups. b else \<forall>(vs, b)\<in>set groups. b)
         \<noteq> entryNegate entry)"

section \<open>Each matcher implements its condition\<close>

lemma set_of_iff: "set_of f xs y \<longleftrightarrow> (\<exists>x\<in>set xs. f x = y)"
proof -
  have "fold (\<lambda>x m. m(f x := True)) xs m y \<longleftrightarrow> m y \<or> (\<exists>x\<in>set xs. f x = y)" for m
    by (induction xs arbitrary: m) auto
  then show ?thesis by (simp add: set_of_def)
qed

lemma lower_char_eq_plus: "lower_char c = CHR ''+'' \<longleftrightarrow> c = CHR ''+''"
proof
  assume h: "lower_char c = CHR ''+''"
  show "c = CHR ''+''"
  proof (cases "is_upper c")
    case True
    then have "(of_char c :: nat) + 32 = 43" using of_char_lower [of c] h by simp
    then show ?thesis using True by (simp add: is_upper_def)
  qed (use h in \<open>simp add: lower_char_def\<close>)
qed simp

lemma HasPrefix_ToLower_wild: "HasPrefix (ToLower s) ''+.'' \<longleftrightarrow> HasPrefix s ''+.''"
  by (cases s; cases "tl s") (simp_all add: lower_char_eq_plus)

lemma HasSuffix_ToLower_dot: "HasSuffix (ToLower s) ''.'' \<longleftrightarrow> HasSuffix s ''.''"
  by (simp add: HasSuffix_def ToLower_def drop_map map_eq_Cons_conv)

lemma reverseDomain_ToLower: "reverseDomain (ToLower s) = reverseDomain s"
proof -
  have "TrimPrefix (ToLower s) ''+.'' = ToLower (TrimPrefix s ''+.'')" for s
    by (simp add: TrimPrefix_def HasPrefix_ToLower_wild) (simp add: ToLower_def drop_map)
  moreover have "TrimSuffix (ToLower s) ''.'' = ToLower (TrimSuffix s ''.'')" for s
    by (simp add: TrimSuffix_def HasSuffix_ToLower_dot) (simp add: ToLower_def take_map)
  ultimately show ?thesis by (simp add: reverseDomain_def Let_def)
qed

text \<open>The suffix matcher inserts every suffix twice, once behind \<open>+.\<close>; except for \<open>+.\<close> itself the second
  entry covers nothing new.\<close>

lemma reverseDomain_wild: "\<not> HasPrefix s ''+.'' \<Longrightarrow> reverseDomain (''+.'' @ s) = reverseDomain s"
  by (simp add: reverseDomain_def TrimPrefix_def Let_def)

lemma reverseDomain_wild_wild:
  assumes "t \<noteq> []"
  shows "reverseDomain (''+.'' @ ''+.'' @ t) = reverseDomain (''+.'' @ t) @ [''+'']"
proof -
  have trim: "TrimSuffix (''+.'' @ t) ''.'' = ''+.'' @ TrimSuffix t ''.''"
    using assms by (cases t rule: rev_cases) (auto simp: TrimSuffix_def HasSuffix_iff)
  have "Split (ToLower (''+.'' @ TrimSuffix t ''.'')) (CHR ''.'') = ''+'' # Split (ToLower (TrimSuffix t ''.'')) (CHR ''.'')"
    by (simp add: ToLower_def lower_char_def is_upper_def)
  then show ?thesis
    unfolding reverseDomain_def by (simp add: TrimPrefix_def Let_def trim [simplified])
qed

lemma covers_domain_cong: "reverseDomain r = reverseDomain r' \<Longrightarrow> covers_domain r d = covers_domain r' d"
  by (simp add: covers_domain_iff)

lemma candidates_snoc: "c @ [x] \<in> set (candidates ps) \<Longrightarrow> c \<noteq> [] \<Longrightarrow> c \<in> set (candidates ps)"
proof -
  assume "c @ [x] \<in> set (candidates ps)" and "c \<noteq> []"
  then obtain k where k: "k < length ps" "c @ [x] = take k ps @ [''+''] \<or> c @ [x] = take (Suc k) ps"
    by (auto simp: set_candidates)
  then have "c = take k ps"
    by (auto simp: take_Suc_conv_app_nth)
  moreover from this \<open>c \<noteq> []\<close> obtain j where "k = Suc j" by (cases k) auto
  ultimately show ?thesis
    using k(1) by (auto simp: set_candidates intro!: exI [of _ j])
qed

lemma covers_wild: "covers_domain (''+.'' @ s) d \<or> covers_domain s d \<longleftrightarrow> suffix_covers s d"
proof (cases "HasPrefix s ''+.''")
  case False
  then show ?thesis
    unfolding suffix_covers_def covers_domain_cong [OF reverseDomain_wild [OF False]]
    by (cases "s = ''+.''") simp_all
next
  case True
  then obtain t where t: "s = ''+.'' @ t" by (auto simp: HasPrefix_iff)
  show ?thesis
  proof (cases "t = []")
    case True
    have "reverseDomain ''+.+.'' = [''+'']" by code_simp
    then have "covers_domain ''+.+.'' d"
      by (cases "reverseDomain d") (auto simp: covers_domain_iff)
    then show ?thesis using True t by (simp add: suffix_covers_def)
  next
    case False
    have "covers_domain s d" if "covers_domain (''+.'' @ s) d"
    proof -
      have "reverseDomain s @ [''+''] \<in> set (candidates (reverseDomain d))"
        using that unfolding covers_domain_iff t reverseDomain_wild_wild [OF False] .
      then show ?thesis
        unfolding covers_domain_iff by (rule candidates_snoc) simp
    qed
    moreover have "s \<noteq> ''+.''" using False t by simp
    ultimately show ?thesis by (auto simp only: suffix_covers_def)
  qed
qed

lemma suffix_covers_ToLower: "suffix_covers (ToLower s) d = suffix_covers s d"
proof -
  have "ToLower s = ''+.'' \<longleftrightarrow> s = ''+.''"
    by (cases s; cases "tl s") (auto simp: ToLower_def lower_char_eq_plus)
  then show ?thesis
    using covers_domain_cong [OF reverseDomain_ToLower] by (simp add: suffix_covers_def)
qed

lemma suffix_matcher_iff:
  "Matcher_Match e (newDomainSuffixMatcher vs) ctx \<longleftrightarrow> Domain ctx \<noteq> '''' \<and> (\<exists>s\<in>set vs. suffix_covers s (Domain ctx))"
proof -
  define rs where "rs = concat (map (\<lambda>s. [(''+.'' @ ToLower s, ''match''), (ToLower s, ''match'')]) vs)"
  have "fold (\<lambda>s t. let lower = ToLower s in DomainTrie_Insert lower ''match'' (DomainTrie_Insert (''+.'' @ lower) ''match'' t)) vs t
      = insert_all DomainTrie_Insert rs t" for t
    unfolding rs_def by (induction vs arbitrary: t) (simp_all add: insert_all_def Let_def)
  then have t: "newDomainSuffixMatcher vs = domainSuffixMatcher (insert_all DomainTrie_Insert rs NewDomainTrie)"
    by (simp add: newDomainSuffixMatcher_def)
  have "snd (DomainTrie_Lookup (insert_all DomainTrie_Insert rs NewDomainTrie) d) \<longleftrightarrow> (\<exists>(r, a)\<in>set rs. covers_domain r d)" for d
    by (rule trie.lookup_found_any)
  also have "(\<exists>(r, a)\<in>set rs. covers_domain r d) \<longleftrightarrow> (\<exists>s\<in>set vs. covers_domain (''+.'' @ ToLower s) d \<or> covers_domain (ToLower s) d)" for d
    by (auto simp: rs_def)
  finally show ?thesis
    unfolding covers_wild suffix_covers_ToLower by (simp add: t domainSuffixMatcher_Match_def)
qed

lemma parse_cidrs_ex:
  "parse_cidrs cs = Inr ns \<Longrightarrow> list_ex (\<lambda>n. IPNet_Contains n ip) ns \<longleftrightarrow> (\<exists>c\<in>set cs. ip_in ip (ParseCIDR c))"
  by (induction cs arbitrary: ns) (auto simp: ip_in_def rbind_def split: option.splits sum.splits)

lemma src_nets_ex:
  "src_nets ss = Inr ns \<Longrightarrow> list_ex (\<lambda>n. IPNet_Contains n ip) ns \<longleftrightarrow> (\<exists>s\<in>set ss. ip_in ip (src_net s))"
  by (induction ss arbitrary: ns) (auto simp: ip_in_def rbind_def split: option.splits sum.splits)

lemma parse_ranges_ex:
  "parse_ranges ss = Inr rs \<Longrightarrow> list_ex (\<lambda>(lo, hi). p \<ge> lo \<and> p \<le> hi) rs \<longleftrightarrow> (\<exists>s\<in>set ss. port_in p s)"
proof (induction ss arbitrary: rs)
  case (Cons s ss)
  show ?case
  proof (cases "TrimSpace s = ''''")
    case True
    then show ?thesis using Cons by (simp add: port_in_def)
  next
    case False
    then obtain lo hi rs' where "parse_range (TrimSpace s) = Inr (lo, hi)" "parse_ranges ss = Inr rs'" "rs = (lo, hi) # rs'"
      using Cons.prems by (auto simp: rbind_def Let_def split: sum.splits)
    then show ?thesis using Cons.IH [of rs'] False by (simp add: port_in_def)
  qed
qed simp

lemma find_providers_refs: "find_providers i known vs = Inr ps \<Longrightarrow> map Some ps = map known vs"
  by (induction vs arbitrary: ps) (auto simp: rbind_def split: sum.splits option.splits)

lemma find_providers_ex:
  assumes "find_providers i known vs = Inr ps"
  shows "(\<exists>ref\<in>set ps. P ref) \<longleftrightarrow> (\<exists>n\<in>set vs. case known n of None \<Rightarrow> False | Some ref \<Rightarrow> P ref)"
proof -
  have "Some ` set ps = known ` set vs"
    using arg_cong [OF find_providers_refs [OF assms], of set] by simp
  then have "(\<exists>x\<in>known ` set vs. case x of None \<Rightarrow> False | Some ref \<Rightarrow> P ref) \<longleftrightarrow> (\<exists>ref\<in>set ps. P ref)"
    by (simp flip: \<open>Some ` set ps = known ` set vs\<close>)
  then show ?thesis by simp
qed

text \<open>A group compiles to at most one matcher, which decides the group's condition.\<close>

definition group_ok :: "env \<Rightarrow> MatchContext \<Rightarrow> chain_error + Matcher list \<Rightarrow> string list \<times> bool \<Rightarrow> bool" where
  "group_ok e ctx g s \<longleftrightarrow> (\<forall>ms. g = Inr ms \<longrightarrow> map (\<lambda>m. Matcher_Match e m ctx) ms = (if fst s = [] then [] else [snd s]))"

lemma group_okI:
  "(\<And>m. mk vs = Inr m \<Longrightarrow> Matcher_Match e m ctx = b) \<Longrightarrow> group_ok e ctx (cond vs mk) (vs, b)"
  by (auto simp: group_ok_def cond_def rbind_def split: sum.splits)

lemmas matcher_defs =
  newDomainExactMatcher_def domainExactMatcher_Match_def newDomainKeywordMatcher_def domainKeywordMatcher_Match_def
  newGeoIPMatcher_def geoIPMatcher_Match_def newGeoSiteMatcher_def geoSiteMatcher_Match_def
  newProcessMatcher_def processMatcher_Match_def newProtocolMatcher_def protocolMatcher_Match_def
  newNetworkTypeMatcher_def networkTypeMatcher_Match_def

lemma groups_ok:
  "list_all2 (group_ok e ctx) (matcher_groups i known m) (group_specs known e ctx m)"
  unfolding matcher_groups_def group_specs_def list_all2_Cons list_all2_Nil
proof (intro conjI group_okI refl)
  show "Matcher_Match e x ctx = (Domain ctx \<noteq> '''' \<and> (\<exists>d\<in>set (mDomain m). ToLower d = ToLower (Domain ctx)))"
    if "Inr (newDomainExactMatcher (mDomain m)) = Inr x" for x
    using that by (auto simp: matcher_defs set_of_iff split: if_splits)
  show "Matcher_Match e x ctx = (Domain ctx \<noteq> '''' \<and> (\<exists>s\<in>set (mDomainSuffix m). suffix_covers s (Domain ctx)))"
    if "Inr (newDomainSuffixMatcher (mDomainSuffix m)) = Inr x" for x
    using that suffix_matcher_iff by auto
  show "Matcher_Match e x ctx = (Domain ctx \<noteq> '''' \<and> (\<exists>k\<in>set (mDomainKeyword m). Contains (ToLower (Domain ctx)) (ToLower k)))"
    if "Inr (newDomainKeywordMatcher (mDomainKeyword m)) = Inr x" for x
    using that by (auto simp: matcher_defs list_ex_iff Let_def split: if_splits)
  show "Matcher_Match e x ctx = (Domain ctx \<noteq> '''' \<and> (\<exists>c\<in>set (mGeoSite m). in_category e (Domain ctx) c))"
    if "Inr (newGeoSiteMatcher (mGeoSite m)) = Inr x" for x
    using that [symmetric]
    by (cases "envGeoSite e"; cases "Domain ctx = []") (simp_all add: matcher_defs list_ex_iff in_category_def Let_def)
  show "Matcher_Match e x ctx = (CtxIP ctx \<noteq> [] \<and> (\<exists>c\<in>set (mIPCIDR m). ip_in (CtxIP ctx) (ParseCIDR c)))"
    if "map_err (ChainCIDR i) (newIPCIDRMatcher (mIPCIDR m)) = Inr x" for x
    using that parse_cidrs_ex [of "mIPCIDR m" _ "CtxIP ctx"]
    by (auto simp: newIPCIDRMatcher_def ipCIDRMatcher_Match_def rbind_def map_err_def split: sum.splits if_splits)
  show "Matcher_Match e x ctx = (CtxIP ctx \<noteq> [] \<and> (\<exists>c\<in>set (mGeoIP m). in_country e (CtxIP ctx) c))"
    if "Inr (newGeoIPMatcher (mGeoIP m)) = Inr x" for x
    using that by (auto simp: matcher_defs set_of_iff in_country_def split: option.splits if_splits)
  show "Matcher_Match e x ctx = (Port ctx \<noteq> 0 \<and> (\<exists>s\<in>set (mPort m). port_in (Port ctx) s))"
    if "map_err (ChainPort i) (newPortMatcher (mPort m)) = Inr x" for x
    using that parse_ranges_ex [of "mPort m" _ "Port ctx"]
    by (auto simp: newPortMatcher_def portMatcher_Match_def rbind_def map_err_def split: sum.splits if_splits)
  show "Matcher_Match e x ctx = (SrcIP ctx \<noteq> [] \<and> (\<exists>s\<in>set (mSrcIP m). ip_in (SrcIP ctx) (src_net s)))"
    if "newSrcIPMatcher i (mSrcIP m) = Inr x" for x
    using that src_nets_ex [of "mSrcIP m" _ "SrcIP ctx"]
    by (auto simp: newSrcIPMatcher_def srcIPMatcher_Match_def rbind_def map_err_def split: sum.splits if_splits)
  show "Matcher_Match e x ctx = (Process ctx \<noteq> '''' \<and> (\<exists>n\<in>set (mProcess m). ToLower n = ToLower (Process ctx)))"
    if "Inr (newProcessMatcher (mProcess m)) = Inr x" for x
    using that by (auto simp: matcher_defs set_of_iff split: if_splits)
  show "Matcher_Match e x ctx = (Protocol ctx \<noteq> '''' \<and> (\<exists>n\<in>set (mProtocol m). ToLower n = ToLower (Protocol ctx)))"
    if "Inr (newProtocolMatcher (mProtocol m)) = Inr x" for x
    using that by (auto simp: matcher_defs set_of_iff split: if_splits)
  show "Matcher_Match e x ctx = (NetworkType ctx \<noteq> '''' \<and> (\<exists>n\<in>set (mNetworkType m). ToLower n = ToLower (NetworkType ctx)))"
    if "Inr (newNetworkTypeMatcher (mNetworkType m)) = Inr x" for x
    using that by (auto simp: matcher_defs set_of_iff split: if_splits)
  show "Matcher_Match e x ctx = (\<exists>n\<in>set (mRuleProvider m). case known n of None \<Rightarrow> False | Some ref \<Rightarrow> provider_has e ctx ref)"
    if x: "rbind (find_providers i known (mRuleProvider m)) (\<lambda>ps. Inr (ruleProviderMatcher ps)) = Inr x" for x
  proof -
    obtain ps where ps: "find_providers i known (mRuleProvider m) = Inr ps" "x = ruleProviderMatcher ps"
      using x by (auto simp: rbind_eq_Inr)
    have "Matcher_Match e x ctx \<longleftrightarrow> (\<exists>ref\<in>set ps. provider_has e ctx ref)"
      by (simp add: ps(2) ruleProviderMatcher_Match_def provider_has_def list_ex_iff)
    then show ?thesis by (simp only: find_providers_ex [OF ps(1)])
  qed
qed

lemma append_groups_map:
  assumes "list_all2 (group_ok e ctx) gs specs" and "append_groups gs = Inr ms"
  shows "map (\<lambda>m. Matcher_Match e m ctx) ms = map snd (filter (\<lambda>(vs, b). vs \<noteq> []) specs)"
  using assms
proof (induction gs specs arbitrary: ms rule: list_all2_induct)
  case (Cons g gs s specs)
  then obtain m1 m2 where g: "g = Inr m1" "append_groups gs = Inr m2" "ms = m1 @ m2"
    by (auto simp: rbind_def split: sum.splits)
  then have "map (\<lambda>m. Matcher_Match e m ctx) m1 = (if fst s = [] then [] else [snd s])"
    using Cons.hyps(1) by (simp add: group_ok_def)
  then show ?case using g(3) Cons.IH [OF g(2)] by (cases s) auto
qed simp

section \<open>The chain implements first match\<close>

lemma compile_entry_correct:
  assumes "compile_entry i known entry = Inr r"
  shows "compiledRule_Match e r ctx \<longleftrightarrow> entry_holds known e entry ctx" and "action r = ToLower (entryAction entry)"
proof -
  let ?gs = "filter (\<lambda>(vs, b). vs \<noteq> []) (group_specs known e ctx (entryMatch entry))"
  obtain ms where l: "parse_logic i (entryLogic entry) = Inr (logic r)"
    and a: "parse_action i (entryAction entry) = Inr (action r)"
    and m: "append_groups (matcher_groups i known (entryMatch entry)) = Inr (matchers r)"
    and ne: "matchers r \<noteq> []" and n: "negate r = entryNegate entry"
    using assms by (auto simp: compile_entry_def rbind_def split: sum.splits if_splits)
  show "action r = ToLower (entryAction entry)"
    using a by (auto simp: parse_action_def Let_def split: if_splits)
  have map: "map (\<lambda>m. Matcher_Match e m ctx) (matchers r) = map snd ?gs"
    by (rule append_groups_map [OF groups_ok m])
  have ex: "list_ex (\<lambda>m. Matcher_Match e m ctx) (matchers r) \<longleftrightarrow> (\<exists>(vs, b)\<in>set ?gs. b)"
    using arg_cong [OF map, of "list_ex id"] by (auto simp: list_ex_iff list.pred_map comp_def)
  have all: "list_all (\<lambda>m. Matcher_Match e m ctx) (matchers r) \<longleftrightarrow> (\<forall>(vs, b)\<in>set ?gs. b)"
    using arg_cong [OF map, of "list_all id"] by (auto simp: list_all_iff list.pred_map comp_def)
  have "logic r = logicOr \<longleftrightarrow> ToLower (entryLogic entry) = ''or''"
    using l by (auto simp: parse_logic_def Let_def split: if_splits)
  then show "compiledRule_Match e r ctx \<longleftrightarrow> entry_holds known e entry ctx"
    using ne n ex all by (cases "logic r") (simp_all add: compiledRule_Match_def entry_holds_def Let_def)
qed

definition chain_action :: "env \<Rightarrow> compiledRule list \<Rightarrow> MatchContext \<Rightarrow> string option" where
  "chain_action e rs ctx = map_option action (find (\<lambda>r. compiledRule_Match e r ctx) rs)"


definition no_match :: RuleMatch where
  "no_match = \<lparr>mDomain = [], mDomainSuffix = [], mDomainKeyword = [], mGeoSite = [], mIPCIDR = [], mGeoIP = [],
     mPort = [], mSrcIP = [], mProcess = [], mProtocol = [], mNetworkType = [], mRuleProvider = []\<rparr>"

definition sample_chain :: "RuleChainEntry list" where
  "sample_chain =
     [\<lparr>entryMatch = no_match\<lparr>mDomainSuffix := [''Ads.com''], mPort := [''80-90'']\<rparr>, entryLogic = ''and'',
       entryNegate = False, entryAction = ''reject''\<rparr>,
      \<lparr>entryMatch = no_match\<lparr>mProcess := [''curl''], mPort := ['' 22'']\<rparr>, entryLogic = ''or'',
       entryNegate = True, entryAction = ''Direct''\<rparr>]"

definition sample_env :: env where
  "sample_env = \<lparr>envGeoIP = None, envOrder = [], envGeoSite = None, envProviders = (\<lambda>_. None)\<rparr>"

definition sample_ctx :: MatchContext where
  "sample_ctx = \<lparr>Domain = ''x.ads.com'', CtxIP = [], Port = 443, SrcIP = [], Process = '''', Protocol = '''', NetworkType = ''''\<rparr>"


lemma compiled_rules_wf:
  assumes "CompileRuleChain known entries = Inr rs" and "r \<in> set rs"
  shows "action r \<in> {''proxy'', ''direct'', ''reject''} \<and> matchers r \<noteq> []"
proof -
  have "action r \<in> {''proxy'', ''direct'', ''reject''} \<and> matchers r \<noteq> []"
    if "compile_from i known entries = Inr rs" "r \<in> set rs" for i rs
    using that
  proof (induction entries arbitrary: i rs)
    case (Cons en entries)
    then obtain r' rs' where r: "compile_entry i known en = Inr r'" "compile_from (i + 1) known entries = Inr rs'" "rs = r' # rs'"
      by (auto simp: rbind_def split: sum.splits)
    show ?case
    proof (cases "r = r'")
      case True
      then show ?thesis
        using r(1) by (auto simp: compile_entry_def parse_action_def Let_def rbind_def split: sum.splits if_splits)
    qed (use Cons.IH [OF r(2)] Cons.prems(2) r(3) in auto)
  qed simp
  then show ?thesis using assms by (simp add: CompileRuleChain_def)
qed

text \<open>The chain that the routing guide shows for several outbounds does not compile, since a chain knows
  no custom outbound tags, and a router drops a chain that does not compile as a whole. Nor does the
  suffix of that chain, written with a leading dot, cover a domain.\<close>

lemma custom_outbound_refused:
  "CompileRuleChain known
     (\<lparr>entryMatch = no_match\<lparr>mGeoIP := [''JP'']\<rparr>, entryLogic = '''', entryNegate = False, entryAction = ''jp-server''\<rparr> # entries) =
   Inl (InvalidAction 0 ''jp-server'')"
proof -
  have "parse_action 0 ''jp-server'' = Inl (InvalidAction 0 ''jp-server'')" by code_simp
  then show ?thesis
    by (simp add: CompileRuleChain_def compile_entry_def no_match_def parse_logic_def ToLower_def)
qed

lemma dotted_suffix_covers_nothing:
  "\<not> suffix_covers ''.internal.corp'' ''db.internal.corp''" "suffix_covers ''internal.corp'' ''db.internal.corp''"
  by code_simp+

end
