(* ===== verification/Router.thy ===== *)
theory Router
  imports RuleChain
begin

text \<open>
  The router of \<^verbatim>\<open>router/router.go\<close> with \<^verbatim>\<open>router/conflict.go\<close> and \<^verbatim>\<open>router/convert.go\<close>. A decision
  is a pure function of the router, the environment of \<open>RuleChain\<close> and the connection; with it come
  the calls of the decision hook, as a list of (decision, rule kind) pairs.
\<close>

section \<open>Rules and the router's state\<close>

record Rule =
  Type :: string
  Values :: "string list"
  ruleAction :: string
  ruleNetworkType :: string

record networkRule =
  nrType :: string
  nrValues :: "string list"
  nrAction :: string
  nrNetworkType :: string

record Router =
  ruleChain :: "compiledRule list"
  exactDomain :: "string \<Rightarrow> string option"
  domainTrie :: DomainTrie
  ipRules :: "(IPNet \<times> string) list"
  processMap :: "string \<Rightarrow> string option"
  protocolMap :: "string \<Rightarrow> string option"
  networkRules :: "networkRule list"
  defaultAct :: string
  networkType :: string
  hooked :: bool

record RouterConfig =
  cfgRuleChain :: "RuleChainEntry list"
  cfgRules :: "Rule list"
  cfgDefaultAction :: string
  cfgRuleProviders :: "string \<Rightarrow> provider_ref option"

definition set_all :: "(string \<Rightarrow> string) \<Rightarrow> string list \<Rightarrow> string \<Rightarrow> (string \<Rightarrow> string option) \<Rightarrow> string \<Rightarrow> string option" where
  "set_all key vs a m = fold (\<lambda>v m. m(key v \<mapsto> a)) vs m"

definition exact_key :: "string \<Rightarrow> string" where
  "exact_key v = ToLower (TrimSuffix v ''.'')"

definition site_domains :: "env \<Rightarrow> string list \<Rightarrow> string list" where
  "site_domains e cats = (case envGeoSite e of None \<Rightarrow> [] | Some db \<Rightarrow> concat (map (GeoSiteDB_Lookup db) cats))"

fun add_cidrs :: "string list \<Rightarrow> string \<Rightarrow> (IPNet \<times> string) list" where
  "add_cidrs [] a = []"
| "add_cidrs (v # vs) a = (case ParseCIDR v of None \<Rightarrow> add_cidrs vs a | Some n \<Rightarrow> (n, a) # add_cidrs vs a)"

definition addRule :: "env \<Rightarrow> Rule \<Rightarrow> Router \<Rightarrow> Router" where
  "addRule e rule r =
     (if ruleNetworkType rule \<noteq> '''' then
        r\<lparr>networkRules := networkRules r @ [\<lparr>nrType = Type rule, nrValues = Values rule, nrAction = ruleAction rule,
            nrNetworkType = ToLower (ruleNetworkType rule)\<rparr>]\<rparr>
      else if Type rule = ''domain'' then
        r\<lparr>exactDomain := set_all exact_key (Values rule) (ruleAction rule) (exactDomain r)\<rparr>
      else if Type rule = ''domain-suffix'' then
        r\<lparr>domainTrie := fold (\<lambda>v t. DomainTrie_Insert v (ruleAction rule) t) (Values rule) (domainTrie r)\<rparr>
      else if Type rule = ''geosite'' then
        r\<lparr>domainTrie := fold (\<lambda>v t. DomainTrie_Insert v (ruleAction rule) t) (site_domains e (Values rule)) (domainTrie r)\<rparr>
      else if Type rule = ''geoip'' then r
      else if Type rule = ''ip-cidr'' then
        r\<lparr>ipRules := ipRules r @ add_cidrs (Values rule) (ruleAction rule)\<rparr>
      else if Type rule = ''process'' then
        r\<lparr>processMap := set_all ToLower (Values rule) (ruleAction rule) (processMap r)\<rparr>
      else if Type rule = ''protocol'' then
        r\<lparr>protocolMap := set_all ToLower (Values rule) (ruleAction rule) (protocolMap r)\<rparr>
      else r)"

definition emptyRouter :: "string \<Rightarrow> Router" where
  "emptyRouter dflt =
     \<lparr>ruleChain = [], exactDomain = (\<lambda>_. None), domainTrie = NewDomainTrie, ipRules = [],
      processMap = (\<lambda>_. None), protocolMap = (\<lambda>_. None), networkRules = [],
      defaultAct = dflt, networkType = '''', hooked = False\<rparr>"

definition NewRouter :: "env \<Rightarrow> RouterConfig \<Rightarrow> Router" where
  "NewRouter e cfg =
     (let dflt = (if cfgDefaultAction cfg = '''' then ''proxy'' else cfgDefaultAction cfg);
          r0 = emptyRouter dflt;
          r1 = (if cfgRuleChain cfg = [] then r0
                else case CompileRuleChain (cfgRuleProviders cfg) (cfgRuleChain cfg) of
                       Inl _ \<Rightarrow> r0
                     | Inr compiled \<Rightarrow> r0\<lparr>ruleChain := compiled\<rparr>)
      in fold (addRule e) (cfgRules cfg) r1)"

definition SetDecisionHook :: "bool \<Rightarrow> Router \<Rightarrow> Router" where
  "SetDecisionHook h r = r\<lparr>hooked := h\<rparr>"

definition SetNetworkType :: "string \<Rightarrow> Router \<Rightarrow> Router" where
  "SetNetworkType nt r = r\<lparr>networkType := ToLower nt\<rparr>"

section \<open>Decisions\<close>

type_synonym notice = "string \<times> string"

definition notifyDecision :: "Router \<Rightarrow> string \<Rightarrow> string \<Rightarrow> notice list" where
  "notifyDecision r decision rule = (if hooked r then [(decision, rule)] else [])"

definition wild_match :: "string \<Rightarrow> string \<Rightarrow> bool" where
  "wild_match domain v =
     (let lowerDomain = ToLower domain; lowerVal = ToLower v
      in if HasPrefix v ''+.'' then
           (let suffix = ToLower (drop 2 v) in lowerDomain = suffix \<or> HasSuffix lowerDomain (''.'' @ suffix))
         else lowerDomain = lowerVal)"

definition cidr_match :: "IP \<Rightarrow> string \<Rightarrow> bool" where
  "cidr_match ip v = (case ParseCIDR v of None \<Rightarrow> False | Some n \<Rightarrow> IPNet_Contains n ip)"

definition network_rule_matches :: "networkRule \<Rightarrow> string \<Rightarrow> IP \<Rightarrow> string \<Rightarrow> string \<Rightarrow> bool" where
  "network_rule_matches nr domain ip process protocol =
     (if nrType nr = ''domain'' \<or> nrType nr = ''domain-suffix'' then
        domain \<noteq> '''' \<and> list_ex (wild_match domain) (nrValues nr)
      else if nrType nr = ''ip-cidr'' then ip \<noteq> [] \<and> list_ex (cidr_match ip) (nrValues nr)
      else if nrType nr = ''process'' then process \<noteq> '''' \<and> list_ex (\<lambda>v. EqualFold v process) (nrValues nr)
      else if nrType nr = ''protocol'' then protocol \<noteq> '''' \<and> list_ex (\<lambda>v. EqualFold v protocol) (nrValues nr)
      else False)"

definition matchNetworkRules :: "Router \<Rightarrow> string \<Rightarrow> IP \<Rightarrow> string \<Rightarrow> string \<Rightarrow> string option" where
  "matchNetworkRules r domain ip process protocol =
     (if networkRules r = [] \<or> networkType r = '''' then None
      else map_option nrAction
             (find (\<lambda>nr. nrNetworkType nr = networkType r \<and> network_rule_matches nr domain ip process protocol)
                   (networkRules r)))"

definition MatchDomain :: "Router \<Rightarrow> string \<Rightarrow> string \<times> notice list" where
  "MatchDomain r domain =
     (case exactDomain r (exact_key domain) of
        Some act \<Rightarrow> (act, notifyDecision r act ''domain'')
      | None \<Rightarrow>
          (let (act, found) = DomainTrie_Lookup (domainTrie r) domain
           in if found then (act, notifyDecision r act ''domain'')
              else (defaultAct r, notifyDecision r (defaultAct r) ''default'')))"

definition MatchIP :: "env \<Rightarrow> Router \<Rightarrow> IP \<Rightarrow> string \<times> notice list" where
  "MatchIP e r ip =
     (case find (\<lambda>(n, a). IPNet_Contains n ip) (ipRules r) of
        Some (n, a) \<Rightarrow> (a, notifyDecision r a ''ip-cidr'')
      | None \<Rightarrow>
          if (case envGeoIP e of None \<Rightarrow> False | Some db \<Rightarrow> LookupCountry (envOrder e) db ip = ''CN'')
          then (''direct'', notifyDecision r ''direct'' ''geoip'')
          else (defaultAct r, notifyDecision r (defaultAct r) ''default''))"

definition MatchProcess :: "Router \<Rightarrow> string \<Rightarrow> string \<times> notice list" where
  "MatchProcess r name =
     (case processMap r (ToLower name) of
        Some a \<Rightarrow> (a, notifyDecision r a ''process'')
      | None \<Rightarrow> (defaultAct r, notifyDecision r (defaultAct r) ''default''))"

definition MatchProtocol :: "Router \<Rightarrow> string \<Rightarrow> string \<times> notice list" where
  "MatchProtocol r proto =
     (case protocolMap r (ToLower proto) of
        Some a \<Rightarrow> (a, notifyDecision r a ''protocol'')
      | None \<Rightarrow> (defaultAct r, notifyDecision r (defaultAct r) ''default''))"

record DryRunResult =
  drDomain :: string
  drAction :: string
  drMatchedBy :: string
  drRule :: string

definition ruled :: "string \<Rightarrow> string \<Rightarrow> DryRunResult" where
  "ruled domain a = \<lparr>drDomain = domain, drAction = a, drMatchedBy = ''domain_rule'', drRule = domain\<rparr>"

definition unruled :: "Router \<Rightarrow> string \<Rightarrow> DryRunResult" where
  "unruled r domain = \<lparr>drDomain = domain, drAction = defaultAct r, drMatchedBy = ''default'', drRule = ''''\<rparr>"

definition DryRun :: "Router \<Rightarrow> string \<Rightarrow> DryRunResult" where
  "DryRun r domain =
     (if domain \<noteq> '''' then
        (case exactDomain r (exact_key domain) of
           Some act \<Rightarrow> ruled domain act
         | None \<Rightarrow> (let (act, found) = DomainTrie_Lookup (domainTrie r) domain
                    in if found then ruled domain act else unruled r domain))
      else unruled r domain)"

text \<open>One step of phase 3 of \<open>Match\<close>: a category decides unless its answer is the default action.\<close>

definition decide :: "Router \<Rightarrow> bool \<Rightarrow> string \<times> notice list \<Rightarrow> string \<times> notice list \<Rightarrow> string \<times> notice list" where
  "decide r given answer rest =
     (if given then (if fst answer \<noteq> defaultAct r then answer else (fst rest, snd answer @ snd rest)) else rest)"

definition Match :: "env \<Rightarrow> Router \<Rightarrow> string \<Rightarrow> IP \<Rightarrow> string \<Rightarrow> string \<Rightarrow> u16 \<Rightarrow> IP \<Rightarrow> string \<times> notice list" where
  "Match e r domain ip process protocol port srcIP =
     (let ctx = \<lparr>Domain = domain, CtxIP = ip, Port = port, SrcIP = srcIP, Process = process,
                 Protocol = protocol, NetworkType = networkType r\<rparr>
      in case find (\<lambda>rl. compiledRule_Match e rl ctx) (ruleChain r) of
           Some rl \<Rightarrow> (action rl, [])
         | None \<Rightarrow>
             (case matchNetworkRules r domain ip process protocol of
                Some a \<Rightarrow> (a, [])
              | None \<Rightarrow>
                  decide r (protocol \<noteq> '''') (MatchProtocol r protocol)
                  (decide r (process \<noteq> '''') (MatchProcess r process)
                  (decide r (domain \<noteq> '''') (MatchDomain r domain)
                  (if ip \<noteq> [] then MatchIP e r ip else (defaultAct r, []))))))"
section \<open>Conversion from the configuration\<close>

record RouteRule =
  rrDomains :: string
  rrGeoSite :: string
  rrGeoIP :: string
  rrProcess :: "string list"
  rrProtocol :: string
  rrIPCIDR :: "string list"
  rrNetworkType :: string
  rrAction :: string

definition ConfigRuleToRouterRule :: "RouteRule \<Rightarrow> Rule" where
  "ConfigRuleToRouterRule rule =
     (let r = \<lparr>Type = '''', Values = [], ruleAction = rrAction rule, ruleNetworkType = rrNetworkType rule\<rparr>
      in if rrDomains rule \<noteq> '''' then r\<lparr>Type := ''domain'', Values := [rrDomains rule]\<rparr>
         else if rrGeoSite rule \<noteq> '''' then r\<lparr>Type := ''geosite'', Values := [rrGeoSite rule]\<rparr>
         else if rrGeoIP rule \<noteq> '''' then r\<lparr>Type := ''geoip'', Values := [rrGeoIP rule]\<rparr>
         else if rrProcess rule \<noteq> [] then r\<lparr>Type := ''process'', Values := rrProcess rule\<rparr>
         else if rrProtocol rule \<noteq> '''' then r\<lparr>Type := ''protocol'', Values := [rrProtocol rule]\<rparr>
         else if rrIPCIDR rule \<noteq> [] then r\<lparr>Type := ''ip-cidr'', Values := rrIPCIDR rule\<rparr>
         else r)"

section \<open>Conflicts\<close>

record Conflict =
  cDomain :: string
  Action1 :: string
  Action2 :: string
  Rule1 :: string
  Rule2 :: string

type_synonym seen = "string \<Rightarrow> (string \<times> string) option"

definition rule_domains :: "env \<Rightarrow> Rule \<Rightarrow> string list" where
  "rule_domains e rule =
     (if Type rule = ''domain'' \<or> Type rule = ''domain-suffix'' then Values rule
      else if Type rule = ''geosite'' then site_domains e (Values rule)
      else [])"

definition rule_desc :: "Rule \<Rightarrow> string" where
  "rule_desc rule =
     (if Type rule = ''geosite'' then ''geosite: '' @ Join (Values rule) '', ''
      else Type rule @ '': '' @ Join (Values rule) '', '')"

fun scan_domains :: "string \<Rightarrow> string \<Rightarrow> string list \<Rightarrow> seen \<times> Conflict list \<Rightarrow> seen \<times> Conflict list" where
  "scan_domains act desc [] st = st"
| "scan_domains act desc (d0 # ds) (m, cs) =
     (let d = normalizeDomain d0
      in case m d of
           Some (a, rl) \<Rightarrow>
             if a \<noteq> act then scan_domains act desc ds (m, cs @ [\<lparr>cDomain = d, Action1 = a, Action2 = act, Rule1 = rl, Rule2 = desc\<rparr>])
             else scan_domains act desc ds (m, cs)
         | None \<Rightarrow> scan_domains act desc ds (m(d \<mapsto> (act, desc)), cs))"

definition DetectConflicts :: "env \<Rightarrow> Rule list \<Rightarrow> Conflict list" where
  "DetectConflicts e rls =
     snd (fold (\<lambda>rule. scan_domains (ruleAction rule) (rule_desc rule) (rule_domains e rule)) rls (\<lambda>_. None, []))"

text \<open>What the rules say: each normalised domain with the action of its rule.\<close>

definition rule_pairs :: "env \<Rightarrow> Rule \<Rightarrow> (string \<times> string) list" where
  "rule_pairs e rule = map (\<lambda>d. (normalizeDomain d, ruleAction rule)) (rule_domains e rule)"

text \<open>The scan in terms of those pairs: \<open>first\<close> is the action a domain had first.\<close>

definition scanned :: "(string \<times> string) list \<Rightarrow> seen \<times> Conflict list \<Rightarrow> bool" where
  "scanned ps st \<longleftrightarrow>
     (\<forall>d. (fst st d = None \<longrightarrow> (\<forall>a. (d, a) \<notin> set ps)) \<and>
          (\<forall>a rl. fst st d = Some (a, rl) \<longrightarrow> (d, a) \<in> set ps \<and>
             ((\<exists>c\<in>set (snd st). cDomain c = d) \<longleftrightarrow> (\<exists>b. (d, b) \<in> set ps \<and> b \<noteq> a)))) \<and>
     (\<forall>c\<in>set (snd st). Action1 c \<noteq> Action2 c \<and> (cDomain c, Action1 c) \<in> set ps \<and> (cDomain c, Action2 c) \<in> set ps)"

lemma scan_domains_scanned:
  assumes "scanned ps st"
  shows "scanned (ps @ map (\<lambda>d. (normalizeDomain d, act)) ds) (scan_domains act desc ds st)"
  using assms
proof (induction ds arbitrary: ps st)
  case Nil
  then show ?case by simp
next
  case (Cons d0 ds)
  obtain m cs where st: "st = (m, cs)" by (cases st)
  define d where "d = normalizeDomain d0"
  have step: "scanned (ps @ [(d, act)]) st' \<Longrightarrow>
      scanned (ps @ map (\<lambda>d. (normalizeDomain d, act)) (d0 # ds)) (scan_domains act desc ds st')" for st'
    using Cons.IH [of "ps @ [(d, act)]" st'] by (simp add: d_def)
  note s = Cons.prems [unfolded scanned_def st fst_conv snd_conv]
  show ?case
  proof (cases "m d")
    case None
    have "scanned (ps @ [(d, act)]) (m(d \<mapsto> (act, desc)), cs)"
      using s None by (fastforce simp: scanned_def)
    from step [OF this] show ?thesis using None by (simp add: st d_def [symmetric] Let_def)
  next
    case (Some ar)
    obtain a rl where ar: "ar = (a, rl)" by (cases ar)
    show ?thesis
    proof (cases "a = act")
      case True
      have "scanned (ps @ [(d, act)]) (m, cs)" using s Some ar True by (auto simp: scanned_def)
      from step [OF this] show ?thesis using Some ar True by (simp add: st d_def [symmetric] Let_def)
    next
      case False
      let ?c = "\<lparr>cDomain = d, Action1 = a, Action2 = act, Rule1 = rl, Rule2 = desc\<rparr>"
      have "scanned (ps @ [(d, act)]) (m, cs @ [?c])" using s Some ar False by (auto simp: scanned_def)
      from step [OF this] show ?thesis using Some ar False by (simp add: st d_def [symmetric] Let_def)
    qed
  qed
qed

lemma scan_rules_scanned:
  assumes "scanned ps st"
  shows "scanned (ps @ concat (map (rule_pairs e) rls))
    (fold (\<lambda>rule. scan_domains (ruleAction rule) (rule_desc rule) (rule_domains e rule)) rls st)"
  using assms
proof (induction rls arbitrary: ps st)
  case (Cons r rls)
  show ?case
    using Cons.IH [OF scan_domains_scanned [OF Cons.prems, of "ruleAction r" "rule_domains e r" "rule_desc r"]]
    by (simp add: rule_pairs_def)
qed simp

lemma DetectConflicts_scanned:
  "\<exists>m. scanned (concat (map (rule_pairs e) rls)) (m, DetectConflicts e rls)"
proof -
  have "scanned [] (\<lambda>_. None, [])" by (simp add: scanned_def)
  define st where "st = fold (\<lambda>rule. scan_domains (ruleAction rule) (rule_desc rule) (rule_domains e rule)) rls (\<lambda>_. None, [])"
  have "scanned (concat (map (rule_pairs e) rls)) st"
    using scan_rules_scanned [OF \<open>scanned [] (\<lambda>_. None, [])\<close>, of e rls] by (simp add: st_def)
  moreover have "(fst st, DetectConflicts e rls) = st" by (simp add: DetectConflicts_def st_def)
  ultimately have "scanned (concat (map (rule_pairs e) rls)) (fst st, DetectConflicts e rls)" by simp
  then show ?thesis by (intro exI [of _ "fst st"])
qed

text \<open>C21: conflict detection is sound and complete. A domain is reported if and only if two rules give it
  different actions, and each report carries two different actions that rules give to that domain.\<close>

theorem conflicts_exact:
  "((\<exists>c\<in>set (DetectConflicts e rls). cDomain c = d) \<longleftrightarrow>
      (\<exists>r1\<in>set rls. \<exists>r2\<in>set rls. d \<in> normalizeDomain ` set (rule_domains e r1) \<and>
         d \<in> normalizeDomain ` set (rule_domains e r2) \<and> ruleAction r1 \<noteq> ruleAction r2)) \<and>
   (\<forall>c\<in>set (DetectConflicts e rls). Action1 c \<noteq> Action2 c \<and>
      (\<exists>r1\<in>set rls. \<exists>r2\<in>set rls. cDomain c \<in> normalizeDomain ` set (rule_domains e r1) \<and> Action1 c = ruleAction r1 \<and>
         cDomain c \<in> normalizeDomain ` set (rule_domains e r2) \<and> Action2 c = ruleAction r2))"
proof -
  define ps where "ps = concat (map (rule_pairs e) rls)"
  define cs where "cs = DetectConflicts e rls"
  obtain m where s: "scanned ps (m, cs)" using DetectConflicts_scanned ps_def cs_def by metis
  have mem: "(x, a) \<in> set ps \<longleftrightarrow> (\<exists>r\<in>set rls. x \<in> normalizeDomain ` set (rule_domains e r) \<and> a = ruleAction r)" for x a
    by (auto simp: rule_pairs_def ps_def)
  have c: "Action1 c \<noteq> Action2 c" "(cDomain c, Action1 c) \<in> set ps" "(cDomain c, Action2 c) \<in> set ps" if "c \<in> set cs" for c
    using s that by (simp_all add: scanned_def)
  have "(\<exists>c\<in>set cs. cDomain c = d) \<longleftrightarrow> (\<exists>a b. (d, a) \<in> set ps \<and> (d, b) \<in> set ps \<and> a \<noteq> b)"
  proof
    assume "\<exists>c\<in>set cs. cDomain c = d"
    then show "\<exists>a b. (d, a) \<in> set ps \<and> (d, b) \<in> set ps \<and> a \<noteq> b" using c by blast
  next
    assume "\<exists>a b. (d, a) \<in> set ps \<and> (d, b) \<in> set ps \<and> a \<noteq> b"
    then obtain a b where ab: "(d, a) \<in> set ps" "(d, b) \<in> set ps" "a \<noteq> b" by blast
    then obtain a0 rl where m: "m d = Some (a0, rl)" using s by (cases "m d") (auto simp: scanned_def)
    moreover have "\<exists>b. (d, b) \<in> set ps \<and> b \<noteq> a0" using ab by (cases "a = a0") auto
    ultimately show "\<exists>c\<in>set cs. cDomain c = d" using s by (simp add: scanned_def)
  qed
  also have "\<dots> \<longleftrightarrow> (\<exists>r1\<in>set rls. \<exists>r2\<in>set rls. d \<in> normalizeDomain ` set (rule_domains e r1) \<and>
         d \<in> normalizeDomain ` set (rule_domains e r2) \<and> ruleAction r1 \<noteq> ruleAction r2)"
    unfolding mem by (intro iffI) (elim exE conjE bexE, simp, blast)+
  finally show ?thesis using c mem by (simp add: cs_def [symmetric])
qed

definition suffix_rule :: "string \<Rightarrow> string \<Rightarrow> Rule" where
  "suffix_rule d a = \<lparr>Type = ''domain-suffix'', Values = [d], ruleAction = a, ruleNetworkType = ''''\<rparr>"

theorem conflicts_exact_witness:
  "\<exists>c\<in>set (DetectConflicts sample_env [suffix_rule ''+.A.com'' ''proxy'', suffix_rule ''a.com.'' ''direct'']). cDomain c = ''a.com''"
proof -
  have "''a.com'' = normalizeDomain ''+.A.com''" "''a.com'' = normalizeDomain ''a.com.''" by code_simp+
  then show ?thesis
    using conflicts_exact [of sample_env "[suffix_rule ''+.A.com'' ''proxy'', suffix_rule ''a.com.'' ''direct'']" "''a.com''"]
    by (simp add: suffix_rule_def rule_domains_def)
qed

section \<open>Rules without conflicts may be reordered\<close>

lemma no_conflicts_functional:
  assumes "DetectConflicts e rls = []" and "r1 \<in> set rls" "r2 \<in> set rls"
    and "d1 \<in> set (rule_domains e r1)" "d2 \<in> set (rule_domains e r2)" and "normalizeDomain d1 = normalizeDomain d2"
  shows "ruleAction r1 = ruleAction r2"
proof -
  define ps where "ps = concat (map (rule_pairs e) rls)"
  obtain m where s: "scanned ps (m, [])" using DetectConflicts_scanned [of e rls] assms(1) ps_def by auto
  have mem: "(normalizeDomain d, ruleAction r) \<in> set ps" if "r \<in> set rls" "d \<in> set (rule_domains e r)" for d r
    using that by (fastforce simp: ps_def rule_pairs_def)
  have p: "(normalizeDomain d1, ruleAction r1) \<in> set ps" "(normalizeDomain d1, ruleAction r2) \<in> set ps"
    using mem [OF assms(2,4)] mem [OF assms(3,5)] by (simp_all add: assms(6))
  then obtain a rl where "m (normalizeDomain d1) = Some (a, rl)" using s by (cases "m (normalizeDomain d1)") (auto simp: scanned_def)
  then have "b = a" if "(normalizeDomain d1, b) \<in> set ps" for b using s that by (force simp: scanned_def)
  then show ?thesis using p by metis
qed

text \<open>What the legacy rules put into the exact map and into the trie.\<close>

definition exact_pairs :: "Rule \<Rightarrow> (string \<times> string) list" where
  "exact_pairs rule = (if ruleNetworkType rule = '''' \<and> Type rule = ''domain'' then map (\<lambda>v. (v, ruleAction rule)) (Values rule) else [])"

definition trie_pairs :: "env \<Rightarrow> Rule \<Rightarrow> (string \<times> string) list" where
  "trie_pairs e rule =
     (if ruleNetworkType rule = '''' \<and> Type rule = ''domain-suffix'' then map (\<lambda>v. (v, ruleAction rule)) (Values rule)
      else if ruleNetworkType rule = '''' \<and> Type rule = ''geosite'' then map (\<lambda>v. (v, ruleAction rule)) (site_domains e (Values rule))
      else [])"

definition upd_all :: "('v \<Rightarrow> 'k) \<Rightarrow> ('v \<times> 'a) list \<Rightarrow> ('k \<Rightarrow> 'a option) \<Rightarrow> 'k \<Rightarrow> 'a option" where
  "upd_all f ps m = fold (\<lambda>(v, a) m. m(f v \<mapsto> a)) ps m"

lemma addRule_maps:
  "exactDomain (addRule e rule r) = upd_all exact_key (exact_pairs rule) (exactDomain r)"
  "domainTrie (addRule e rule r) = insert_all DomainTrie_Insert (trie_pairs e rule) (domainTrie r)"
  by (simp_all add: addRule_def exact_pairs_def trie_pairs_def set_all_def upd_all_def insert_all_def fold_map comp_def)

lemma rules_exactDomain:
  "exactDomain (fold (addRule e) rls r) = upd_all exact_key (concat (map exact_pairs rls)) (exactDomain r)"
  by (induction rls arbitrary: r) (simp_all add: addRule_maps upd_all_def)

lemma rules_domainTrie:
  "domainTrie (fold (addRule e) rls r) = insert_all DomainTrie_Insert (concat (map (trie_pairs e) rls)) (domainTrie r)"
  by (induction rls arbitrary: r) (simp_all add: addRule_maps insert_all_def)

lemma fold_update_functional:
  assumes "\<And>v a v' a'. (v, a) \<in> set ps \<Longrightarrow> (v', a') \<in> set ps \<Longrightarrow> f v = f v' \<Longrightarrow> a = a'"
  shows "upd_all f ps (\<lambda>_. None) k = Some a \<longleftrightarrow> (\<exists>v. (v, a) \<in> set ps \<and> f v = k)"
  using assms
proof (induction ps rule: rev_induct)
  case (snoc p ps)
  obtain v0 a0 where p: "p = (v0, a0)" by (cases p)
  have IH: "upd_all f ps (\<lambda>_. None) k = Some a \<longleftrightarrow> (\<exists>v. (v, a) \<in> set ps \<and> f v = k)"
    using snoc.prems by (intro snoc.IH) auto
  have step: "upd_all f (ps @ [(v0, a0)]) (\<lambda>_. None) = (upd_all f ps (\<lambda>_. None))(f v0 \<mapsto> a0)" by (simp add: upd_all_def)
  show ?case
  proof (cases "f v0 = k")
    case True
    have "a0 = a" if "(v, a) \<in> set ps" "f v = k" for v
      using snoc.prems [of v0 a0 v a] that True p by simp
    then show ?thesis using True p by (auto simp: step)
  next
    case False
    then show ?thesis using IH p by (auto simp: step)
  qed
qed (simp add: upd_all_def)

lemma trie_entries_functional:
  assumes "\<And>v a v' a'. (v, a) \<in> set ps \<Longrightarrow> (v', a') \<in> set ps \<Longrightarrow> reverseDomain v = reverseDomain v' \<Longrightarrow> a = a'"
  shows "trie_entries (insert_all DomainTrie_Insert ps NewDomainTrie) k = Some a \<longleftrightarrow> (\<exists>v. (v, a) \<in> set ps \<and> reverseDomain v = k)"
proof
  assume "\<exists>v. (v, a) \<in> set ps \<and> reverseDomain v = k"
  then obtain v where v: "(v, a) \<in> set ps" "reverseDomain v = k" by blast
  then have "trie_entries (insert_all DomainTrie_Insert ps NewDomainTrie) k \<noteq> None"
    by (auto simp: trie.entries_all_None)
  then obtain b where "trie_entries (insert_all DomainTrie_Insert ps NewDomainTrie) k = Some b" by blast
  moreover from trie.entries_all_SomeD [OF this] have "b = a" using assms v by blast
  ultimately show "trie_entries (insert_all DomainTrie_Insert ps NewDomainTrie) k = Some a" by simp
qed (rule trie.entries_all_SomeD)

lemma upd_all_same:
  assumes "\<And>v a v' a'. (v, a) \<in> set ps \<Longrightarrow> (v', a') \<in> set ps \<Longrightarrow> f v = f v' \<Longrightarrow> a = a'" and "set ps' = set ps"
  shows "upd_all f ps' (\<lambda>_. None) = upd_all f ps (\<lambda>_. None)"
proof
  fix k
  have "upd_all f ps' (\<lambda>_. None) k = Some a \<longleftrightarrow> upd_all f ps (\<lambda>_. None) k = Some a" for a
    using fold_update_functional [of ps f k a, OF assms(1)] fold_update_functional [of ps' f k a] assms by simp
  then show "upd_all f ps' (\<lambda>_. None) k = upd_all f ps (\<lambda>_. None) k" by (metis not_None_eq)
qed

lemma trie_entries_same:
  assumes "\<And>v a v' a'. (v, a) \<in> set ps \<Longrightarrow> (v', a') \<in> set ps \<Longrightarrow> reverseDomain v = reverseDomain v' \<Longrightarrow> a = a'"
    and "set ps' = set ps"
  shows "trie_entries (insert_all DomainTrie_Insert ps' NewDomainTrie) = trie_entries (insert_all DomainTrie_Insert ps NewDomainTrie)"
    (is "?e ps' = ?e ps")
proof
  fix k
  have "?e ps' k = Some a \<longleftrightarrow> ?e ps k = Some a" for a
    using trie_entries_functional [of ps k a, OF assms(1)] trie_entries_functional [of ps' k a] assms by simp
  then show "?e ps' k = ?e ps k" by (metis not_None_eq)
qed

lemma HasPrefix_take: "HasPrefix (take n v) p \<Longrightarrow> HasPrefix v p"
proof -
  assume "HasPrefix (take n v) p"
  then obtain t where "take n v = p @ t" by (auto simp: HasPrefix_iff)
  then have "v = p @ (t @ drop n v)" using append_take_drop_id [of n v] by simp
  then show ?thesis unfolding HasPrefix_iff by blast
qed

lemma exact_key_normalize:
  assumes "v \<noteq> ''+.''" shows "normalizeDomain v = TrimPrefix (exact_key v) ''+.''"
proof (cases "HasPrefix v ''+.''")
  case True
  then obtain w where v: "v = ''+.'' @ w" by (auto simp: HasPrefix_iff)
  have "w \<noteq> []" using assms v by auto
  then obtain x y where w: "w = x @ [y]" by (cases w rule: rev_cases) auto
  have dot: "TrimSuffix (z @ [y]) ''.'' = (if y = CHR ''.'' then z else z @ [y])" for z
    by (simp add: TrimSuffix_def HasSuffix_def)
  have "TrimSuffix v ''.'' = ''+.'' @ TrimSuffix w ''.''"
    using dot [of x] dot [of "''+.'' @ x"] by (simp add: v w)
  then show ?thesis by (simp add: v normalizeDomain_def exact_key_def TrimPrefix_def)
next
  case False
  have "\<not> HasPrefix (TrimSuffix v ''.'') ''+.''"
    using False HasPrefix_take [of _ v "''+.''"] by (auto simp: TrimSuffix_def)
  then show ?thesis
    using False by (simp add: normalizeDomain_def exact_key_def TrimPrefix_def HasPrefix_ToLower_wild)
qed

lemma same_reverse_normalize: "reverseDomain v = reverseDomain v' \<Longrightarrow> normalizeDomain v = normalizeDomain v'"
  by (simp add: reverseDomain_eq Split_inject)

lemma NewRouter_maps:
  "exactDomain (NewRouter e cfg) = upd_all exact_key (concat (map exact_pairs (cfgRules cfg))) (\<lambda>_. None)"
  "domainTrie (NewRouter e cfg) = insert_all DomainTrie_Insert (concat (map (trie_pairs e) (cfgRules cfg))) NewDomainTrie"
  by (simp_all add: NewRouter_def Let_def rules_exactDomain rules_domainTrie emptyRouter_def split: sum.splits)

lemma addRule_fixed: "defaultAct (fold (addRule e) rls r) = defaultAct r" "hooked (fold (addRule e) rls r) = hooked r"
  by (induction rls arbitrary: r) (simp_all add: addRule_def)

lemma NewRouter_fixed:
  "defaultAct (NewRouter e cfg) = (if cfgDefaultAction cfg = '''' then ''proxy'' else cfgDefaultAction cfg)"
  "hooked (NewRouter e cfg) = False"
  by (simp_all add: NewRouter_def Let_def addRule_fixed emptyRouter_def split: sum.splits)

lemma exact_pairs_functional:
  assumes "DetectConflicts e rls = []" and "\<forall>r\<in>set rls. ''+.'' \<notin> set (Values r)"
    and "(v, a) \<in> set (concat (map exact_pairs rls))" "(v', a') \<in> set (concat (map exact_pairs rls))" and "exact_key v = exact_key v'"
  shows "a = a'"
proof -
  obtain r1 r2 where r: "r1 \<in> set rls" "(v, a) \<in> set (exact_pairs r1)" "r2 \<in> set rls" "(v', a') \<in> set (exact_pairs r2)"
    using assms(3,4) by auto
  then have d: "v \<in> set (rule_domains e r1)" "a = ruleAction r1" "v \<in> set (Values r1)"
      "v' \<in> set (rule_domains e r2)" "a' = ruleAction r2" "v' \<in> set (Values r2)"
    by (auto simp: exact_pairs_def rule_domains_def split: if_splits)
  have "v \<noteq> ''+.''" "v' \<noteq> ''+.''" using assms(2) d(3,6) r(1,3) by metis+
  then have "normalizeDomain v = normalizeDomain v'"
    using exact_key_normalize [of v] exact_key_normalize [of v'] assms(5) by simp
  then show ?thesis using no_conflicts_functional [OF assms(1) r(1,3) d(1,4)] d(2,5) by simp
qed

lemma trie_pairs_functional:
  assumes "DetectConflicts e rls = []"
    and "(v, a) \<in> set (concat (map (trie_pairs e) rls))" "(v', a') \<in> set (concat (map (trie_pairs e) rls))"
    and "reverseDomain v = reverseDomain v'"
  shows "a = a'"
proof -
  obtain r1 r2 where r: "r1 \<in> set rls" "(v, a) \<in> set (trie_pairs e r1)" "r2 \<in> set rls" "(v', a') \<in> set (trie_pairs e r2)"
    using assms(2,3) by auto
  then have d: "v \<in> set (rule_domains e r1)" "a = ruleAction r1" "v' \<in> set (rule_domains e r2)" "a' = ruleAction r2"
    by (auto simp: trie_pairs_def rule_domains_def split: if_splits)
  then show ?thesis
    using no_conflicts_functional [OF assms(1) r(1,3) d(1,3) same_reverse_normalize [OF assms(4)]] by simp
qed


definition no_cfg :: RouterConfig where
  "no_cfg = \<lparr>cfgRuleChain = [], cfgRules = [], cfgDefaultAction = '''', cfgRuleProviders = (\<lambda>_. None)\<rparr>"


section \<open>Full decisions\<close>

definition first_some :: "'a option list \<Rightarrow> 'a \<Rightarrow> 'a" where
  "first_some xs d = (case find (\<lambda>x. x \<noteq> None) xs of Some (Some a) \<Rightarrow> a | _ \<Rightarrow> d)"

lemma first_some_simps [simp]:
  "first_some [] d = d" "first_some (Some a # xs) d = a" "first_some (None # xs) d = first_some xs d"
  by (simp_all add: first_some_def)

lemma first_some_append: "first_some (xs @ ys) d = first_some xs (first_some ys d)"
proof (induction xs)
  case (Cons x xs)
  then show ?case by (cases x) simp_all
qed simp

text \<open>
  What a decision is in terms of the configured rules. \<open>first_action\<close> and \<open>last_action\<close> are the action
  of the first and of the last rule of the list with a property; a legacy rule has no network type.
\<close>

definition first_action :: "(Rule \<Rightarrow> bool) \<Rightarrow> Rule list \<Rightarrow> string option" where
  "first_action P rls = map_option ruleAction (find P rls)"

definition last_action :: "(Rule \<Rightarrow> bool) \<Rightarrow> Rule list \<Rightarrow> string option" where
  "last_action P rls = last_some (\<lambda>r. if P r then Some (ruleAction r) else None) rls"

definition legacy_rule :: "string \<Rightarrow> (string \<Rightarrow> bool) \<Rightarrow> Rule \<Rightarrow> bool" where
  "legacy_rule t ok rule \<longleftrightarrow> ruleNetworkType rule = '''' \<and> Type rule = t \<and> list_ex ok (Values rule)"

text \<open>The suffix and geosite rules: the deepest entry on the path of the domain, and of the rules with
  that entry the last.\<close>

definition suffix_values :: "env \<Rightarrow> Rule \<Rightarrow> string list" where
  "suffix_values e rule =
     (if ruleNetworkType rule \<noteq> '''' then []
      else if Type rule = ''domain-suffix'' then Values rule
      else if Type rule = ''geosite'' then site_domains e (Values rule) else [])"

definition suffix_action :: "env \<Rightarrow> string \<Rightarrow> Rule list \<Rightarrow> string option" where
  "suffix_action e d rls =
     last_some (\<lambda>path. last_action (\<lambda>r. list_ex (\<lambda>v. reverseDomain v = path) (suffix_values e r)) rls) (candidates (reverseDomain d))"

definition domain_action :: "env \<Rightarrow> string \<Rightarrow> Rule list \<Rightarrow> string option" where
  "domain_action e d rls =
     (case last_action (legacy_rule ''domain'' (\<lambda>v. exact_key v = exact_key d)) rls of
        Some a \<Rightarrow> Some a
      | None \<Rightarrow> suffix_action e d rls)"

definition network_action :: "string \<Rightarrow> string \<Rightarrow> IP \<Rightarrow> string \<Rightarrow> string \<Rightarrow> Rule list \<Rightarrow> string option" where
  "network_action nt domain ip process protocol rls =
     (if nt = '''' then None
      else first_action (\<lambda>r. ruleNetworkType r \<noteq> '''' \<and> EqualFold (ruleNetworkType r) nt \<and>
        network_rule_matches \<lparr>nrType = Type r, nrValues = Values r, nrAction = ruleAction r,
          nrNetworkType = ToLower (ruleNetworkType r)\<rparr> domain ip process protocol) rls)"

definition country_action :: "env \<Rightarrow> IP \<Rightarrow> string option" where
  "country_action e ip =
     (case envGeoIP e of None \<Rightarrow> None | Some db \<Rightarrow> if LookupCountry (envOrder e) db ip = ''CN'' then Some ''direct'' else None)"

definition chain_rule_action :: "env \<Rightarrow> RouterConfig \<Rightarrow> MatchContext \<Rightarrow> string option" where
  "chain_rule_action e cfg ctx =
     (case CompileRuleChain (cfgRuleProviders cfg) (cfgRuleChain cfg) of
        Inl _ \<Rightarrow> None
      | Inr compiled \<Rightarrow> chain_action e compiled ctx)"

text \<open>A protocol, process or domain rule whose action is the default action is passed over.\<close>

definition unless_default :: "string \<Rightarrow> bool \<Rightarrow> string option \<Rightarrow> string option" where
  "unless_default dflt given x = (if given \<and> x \<noteq> Some dflt then x else None)"

lemma last_action_simps [simp]:
  "last_action P [] = None"
  "last_action P (rls @ [r]) = (if P r then Some (ruleAction r) else last_action P rls)"
  by (simp_all add: last_action_def last_some_snoc)

lemma set_all_at: "set_all key vs a m k = (if list_ex (\<lambda>v. key v = k) vs then Some a else m k)"
  unfolding set_all_def by (induction vs arbitrary: m) auto

lemma fold_addRule_snoc: "fold (addRule e) (rls @ [r]) r0 = addRule e r (fold (addRule e) rls r0)"
  by simp

lemma rules_maps:
  assumes "processMap r0 = (\<lambda>_. None)" and "protocolMap r0 = (\<lambda>_. None)" and "exactDomain r0 = (\<lambda>_. None)"
  shows "processMap (fold (addRule e) rls r0) (ToLower x) = last_action (legacy_rule ''process'' (\<lambda>v. EqualFold v x)) rls"
    and "protocolMap (fold (addRule e) rls r0) (ToLower x) = last_action (legacy_rule ''protocol'' (\<lambda>v. EqualFold v x)) rls"
    and "exactDomain (fold (addRule e) rls r0) (exact_key x) = last_action (legacy_rule ''domain'' (\<lambda>v. exact_key v = exact_key x)) rls"
  using assms
  by (induction rls rule: rev_induct)
    (simp_all add: addRule_def legacy_rule_def set_all_at EqualFold_def)

lemma suffix_entries:
  "trie_entries (insert_all DomainTrie_Insert (concat (map (trie_pairs e) rls)) NewDomainTrie) path =
     last_action (\<lambda>r. list_ex (\<lambda>v. reverseDomain v = path) (suffix_values e r)) rls"
proof (induction rls rule: rev_induct)
  case Nil
  show ?case by (simp add: insert_all_def trie.entries_empty)
next
  case (snoc r rls)
  have "trie_entries (insert_all DomainTrie_Insert (map (\<lambda>v. (v, a)) vs) t) path =
      (if list_ex (\<lambda>v. reverseDomain v = path) vs then Some a else trie_entries t path)" for vs a t
    by (induction vs arbitrary: t) (auto simp: insert_all_def trie.entries_insert)
  moreover have "trie_pairs e r = map (\<lambda>v. (v, ruleAction r)) (suffix_values e r)"
    by (simp add: trie_pairs_def suffix_values_def)
  ultimately show ?case
    using snoc by (simp add: insert_all_def)
qed

lemma rules_suffix:
  "DomainTrie_Lookup (domainTrie (NewRouter e cfg)) d = as_pair (suffix_action e d (cfgRules cfg))"
proof -
  have "trie_entries (insert_all DomainTrie_Insert (concat (map (trie_pairs e) (cfgRules cfg))) NewDomainTrie) =
      (\<lambda>path. last_action (\<lambda>r. list_ex (\<lambda>v. reverseDomain v = path) (suffix_values e r)) (cfgRules cfg))"
    by (rule ext) (rule suffix_entries)
  then show ?thesis
    by (simp add: NewRouter_maps trie.lookup_entries best_match_def suffix_action_def)
qed

lemma rules_networks:
  "networkRules (fold (addRule e) rls r0) = networkRules r0 @
     map (\<lambda>r. \<lparr>nrType = Type r, nrValues = Values r, nrAction = ruleAction r, nrNetworkType = ToLower (ruleNetworkType r)\<rparr>)
       (filter (\<lambda>r. ruleNetworkType r \<noteq> '''') rls)"
  by (induction rls rule: rev_induct) (simp_all add: addRule_def)

lemma find_cidrs:
  "map_option snd (find (\<lambda>(n, a). IPNet_Contains n ip) (add_cidrs vs a)) = (if list_ex (cidr_match ip) vs then Some a else None)"
  by (induction vs a rule: add_cidrs.induct) (auto simp: cidr_match_def split: option.splits)

lemma find_append:
  "map_option f (find P (xs @ ys)) = (case map_option f (find P xs) of Some x \<Rightarrow> Some x | None \<Rightarrow> map_option f (find P ys))"
  by (induction xs) auto

lemma rules_cidrs:
  assumes "ipRules r0 = []"
  shows "map_option snd (find (\<lambda>(n, a). IPNet_Contains n ip) (ipRules (fold (addRule e) rls r0))) =
    first_action (legacy_rule ''ip-cidr'' (cidr_match ip)) rls"
proof (induction rls rule: rev_induct)
  case Nil
  show ?case by (simp add: assms first_action_def)
next
  case (snoc r rls)
  have "ipRules (fold (addRule e) (rls @ [r]) r0) = ipRules (fold (addRule e) rls r0) @
      (if ruleNetworkType r = '''' \<and> Type r = ''ip-cidr'' then add_cidrs (Values r) (ruleAction r) else [])"
    by (simp add: addRule_def)
  then show ?case
    using snoc find_cidrs [of ip "Values r" "ruleAction r"]
    by (simp add: find_append first_action_def legacy_rule_def split: option.split)
qed

lemma NewRouter_chain:
  "ruleChain (NewRouter e cfg) =
     (case CompileRuleChain (cfgRuleProviders cfg) (cfgRuleChain cfg) of Inl _ \<Rightarrow> [] | Inr compiled \<Rightarrow> compiled)"
proof -
  have "ruleChain (fold (addRule e) rls r) = ruleChain r" for rls r
    by (induction rls arbitrary: r) (simp_all add: addRule_def)
  moreover have "CompileRuleChain (cfgRuleProviders cfg) [] = Inr []"
    by (simp add: CompileRuleChain_def)
  ultimately show ?thesis
    by (simp add: NewRouter_def Let_def emptyRouter_def split: sum.splits)
qed

lemma NewRouter_rules:
  "processMap (NewRouter e cfg) (ToLower x) = last_action (legacy_rule ''process'' (\<lambda>v. EqualFold v x)) (cfgRules cfg)"
  "protocolMap (NewRouter e cfg) (ToLower x) = last_action (legacy_rule ''protocol'' (\<lambda>v. EqualFold v x)) (cfgRules cfg)"
  "exactDomain (NewRouter e cfg) (exact_key x) = last_action (legacy_rule ''domain'' (\<lambda>v. exact_key v = exact_key x)) (cfgRules cfg)"
  "map_option snd (find (\<lambda>(n, a). IPNet_Contains n ip) (ipRules (NewRouter e cfg))) =
     first_action (legacy_rule ''ip-cidr'' (cidr_match ip)) (cfgRules cfg)"
  "networkRules (NewRouter e cfg) =
     map (\<lambda>r. \<lparr>nrType = Type r, nrValues = Values r, nrAction = ruleAction r, nrNetworkType = ToLower (ruleNetworkType r)\<rparr>)
       (filter (\<lambda>r. ruleNetworkType r \<noteq> '''') (cfgRules cfg))"
  by (simp_all add: NewRouter_def Let_def rules_maps rules_cidrs rules_networks emptyRouter_def split: sum.splits)

lemma find_map_filter: "find P (map f (filter Q xs)) = map_option f (find (\<lambda>x. Q x \<and> P (f x)) xs)"
  by (induction xs) auto

lemma network_decision:
  "matchNetworkRules (SetNetworkType nt (NewRouter e cfg)) domain ip process protocol =
     network_action nt domain ip process protocol (cfgRules cfg)"
proof -
  let ?f = "\<lambda>r. \<lparr>nrType = Type r, nrValues = Values r, nrAction = ruleAction r, nrNetworkType = ToLower (ruleNetworkType r)\<rparr>"
  have none: "first_action P rls = None" if "filter (\<lambda>r. ruleNetworkType r \<noteq> '''') rls = []" "\<And>r. P r \<Longrightarrow> ruleNetworkType r \<noteq> ''''" for P rls
    using that by (auto simp: first_action_def find_None_iff filter_empty_conv)
  show ?thesis
  proof (cases "nt = '''' \<or> networkRules (NewRouter e cfg) = []")
    case True
    then show ?thesis
      using none [of "cfgRules cfg" "\<lambda>r. ruleNetworkType r \<noteq> '''' \<and> EqualFold (ruleNetworkType r) nt \<and>
        network_rule_matches (?f r) domain ip process protocol"]
      by (auto simp: matchNetworkRules_def SetNetworkType_def network_action_def NewRouter_rules)
  next
    case False
    then show ?thesis
      by (simp add: matchNetworkRules_def SetNetworkType_def network_action_def NewRouter_rules find_map_filter
          first_action_def option.map_comp comp_def EqualFold_def conj_assoc)
  qed
qed

lemma category_answers:
  "r = SetNetworkType nt (NewRouter e cfg) \<Longrightarrow> dflt = defaultAct r \<Longrightarrow>
     fst (decide r (p \<noteq> '''') (MatchProtocol r p) rest) =
       first_some [unless_default dflt (p \<noteq> '''') (last_action (legacy_rule ''protocol'' (\<lambda>v. EqualFold v p)) (cfgRules cfg))] (fst rest)"
  "r = SetNetworkType nt (NewRouter e cfg) \<Longrightarrow> dflt = defaultAct r \<Longrightarrow>
     fst (decide r (p \<noteq> '''') (MatchProcess r p) rest) =
       first_some [unless_default dflt (p \<noteq> '''') (last_action (legacy_rule ''process'' (\<lambda>v. EqualFold v p)) (cfgRules cfg))] (fst rest)"
  "r = SetNetworkType nt (NewRouter e cfg) \<Longrightarrow> dflt = defaultAct r \<Longrightarrow>
     fst (decide r (d \<noteq> '''') (MatchDomain r d) rest) =
       first_some [unless_default dflt (d \<noteq> '''') (domain_action e d (cfgRules cfg))] (fst rest)"
  by (auto simp: decide_def MatchProtocol_def MatchProcess_def MatchDomain_def SetNetworkType_def NewRouter_rules
      rules_suffix domain_action_def unless_default_def as_pair_def split: option.splits)

lemma ip_answer:
  "r = SetNetworkType nt (NewRouter e cfg) \<Longrightarrow>
     fst (if ip \<noteq> [] then MatchIP e r ip else (defaultAct r, [])) =
       first_some [if ip = [] then None else first_action (legacy_rule ''ip-cidr'' (cidr_match ip)) (cfgRules cfg),
         if ip = [] then None else country_action e ip] (defaultAct r)"
  using NewRouter_rules(4) [of ip e cfg, symmetric]
  by (auto simp: MatchIP_def SetNetworkType_def country_action_def split: option.splits)


text \<open>A rule that names the default action is no rule for phase 3: a connection of process \<open>p\<close> is decided
  by the domain rules although the process has a rule of its own.\<close>

lemma default_rule_inert:
  "unless_default dflt given (Some dflt) = None"
  by (simp add: unless_default_def)

definition shadowed :: Router where
  "shadowed = (emptyRouter ''proxy'')\<lparr>processMap := [''curl'' \<mapsto> ''proxy''],
     domainTrie := DomainTrie_Insert ''a.com'' ''direct'' NewDomainTrie\<rparr>"

lemma explicit_process_rule_shadowed:
  "fst (MatchProcess shadowed ''curl'') = ''proxy''"
  "fst (Match sample_env shadowed ''a.com'' [] ''curl'' '''' 443 []) = ''direct''"
  by code_simp+

text \<open>GeoIP rules of the legacy list change nothing, whatever countries and action they name: the
  country test of \<open>MatchIP\<close> is fixed to \<open>CN\<close>.\<close>

lemma geoip_rules_inert:
  "Type rule = ''geoip'' \<Longrightarrow> ruleNetworkType rule = '''' \<Longrightarrow> addRule e rule r = r"
  by (simp add: addRule_def)

text \<open>A rule with a network type and one of the types \<open>geosite\<close> and \<open>geoip\<close> never matches.\<close>

lemma network_geo_rules_never_match:
  "nrType nr \<in> {''geosite'', ''geoip''} \<Longrightarrow> \<not> network_rule_matches nr domain ip process protocol"
  by (auto simp: network_rule_matches_def)

lemma DryRun_agrees: "domain \<noteq> '''' \<Longrightarrow> drAction (DryRun r domain) = fst (MatchDomain r domain)"
  by (simp add: DryRun_def MatchDomain_def ruled_def unruled_def case_prod_beta split: option.splits)

lemma ConfigRuleToRouterRule_keeps:
  "ruleAction (ConfigRuleToRouterRule rule) = rrAction rule"
  "ruleNetworkType (ConfigRuleToRouterRule rule) = rrNetworkType rule"
  by (simp_all add: ConfigRuleToRouterRule_def Let_def)

end
