(* ===== verification/Mesh.thy ===== *)
theory Mesh
  imports IPv4Nets
begin

text \<open>
  The mesh protocol of \<^verbatim>\<open>mesh/mesh.go\<close> (frames and the handshake) and the address allocators and the
  peer table of \<^verbatim>\<open>mesh/peertable.go\<close>. The two allocators share a contract, the locale \<open>lease_pool\<close>: an
  address is handed out only while nobody holds it. A Go map of booleans is a predicate; the bound
  writers of the peer table are abstract values whose \<open>Write\<close> is a parameter.
\<close>

unbundle bit_operations_syntax

datatype mesh_error =
  FrameTooLarge nat | MeshIO io_error | ZeroFrame | HandshakeShort nat | MeshVersion byte
| MeshCIDR string | MeshPanic | NotIPv6 string | PrefixTooLong nat | PoolExhausted | PoolExhausted6

section \<open>Frames and handshake\<close>

definition ProtocolVersion :: byte where "ProtocolVersion = 1"
definition HandshakeSize :: nat where "HandshakeSize = 16"
definition MaxFrameSize :: int where "MaxFrameSize = 65535"

definition WriteFrame :: "bytes \<Rightarrow> mesh_error written" where
  "WriteFrame payload =
     (if int (length payload) > MaxFrameSize then ([], Some (FrameTooLarge (length payload)))
      else wseq (wwrite (put16 (u16_of_len (length payload)))) (wwrite payload))"

definition ReadFrame :: "bytes \<Rightarrow> mesh_error + (bytes \<times> bytes)" where
  "ReadFrame r =
     rbind (map_err MeshIO (read_full 2 r)) (\<lambda>(hdr, r1).
       let len = get16 hdr
       in if len = 0 then Inl ZeroFrame
          else map_err MeshIO (read_full (unat len) r1))"

definition EncodeHandshake :: "IP \<Rightarrow> IP \<Rightarrow> IP \<Rightarrow> bytes" where
  "EncodeHandshake ip msk gateway =
     [ProtocolVersion, 0, 0, 0] @ copy_into (zeros 4) (To4 ip) @ copy_into (zeros 4) (To4 msk) @ copy_into (zeros 4) (To4 gateway)"

definition DecodeHandshake :: "bytes \<Rightarrow> mesh_error + (IP \<times> IP \<times> IP)" where
  "DecodeHandshake data =
     (if length data < HandshakeSize then Inl (HandshakeShort (length data))
      else if data ! 0 \<noteq> ProtocolVersion then Inl (MeshVersion (data ! 0))
      else Inr (slice 4 8 data, slice 8 12 data, slice 12 16 data))"

section \<open>Address allocators\<close>

record IPAllocator =
  anetwork :: IPNet
  agateway :: IP
  anext :: u32
  amax :: u32
  aused :: "u32 \<Rightarrow> bool"

text \<open>\<open>binary.BigEndian.Uint32\<close> of a nil slice panics.\<close>

definition NewIPAllocator :: "string \<Rightarrow> mesh_error + IPAllocator" where
  "NewIPAllocator cidr =
     (case ParseCIDR cidr of
        None \<Rightarrow> Inl (MeshCIDR cidr)
      | Some ipNet \<Rightarrow>
          if To4 (netIP ipNet) = [] then Inl MeshPanic
          else let base = get32 (To4 (netIP ipNet));
                   size = push_bit (8 * length (netMask ipNet) - IPMask_Size (netMask ipNet)) 1
               in Inr \<lparr>anetwork = ipNet, agateway = put32 (base + 1), anext = 2, amax = size - 1, aused = (\<lambda>_. False)\<rparr>)"

text \<open>The search loop \<open>for offset := lo; offset < hi; offset++\<close>.\<close>

function find_free :: "('n::len word \<Rightarrow> bool) \<Rightarrow> 'n word \<Rightarrow> 'n word \<Rightarrow> 'n word option" where
  "find_free used lo hi =
     (if lo < hi then (if \<not> used lo then Some lo else find_free used (lo + 1) hi) else None)"
  by pat_completeness auto

lemma unat_Suc_less:
  fixes lo hi :: "'n::len word"
  assumes "lo < hi" shows "unat (lo + 1) = unat lo + 1"
proof -
  have "unat lo + 1 \<le> unat hi" using assms by (simp add: word_less_nat_alt)
  also have "\<dots> < 2 ^ LENGTH('n)" by (rule unsigned_less)
  finally show ?thesis by (simp add: unat_word_ariths)
qed

termination find_free
  by (relation "measure (\<lambda>(used, lo, hi). unat hi - unat lo)") (auto simp: unat_Suc_less word_less_nat_alt)

declare find_free.simps [simp del]

definition base4 :: "IPAllocator \<Rightarrow> u32" where
  "base4 a = get32 (To4 (netIP (anetwork a)))"

definition take4 :: "u32 \<Rightarrow> IPAllocator \<Rightarrow> IPAllocator \<times> IP" where
  "take4 offset a = (a\<lparr>aused := (aused a)(offset := True), anext := offset + 1\<rparr>, put32 (base4 a + offset))"

definition Allocate :: "IPAllocator \<Rightarrow> mesh_error + (IPAllocator \<times> IP)" where
  "Allocate a =
     (case find_free (aused a) (anext a) (amax a) of
        Some offset \<Rightarrow> Inr (take4 offset a)
      | None \<Rightarrow>
          (case find_free (aused a) 2 (anext a) of
             Some offset \<Rightarrow> Inr (take4 offset a)
           | None \<Rightarrow> Inl PoolExhausted))"

definition Release :: "IP \<Rightarrow> IPAllocator \<Rightarrow> IPAllocator" where
  "Release ip a =
     (let ip4 = To4 ip
      in if ip4 = [] then a
         else let offset = get32 ip4 - base4 a
              in a\<lparr>aused := (aused a)(offset := False), anext := (if offset < anext a then offset else anext a)\<rparr>)"

definition Allocator_Mask :: "IPAllocator \<Rightarrow> IP" where
  "Allocator_Mask a = netMask (anetwork a)"

record IPv6Allocator =
  bnetwork :: IPNet
  bprefix :: bytes
  bnext :: u64
  bmax :: u64
  bused :: "u64 \<Rightarrow> bool"

definition NewIPv6Allocator :: "string \<Rightarrow> mesh_error + IPv6Allocator" where
  "NewIPv6Allocator cidr =
     (case ParseCIDR cidr of
        None \<Rightarrow> Inl (MeshCIDR cidr)
      | Some ipNet \<Rightarrow>
          if To4 (netIP ipNet) \<noteq> [] then Inl (NotIPv6 cidr)
          else let ones = IPMask_Size (netMask ipNet)
               in if ones > 64 then Inl (PrefixTooLong ones)
                  else let hostBits = 128 - ones;
                           maxVal = (if hostBits \<ge> 64 then NOT 0 else push_bit hostBits 1 - 1)
                       in Inr \<lparr>bnetwork = ipNet, bprefix = copy_into (zeros 16) (To16 (netIP ipNet)), bnext = 2,
                               bmax = maxVal, bused = (\<lambda>_. False)\<rparr>)"

definition makeIP :: "IPv6Allocator \<Rightarrow> u64 \<Rightarrow> IP" where
  "makeIP a offset = take 8 (bprefix a) @ put64 offset"

definition take6 :: "u64 \<Rightarrow> IPv6Allocator \<Rightarrow> IPv6Allocator \<times> IP" where
  "take6 offset a = (a\<lparr>bused := (bused a)(offset := True), bnext := offset + 1\<rparr>, makeIP a offset)"

text \<open>The first loop has the bounds \<open>offset < max\<close> and \<open>offset < next + 10000\<close>, the latter modulo \<open>2^64\<close>.\<close>

definition Allocate6 :: "IPv6Allocator \<Rightarrow> mesh_error + (IPv6Allocator \<times> IP)" where
  "Allocate6 a =
     (case find_free (bused a) (bnext a) (min (bmax a) (bnext a + 10000)) of
        Some offset \<Rightarrow> Inr (take6 offset a)
      | None \<Rightarrow>
          (case find_free (bused a) 2 (bnext a) of
             Some offset \<Rightarrow> Inr (take6 offset a)
           | None \<Rightarrow> Inl PoolExhausted6))"

definition Release6 :: "IP \<Rightarrow> IPv6Allocator \<Rightarrow> IPv6Allocator" where
  "Release6 ip a =
     (let ip16 = To16 ip
      in if ip16 = [] then a
         else let offset = get64 (drop 8 ip16)
              in a\<lparr>bused := (bused a)(offset := False), bnext := (if offset < bnext a then offset else bnext a)\<rparr>)"

definition GatewayV6 :: "IPv6Allocator \<Rightarrow> IP" where
  "GatewayV6 a = makeIP a 1"

record DualStackAllocator =
  dv4 :: IPAllocator
  dv6 :: IPv6Allocator

definition NewDualStackAllocator :: "string \<Rightarrow> string \<Rightarrow> mesh_error + DualStackAllocator" where
  "NewDualStackAllocator v4CIDR v6CIDR =
     rbind (NewIPAllocator v4CIDR) (\<lambda>v4. rbind (NewIPv6Allocator v6CIDR) (\<lambda>v6. Inr \<lparr>dv4 = v4, dv6 = v6\<rparr>))"

definition AllocateDualStack :: "DualStackAllocator \<Rightarrow> DualStackAllocator \<times> (mesh_error + (IP \<times> IP))" where
  "AllocateDualStack d =
     (case Allocate (dv4 d) of
        Inl e \<Rightarrow> (d, Inl e)
      | Inr (a4, v4) \<Rightarrow>
          (case Allocate6 (dv6 d) of
             Inl e \<Rightarrow> (d\<lparr>dv4 := Release v4 a4\<rparr>, Inl e)
           | Inr (a6, v6) \<Rightarrow> (d\<lparr>dv4 := a4, dv6 := a6\<rparr>, Inr (v4, v6))))"

definition AllocateV4 :: "DualStackAllocator \<Rightarrow> mesh_error + (DualStackAllocator \<times> IP)" where
  "AllocateV4 d = rbind (Allocate (dv4 d)) (\<lambda>(a, ip). Inr (d\<lparr>dv4 := a\<rparr>, ip))"

definition AllocateV6 :: "DualStackAllocator \<Rightarrow> mesh_error + (DualStackAllocator \<times> IP)" where
  "AllocateV6 d = rbind (Allocate6 (dv6 d)) (\<lambda>(a, ip). Inr (d\<lparr>dv6 := a\<rparr>, ip))"

definition ReleaseV4 :: "IP \<Rightarrow> DualStackAllocator \<Rightarrow> DualStackAllocator" where
  "ReleaseV4 ip d = d\<lparr>dv4 := Release ip (dv4 d)\<rparr>"

definition ReleaseV6 :: "IP \<Rightarrow> DualStackAllocator \<Rightarrow> DualStackAllocator" where
  "ReleaseV6 ip d = d\<lparr>dv6 := Release6 ip (dv6 d)\<rparr>"

section \<open>The peer table\<close>

definition AddrFromSlice :: "IP \<Rightarrow> Addr option" where
  "AddrFromSlice ip = (if length ip = 4 then Some (Addr4 ip) else if length ip = 16 then Some (Addr6 ip '''') else None)"

fun Unmap :: "Addr \<Rightarrow> Addr" where
  "Unmap (Addr4 b) = Addr4 b"
| "Unmap (Addr6 b z) = (if take 12 b = v4InV6Prefix then Addr4 (drop 12 b) else Addr6 b z)"

text \<open>The zero \<open>netip.Addr\<close> is \<open>None\<close>.\<close>

definition vipKey :: "IP \<Rightarrow> Addr option" where
  "vipKey ip = map_option Unmap (AddrFromSlice ip)"

type_synonym 'w PeerTable = "Addr option \<Rightarrow> 'w option"

definition NewPeerTable :: "'w PeerTable" where
  "NewPeerTable = (\<lambda>_. None)"

definition Register :: "IP \<Rightarrow> 'w \<Rightarrow> 'w PeerTable \<Rightarrow> 'w PeerTable" where
  "Register ip w pt = pt(vipKey ip \<mapsto> w)"

definition Unregister :: "IP \<Rightarrow> 'w PeerTable \<Rightarrow> 'w PeerTable" where
  "Unregister ip pt = pt(vipKey ip := None)"

definition packet_dst :: "bytes \<Rightarrow> Addr option" where
  "packet_dst pkt =
     (if length pkt < 1 then None
      else let version = drop_bit 4 (pkt ! 0)
           in if version = 4 then (if length pkt < 20 then None else Some (Addr4 (slice 16 20 pkt)))
              else if version = 6 then (if length pkt < 40 then None else Some (Addr6 (slice 24 40 pkt) ''''))
              else None)"

text \<open>\<open>Forward\<close> returns its result and the write it makes; \<open>accepts\<close> says whether a writer's \<open>Write\<close>
  succeeds.\<close>

definition Forward :: "('w \<Rightarrow> bytes \<Rightarrow> bool) \<Rightarrow> 'w PeerTable \<Rightarrow> bytes \<Rightarrow> bool \<times> ('w \<times> bytes) option" where
  "Forward accepts pt pkt =
     (case packet_dst pkt of
        None \<Rightarrow> (False, None)
      | Some dst \<Rightarrow>
          (case pt (Some dst) of
             None \<Rightarrow> (False, None)
           | Some w \<Rightarrow> (accepts w pkt, Some (w, pkt))))"

section \<open>The contract of an allocator\<close>

datatype lease_op = Lease | Give_back nat

fun lease_step :: "('s \<Rightarrow> 'e + ('s \<times> 'ip)) \<Rightarrow> ('ip \<Rightarrow> 's \<Rightarrow> 's) \<Rightarrow> 's \<times> 'ip list \<Rightarrow> lease_op \<Rightarrow> 's \<times> 'ip list" where
  "lease_step alloc release (s, ls) Lease = (case alloc s of Inl e \<Rightarrow> (s, ls) | Inr (s', ip) \<Rightarrow> (s', ip # ls))"
| "lease_step alloc release (s, ls) (Give_back n) =
     (if n < length ls then (release (ls ! n) s, take n ls @ drop (Suc n) ls) else (s, ls))"

lemma remove_nth:
  assumes "n < length ls" and "distinct ls"
  shows "distinct (take n ls @ drop (Suc n) ls)" "set (take n ls @ drop (Suc n) ls) = set ls - {ls ! n}"
proof -
  have s: "ls = take n ls @ ls ! n # drop (Suc n) ls" using assms(1) by (rule id_take_nth_drop)
  have d: "distinct (take n ls @ ls ! n # drop (Suc n) ls)" using assms(2) s by simp
  then show "distinct (take n ls @ drop (Suc n) ls)" by simp
  have "set ls = set (take n ls @ ls ! n # drop (Suc n) ls)" using s by simp
  then show "set (take n ls @ drop (Suc n) ls) = set ls - {ls ! n}" using d by auto
qed

locale lease_pool =
  fixes alloc :: "'s \<Rightarrow> 'e + ('s \<times> 'ip)"
    and release :: "'ip \<Rightarrow> 's \<Rightarrow> 's"
    and held :: "'s \<Rightarrow> 'ip set"
    and ok :: "'s \<Rightarrow> bool"
  assumes alloc_fresh: "ok s \<Longrightarrow> alloc s = Inr (s', ip) \<Longrightarrow> ok s' \<and> ip \<notin> held s \<and> held s' = insert ip (held s)"
    and release_held: "ok s \<Longrightarrow> ip \<in> held s \<Longrightarrow> ok (release ip s) \<and> held (release ip s) = held s - {ip}"
begin

definition leases_ok :: "'s \<times> 'ip list \<Rightarrow> bool" where
  "leases_ok st \<longleftrightarrow> ok (fst st) \<and> distinct (snd st) \<and> set (snd st) = held (fst st)"

lemma step_leases_ok: "leases_ok st \<Longrightarrow> leases_ok (lease_step alloc release st op)"
proof (cases st; cases op)
  fix s ls
  assume "leases_ok st" "st = (s, ls)" "op = Lease"
  then show ?thesis by (auto simp: leases_ok_def dest: alloc_fresh split: sum.splits)
next
  fix s ls n
  assume h: "leases_ok st" "st = (s, ls)" "op = Give_back n"
  then show ?thesis
    using remove_nth [of n ls] release_held [of s "ls ! n"] nth_mem [of n ls] by (simp add: leases_ok_def)
qed

lemma run_leases_ok: "leases_ok st \<Longrightarrow> leases_ok (foldl (lease_step alloc release) st ops)"
  by (induction ops arbitrary: st) (simp_all add: step_leases_ok)

end

section \<open>Both allocators meet it\<close>

lemma find_free_Some:
  "find_free used lo hi = Some i \<Longrightarrow> lo \<le> i \<and> i < hi \<and> \<not> used i"
proof (induction used lo hi rule: find_free.induct)
  case (1 used lo hi)
  show ?case
  proof (cases "lo < hi \<and> used lo")
    case True
    then have "lo + 1 \<le> i \<and> i < hi \<and> \<not> used i" using 1 by (simp add: find_free.simps [of used lo])
    then show ?thesis using unat_Suc_less [of lo hi] True by (auto simp: word_le_nat_alt)
  qed (use 1 in \<open>simp add: find_free.simps [of used lo] split: if_splits\<close>)
qed

lemma find_free_None:
  "find_free used lo hi = None \<Longrightarrow> lo \<le> j \<Longrightarrow> j < hi \<Longrightarrow> used j"
proof (induction used lo hi rule: find_free.induct)
  case (1 used lo hi)
  have lt: "lo < hi" using 1(3,4) by simp
  then have u: "used lo" and n: "find_free used (lo + 1) hi = None"
    using 1(2) by (simp_all add: find_free.simps [of used lo] split: if_splits)
  show ?case
  proof (cases "j = lo")
    case False
    then have "lo + 1 \<le> j"
      using 1(3) unat_Suc_less [OF lt] by (simp add: word_le_nat_alt) (metis le_antisym not_less_eq_eq unsigned_word_eqI)
    then show ?thesis using 1(1) [OF lt] u n 1(4) by simp
  qed (use u in simp)
qed

definition held4 :: "IPAllocator \<Rightarrow> IP set" where
  "held4 a = (\<lambda>i. put32 (base4 a + i)) ` {i. aused a i}"

definition ok4 :: "IPAllocator \<Rightarrow> bool" where
  "ok4 a \<longleftrightarrow> 2 \<le> anext a \<and> (anext a \<le> amax a \<or> anext a = 2) \<and> (\<forall>i. aused a i \<longrightarrow> 2 \<le> i \<and> i < amax a)"

lemma put32_inj: "put32 x = put32 y \<longleftrightarrow> x = y"
  by (metis get32_put32)

lemma Allocate_cases:
  assumes "ok4 a" and "Allocate a = Inr (a', ip)"
  obtains i where "2 \<le> i" "i < amax a" "\<not> aused a i" "a' = a\<lparr>aused := (aused a)(i := True), anext := i + 1\<rparr>" "ip = put32 (base4 a + i)"
proof -
  obtain i where i: "find_free (aused a) (anext a) (amax a) = Some i \<or> find_free (aused a) 2 (anext a) = Some i"
    and t: "take4 i a = (a', ip)"
    using assms(2) by (fastforce simp: Allocate_def split: option.splits)
  have "2 \<le> i \<and> i < amax a \<and> \<not> aused a i"
    using i
  proof
    assume "find_free (aused a) (anext a) (amax a) = Some i"
    from find_free_Some [OF this] assms(1) show ?thesis by (auto simp: ok4_def)
  next
    assume "find_free (aused a) 2 (anext a) = Some i"
    from find_free_Some [OF this] assms(1) show ?thesis by (auto simp: ok4_def)
  qed
  then show thesis using that [of i] t by (simp add: take4_def)
qed

lemma Release_leased:
  assumes "ip = put32 (base4 a + i)"
  shows "Release ip a = a\<lparr>aused := (aused a)(i := False), anext := (if i < anext a then i else anext a)\<rparr>"
proof -
  have "put32 (base4 a + i) \<noteq> []" by (simp add: put32_def)
  then show ?thesis by (simp add: Release_def assms To4_def Let_def)
qed

interpretation v4: lease_pool Allocate Release held4 ok4
proof
  fix s s' ip
  assume ok: "ok4 s" and a: "Allocate s = Inr (s', ip)"
  from Allocate_cases [OF this] obtain i where i: "2 \<le> i" "i < amax s" "\<not> aused s i"
    and s': "s' = s\<lparr>aused := (aused s)(i := True), anext := i + 1\<rparr>" and ip: "ip = put32 (base4 s + i)" .
  have u: "unat (i + 1) = unat i + 1" using i(2) by (rule unat_Suc_less)
  have "2 \<le> i + 1" "i + 1 \<le> amax s"
    using u i(1,2) by (auto simp: word_le_nat_alt word_less_nat_alt)
  then have "ok4 s'" using ok i by (auto simp: ok4_def s')
  moreover have "base4 s' = base4 s" by (simp add: base4_def s')
  ultimately show "ok4 s' \<and> ip \<notin> held4 s \<and> held4 s' = insert ip (held4 s)"
    using i(3) by (auto simp: held4_def ip put32_inj s')
next
  fix s ip
  assume ok: "ok4 s" and h: "ip \<in> held4 s"
  then obtain i where i: "aused s i" "ip = put32 (base4 s + i)" by (auto simp: held4_def)
  note r = Release_leased [OF i(2)]
  have b: "base4 (Release ip s) = base4 s" "aused (Release ip s) = (aused s)(i := False)" by (simp_all add: r base4_def)
  have "held4 (Release ip s) = held4 s - {ip}"
    unfolding held4_def b by (auto simp: i(2) put32_inj split: if_splits)
  moreover have "ok4 (Release ip s)" unfolding r ok4_def using ok i(1) by (auto simp: ok4_def)
  ultimately show "ok4 (Release ip s) \<and> held4 (Release ip s) = held4 s - {ip}" by simp
qed

definition held6 :: "IPv6Allocator \<Rightarrow> IP set" where
  "held6 a = makeIP a ` {i. bused a i}"

definition ok6 :: "IPv6Allocator \<Rightarrow> bool" where
  "ok6 a \<longleftrightarrow> length (bprefix a) = 16 \<and> bmax a = NOT 0 \<and> 2 \<le> bnext a \<and> (\<forall>i. bused a i \<longrightarrow> 2 \<le> i \<and> i < bmax a)"

lemma makeIP_inj: "makeIP a x = makeIP a y \<longleftrightarrow> x = y"
  by (simp add: makeIP_def) (metis get64_put64)

lemma makeIP_frame [simp]: "makeIP (a\<lparr>bused := u, bnext := n\<rparr>) = makeIP a"
  by (simp add: makeIP_def fun_eq_iff)

lemma Allocate6_cases:
  assumes "ok6 a" and "Allocate6 a = Inr (a', ip)"
  obtains i where "2 \<le> i" "i < bmax a" "\<not> bused a i" "a' = a\<lparr>bused := (bused a)(i := True), bnext := i + 1\<rparr>" "ip = makeIP a i"
proof -
  obtain i where i: "find_free (bused a) (bnext a) (min (bmax a) (bnext a + 10000)) = Some i \<or> find_free (bused a) 2 (bnext a) = Some i"
    and t: "take6 i a = (a', ip)"
    using assms(2) by (fastforce simp: Allocate6_def split: option.splits)
  have n: "2 \<le> bnext a" "bnext a \<le> bmax a" using assms(1) by (simp_all add: ok6_def)
  have "2 \<le> i \<and> i < bmax a \<and> \<not> bused a i"
    using i
  proof
    assume "find_free (bused a) (bnext a) (min (bmax a) (bnext a + 10000)) = Some i"
    from find_free_Some [OF this] n show ?thesis by auto
  next
    assume "find_free (bused a) 2 (bnext a) = Some i"
    from find_free_Some [OF this] n show ?thesis by auto
  qed
  then show thesis using that [of i] t by (simp add: take6_def)
qed

lemma Release6_leased:
  assumes "ok6 a" and "ip = makeIP a i"
  shows "Release6 ip a = a\<lparr>bused := (bused a)(i := False), bnext := (if i < bnext a then i else bnext a)\<rparr>"
proof -
  have l: "length (makeIP a i) = 16" using assms(1) by (simp add: makeIP_def ok6_def)
  then have "To16 (makeIP a i) = makeIP a i" "makeIP a i \<noteq> []" by (auto simp: To16_def)
  moreover have "drop 8 (makeIP a i) = put64 i" using assms(1) by (simp add: makeIP_def ok6_def)
  ultimately show ?thesis by (simp add: Release6_def assms(2) Let_def)
qed

interpretation v6: lease_pool Allocate6 Release6 held6 ok6
proof
  fix s s' ip
  assume ok: "ok6 s" and a: "Allocate6 s = Inr (s', ip)"
  from Allocate6_cases [OF this] obtain i where i: "2 \<le> i" "i < bmax s" "\<not> bused s i"
    and s': "s' = s\<lparr>bused := (bused s)(i := True), bnext := i + 1\<rparr>" and ip: "ip = makeIP s i" .
  have "unat (i + 1) = unat i + 1" using i(2) by (rule unat_Suc_less)
  then have "2 \<le> i + 1" using i(1) by (simp add: word_le_nat_alt)
  then show "ok6 s' \<and> ip \<notin> held6 s \<and> held6 s' = insert ip (held6 s)"
    using ok i by (auto simp: ok6_def held6_def ip makeIP_inj s')
next
  fix s ip
  assume ok: "ok6 s" and h: "ip \<in> held6 s"
  then obtain i where i: "bused s i" "ip = makeIP s i" by (auto simp: held6_def)
  note r = Release6_leased [OF ok i(2)]
  have "held6 (Release6 ip s) = held6 s - {ip}" unfolding r held6_def by (auto simp: i(2) makeIP_inj split: if_splits)
  moreover have "ok6 (Release6 ip s)" unfolding r ok6_def using ok i(1) by (auto simp: ok6_def)
  ultimately show "ok6 (Release6 ip s) \<and> held6 (Release6 ip s) = held6 s - {ip}" by simp
qed

section \<open>What the allocators promise\<close>

lemma NewIPAllocator_v4:
  assumes "NewIPAllocator cidr = Inr a" and "length (netMask (anetwork a)) = 4"
  obtains k where "k \<le> 32" "netMask (anetwork a) = CIDRMask k 32" "length (netIP (anetwork a)) = 4"
    "base4 a AND prefix_mask k = base4 a" "base4 a = get32 (netIP (anetwork a))" "agateway a = put32 (base4 a + 1)"
    "amax a = push_bit (32 - k) 1 - 1" "ok4 a" "held4 a = {}" "IPMask_Size (netMask (anetwork a)) = k"
proof -
  obtain n where n: "ParseCIDR cidr = Some n" "anetwork a = n"
    and a: "agateway a = put32 (get32 (To4 (netIP n)) + 1)" "anext a = 2" "aused a = (\<lambda>_. False)"
      "amax a = push_bit (8 * length (netMask n) - IPMask_Size (netMask n)) 1 - 1"
    using assms(1) by (auto simp: NewIPAllocator_def Let_def split: option.splits if_splits)
  have m4: "length (netMask n) = 4" using assms(2) n(2) by simp
  obtain b k where b: "length b = 4" "k \<le> 32" "netMask n = CIDRMask k 32" "netIP n = map2 and b (CIDRMask k 32)"
    using ParseCIDR_v4 [OF n(1) m4] .
  have l: "length (netIP n) = 4" using b by simp
  then have t: "To4 (netIP n) = netIP n" by (simp add: To4_def)
  have "get32 (netIP n) = get32 b AND prefix_mask k"
    using b get32_and [OF b(1), of "CIDRMask k 32"] by (simp add: cidr_mask_facts(1) [OF b(2)])
  then have "get32 (netIP n) AND prefix_mask k = get32 (netIP n)" by (simp add: and.assoc)
  moreover have "amax a = push_bit (32 - k) 1 - 1"
    using a(4) m4 b(2,3) by (simp add: cidr_mask_facts(2))
  ultimately show thesis
    using that [of k] a b(2,3) n l t by (simp add: base4_def ok4_def held4_def cidr_mask_facts(2))
qed

lemma lease_frame:
  "anetwork (fst (lease_step Allocate Release st op)) = anetwork (fst st) \<and>
   amax (fst (lease_step Allocate Release st op)) = amax (fst st)"
proof (cases st)
  case (Pair s ls)
  have a: "anetwork s' = anetwork s \<and> amax s' = amax s" if "Allocate s = Inr (s', ip)" for s' ip
    using that by (auto simp: Allocate_def take4_def split: option.splits)
  show ?thesis
  proof (cases op)
    case Lease
    then show ?thesis using a by (cases "Allocate s") (auto simp: Pair)
  next
    case (Give_back n)
    then show ?thesis by (simp add: Pair Release_def Let_def)
  qed
qed

lemma lease_run_frame:
  "anetwork (fst (foldl (lease_step Allocate Release) st ops)) = anetwork (fst st) \<and>
   amax (fst (foldl (lease_step Allocate Release) st ops)) = amax (fst st)"
  by (induction ops arbitrary: st) (simp_all add: lease_frame)

lemma unat_size_minus_1:
  assumes "k \<le> 32" shows "unat (push_bit (32 - k) 1 - 1 :: u32) = 2 ^ (32 - k) - 1"
proof (cases "k = 0")
  case True
  have "unat (push_bit (32 - 0) 1 - 1 :: u32) = 2 ^ (32 - 0) - 1" by (simp add: push_bit_eq_mult)
  then show ?thesis using True by simp
next
  case False
  then have "32 - k < 32" using assms by simp
  then have "(2::nat) ^ (32 - k) < 2 ^ 32" by (rule power_strict_increasing) simp
  then have u: "unat (push_bit (32 - k) 1 :: u32) = 2 ^ (32 - k)"
    using unat_of_nat [of "2 ^ (32 - k)", where ?'a = 32] by (simp add: push_bit_eq_mult)
  then have "push_bit (32 - k) 1 \<noteq> (0 :: u32)" by (metis power_not_zero unat_0 zero_neq_numeral)
  then show ?thesis using u by (simp add: unat_minus_one)
qed

lemma card_word_range: "card {i :: u32. lo \<le> i \<and> i < hi} = unat hi - unat lo"
proof -
  have "unat ` {i. lo \<le> i \<and> i < hi} = {unat lo..<unat hi}"
  proof (intro equalityI subsetI)
    fix n assume n: "n \<in> {unat lo..<unat hi}"
    then have "unat (of_nat n :: u32) = n" using unat_lt_32 [of hi] by (simp add: unat_of_nat)
    then show "n \<in> unat ` {i. lo \<le> i \<and> i < hi}"
      using n by (intro image_eqI [of _ _ "of_nat n"]) (simp_all add: word_le_nat_alt word_less_nat_alt)
  qed (auto simp: word_le_nat_alt word_less_nat_alt)
  moreover have "inj_on unat {i :: u32. lo \<le> i \<and> i < hi}" by (rule inj_onI) (rule unsigned_word_eqI)
  ultimately show ?thesis using card_image by fastforce
qed

lemma Allocate_fails:
  assumes "ok4 a" and "Allocate a = Inl e" shows "{i. aused a i} = {i. 2 \<le> i \<and> i < amax a}"
proof -
  have n: "find_free (aused a) (anext a) (amax a) = None" "find_free (aused a) 2 (anext a) = None"
    using assms(2) by (simp_all add: Allocate_def split: option.splits)
  have "aused a i" if "2 \<le> i" "i < amax a" for i
    using that find_free_None [OF n(1), of i] find_free_None [OF n(2), of i] by (cases "anext a \<le> i") auto
  then show ?thesis using assms(1) by (auto simp: ok4_def)
qed

text \<open>C15: whatever clients do with an IPv4 allocator, the addresses they hold are pairwise distinct, lie
  inside the network and are never its own address, the gateway's or the broadcast address; and an
  allocation fails only when all \<open>2^(32 - n) - 3\<close> usable addresses of a \<open>/n\<close> are held.\<close>

theorem mesh_leases_valid:
  assumes "NewIPAllocator cidr = Inr a" and "length (netMask (anetwork a)) = 4"
    and "foldl (lease_step Allocate Release) (a, []) ops = (a', ls)"
  shows "distinct ls \<and>
    (\<forall>ip\<in>set ls. IPNet_Contains (anetwork a) ip \<and> ip \<noteq> netIP (anetwork a) \<and> ip \<noteq> agateway a \<and> ip \<noteq> put32 (base4 a + amax a)) \<and>
    (Allocate a' = Inl e \<longrightarrow> length ls = 2 ^ (32 - IPMask_Size (netMask (anetwork a))) - 3)"
proof -
  obtain k where k: "k \<le> 32" "netMask (anetwork a) = CIDRMask k 32" "length (netIP (anetwork a)) = 4"
    "base4 a AND prefix_mask k = base4 a" "base4 a = get32 (netIP (anetwork a))" "agateway a = put32 (base4 a + 1)"
    "amax a = push_bit (32 - k) 1 - 1" "ok4 a" "held4 a = {}" "IPMask_Size (netMask (anetwork a)) = k"
    using NewIPAllocator_v4 [OF assms(1,2)] .
  have "v4.leases_ok (a, [])" using k(8,9) by (simp add: v4.leases_ok_def)
  from v4.run_leases_ok [OF this, of ops] have run: "ok4 a'" "distinct ls" "set ls = held4 a'"
    by (simp_all add: v4.leases_ok_def assms(3))
  have fr: "amax a' = amax a" "base4 a' = base4 a" using lease_run_frame [of "(a, [])" ops] by (simp_all add: assms(3) base4_def)
  have mx: "unat (amax a) = 2 ^ (32 - k) - 1" unfolding k(7) by (rule unat_size_minus_1 [OF k(1)])
  have valid: "IPNet_Contains (anetwork a) ip \<and> ip \<noteq> netIP (anetwork a) \<and> ip \<noteq> agateway a \<and> ip \<noteq> put32 (base4 a + amax a)"
    if "ip \<in> set ls" for ip
  proof -
    have "ip \<in> held4 a'" using that run(3) by simp
    then obtain i where i: "aused a' i" "ip = put32 (base4 a + i)" unfolding held4_def fr(2) by blast
    then have r: "2 \<le> i" "i < amax a" using run(1) fr(1) by (auto simp: ok4_def)
    then have "unat i < 2 ^ (32 - k)" using mx by (simp add: word_less_nat_alt)
    from offset_in_prefix [OF k(1,4) this] have in_prefix: "(base4 a + i) AND prefix_mask k = base4 a" by simp
    have "get32 (map2 and (netIP (anetwork a)) (netMask (anetwork a))) = get32 (map2 and ip (netMask (anetwork a)))"
      using in_prefix k(2-5) by (simp add: get32_and cidr_mask_facts(1) [OF k(1)] i(2))
    then have "IPNet_Contains (anetwork a) ip"
      using k(2,3) i(2) by (simp add: IPNet_Contains_v4) (rule get32_inj, simp_all)
    moreover have "i \<noteq> 0" "i \<noteq> 1" "i \<noteq> amax a" using r by (auto simp: word_le_nat_alt)
    moreover have "netIP (anetwork a) = put32 (base4 a + 0)" using k(3,5) by (simp add: put32_get32)
    ultimately show ?thesis by (simp add: i(2) k(6) put32_inj)
  qed
  have "length ls = 2 ^ (32 - k) - 3" if "Allocate a' = Inl e"
  proof -
    have "length ls = card (held4 a')" using run(2,3) distinct_card by metis
    also have "\<dots> = card {i. aused a' i}" unfolding held4_def by (rule card_image) (auto simp: inj_on_def put32_inj)
    also have "\<dots> = unat (amax a) - unat (2 :: u32)" using Allocate_fails [OF run(1) that] fr(1) by (simp add: card_word_range)
    finally show ?thesis using mx by simp
  qed
  then show ?thesis using run(2) valid k(10) by blast
qed

definition net24 :: string where "net24 = ''10.7.0.0/24''"

definition alloc24 :: IPAllocator where
  "alloc24 = projr (NewIPAllocator net24)"

lemma NewIPAllocator_net24: "NewIPAllocator net24 = Inr alloc24"
proof -
  have "isl (NewIPAllocator net24) = False" by code_simp
  then show ?thesis unfolding alloc24_def by (cases "NewIPAllocator net24") simp_all
qed

theorem mesh_leases_valid_witness:
  "distinct (snd (foldl (lease_step Allocate Release) (alloc24, []) [Lease, Lease, Give_back 1, Lease, Lease]))"
proof -
  let ?st = "foldl (lease_step Allocate Release) (alloc24, []) [Lease, Lease, Give_back 1, Lease, Lease]"
  have m: "length (netMask (anetwork alloc24)) = 4" by code_simp
  have "?st = (fst ?st, snd ?st)" by simp
  from mesh_leases_valid [OF NewIPAllocator_net24 m this] show ?thesis by blast
qed

text \<open>\<open>Release\<close> does not check that the address was handed out: after a release of the gateway's address
  the allocator hands out the gateway's address, and after a release of the network's own address that one.\<close>

lemma release_unchecked:
  "map_sum id snd (Allocate (Release [10, 7, 0, 1] alloc24)) = Inr [10, 7, 0, 1]"
  "map_sum id snd (Allocate (Release [10, 7, 0, 0] alloc24)) = Inr [10, 7, 0, 0]"
  by code_simp+

text \<open>An IPv6 network makes the IPv4 constructor panic.\<close>

lemma NewIPAllocator_v6_panics: "NewIPAllocator ''fd00::/64'' = Inl MeshPanic"
  by code_simp

text \<open>The IPv6 allocator keeps its leases distinct as well.\<close>

lemma NewIPv6Allocator_ok:
  assumes "NewIPv6Allocator cidr = Inr a" shows "ok6 a \<and> held6 a = {}"
  using assms by (auto simp: NewIPv6Allocator_def ok6_def held6_def Let_def split: option.splits if_splits)

lemma ipv6_leases_distinct:
  assumes "NewIPv6Allocator cidr = Inr a" and "foldl (lease_step Allocate6 Release6) (a, []) ops = (a', ls)"
  shows "distinct ls"
proof -
  have "v6.leases_ok (a, [])" using NewIPv6Allocator_ok [OF assms(1)] by (simp add: v6.leases_ok_def)
  from v6.run_leases_ok [OF this, of ops] show ?thesis by (simp add: v6.leases_ok_def assms(2))
qed

text \<open>A dual-stack allocation that fails holds no address: an IPv4 address taken first is given back.\<close>

lemma dual_stack_rollback:
  assumes "ok4 (dv4 d)" and "AllocateDualStack d = (d', Inl e)"
  shows "held4 (dv4 d') = held4 (dv4 d) \<and> ok4 (dv4 d') \<and> dv6 d' = dv6 d"
proof (cases "Allocate (dv4 d)")
  case (Inl e')
  then show ?thesis using assms by (simp add: AllocateDualStack_def)
next
  case (Inr r)
  obtain a4 ip where r: "r = (a4, ip)" by (cases r)
  have d': "d' = d\<lparr>dv4 := Release ip a4\<rparr>"
    using assms(2) Inr r by (auto simp: AllocateDualStack_def split: sum.splits)
  have f: "ok4 a4" "ip \<notin> held4 (dv4 d)" "held4 a4 = insert ip (held4 (dv4 d))"
    using v4.alloc_fresh [OF assms(1)] Inr r by auto
  then show ?thesis using v4.release_held [of a4 ip] by (simp add: d')
qed

section \<open>Frames, handshake and forwarding\<close>

interpretation frame: stream_codec "\<lambda>p. fst (WriteFrame p)" ReadFrame "\<lambda>p. 0 < length p \<and> length p \<le> 65535"
proof
  fix p rest :: bytes
  assume p: "0 < length p \<and> length p \<le> 65535"
  have n: "unat (u16_of_len (length p)) = length p" using p by simp
  then have "u16_of_len (length p) \<noteq> 0" using p by (metis less_numeral_extra(3) unat_0)
  then show "ReadFrame (fst (WriteFrame p) @ rest) = Inr (p, rest)"
    using p n by (simp add: WriteFrame_def MaxFrameSize_def ReadFrame_def fst_wseq Let_def)
qed

lemma WriteFrame_error: "snd (WriteFrame p) = None \<longleftrightarrow> length p \<le> 65535"
  by (auto simp: WriteFrame_def MaxFrameSize_def snd_wseq)

text \<open>The writer accepts an empty payload, and the reader refuses the frame it makes.\<close>

lemma empty_frame_refused: "WriteFrame [] = ([0, 0], None)" "ReadFrame ([0, 0] @ rest) = Inl ZeroFrame"
  by (simp_all add: WriteFrame_def MaxFrameSize_def wseq_def wwrite_def put16_def ReadFrame_def read_full_def Let_def)

lemma handshake_roundtrip:
  assumes "To4 ip \<noteq> []" "To4 msk \<noteq> []" "To4 gw \<noteq> []"
  shows "DecodeHandshake (EncodeHandshake ip msk gw) = Inr (To4 ip, To4 msk, To4 gw)"
proof -
  have "length (To4 ip) = 4" "length (To4 msk) = 4" "length (To4 gw) = 4"
    using assms To4_length by blast+
  then show ?thesis
    by (simp add: DecodeHandshake_def EncodeHandshake_def HandshakeSize_def ProtocolVersion_def slice_def numeral_eq_Suc)
qed

definition v4_packet_to :: "IP \<Rightarrow> bytes \<Rightarrow> bool" where
  "v4_packet_to dst pkt \<longleftrightarrow> 20 \<le> length pkt \<and> length pkt \<le> 65535 \<and> drop_bit 4 (pkt ! 0) = 4 \<and> slice 16 20 pkt = dst"

lemma vipKey_v4: "length ip = 4 \<Longrightarrow> vipKey ip = Some (Addr4 ip)"
  by (simp add: vipKey_def AddrFromSlice_def)

end
