(* ===== verification/Signal.thy ===== *)
theory Signal
  imports GoNet
begin

text \<open>
  The signalling messages of the mesh, \<^verbatim>\<open>mesh/signal/protocol.go\<close>: the message envelope and the payload
  codecs for ICE candidates, connection requests, ICE restarts, trickled candidates and WebRTC
  descriptions. A buffer filled by \<^verbatim>\<open>copy\<close> and \<^verbatim>\<open>PutUint16\<close> at fixed offsets is the concatenation of its
  parts; the readers index the data as the code does.
\<close>

datatype signal_error =
    MsgTooShort | PayloadTooLarge u16 | MsgTruncated nat nat
  | CandTooShort | EmptyCandidates
  | ConnectTooShort
  | RestartTooShort | RestartTruncUfrag | RestartTruncPwd
  | TrickleTooShort | TrickleTruncated
  | EndTooShort
  | SdpTooShort | SdpTruncated | SdpSlicePanic
  | IceTooShort | IceTruncated | IceMissingMid | IceMidTruncated | IceMissingMLine
  | IceMissingUfrag | IceUfragTruncated

section \<open>Messages\<close>

record Message =
  mType :: byte
  SrcVIP :: IP
  DstVIP :: IP
  Payload :: bytes

definition ip4_field :: "IP \<Rightarrow> bytes" where
  "ip4_field ip = copy_into (zeros 4) (To4 ip)"

definition Message_Encode :: "Message \<Rightarrow> bytes" where
  "Message_Encode m =
     [mType m] @ ip4_field (SrcVIP m) @ ip4_field (DstVIP m) @ put16 (u16_of_len (length (Payload m))) @ Payload m"

definition Signal_Decode :: "bytes \<Rightarrow> signal_error + Message" where
  "Signal_Decode dat =
     (if length dat < 11 then Inl MsgTooShort
      else
        let payloadLen = get16 (slice 9 11 dat)
        in if payloadLen > 4096 then Inl (PayloadTooLarge payloadLen)
           else
             let expectedLen = 11 + unat payloadLen
             in if length dat < expectedLen then Inl (MsgTruncated (length dat) expectedLen)
                else Inr \<lparr>mType = dat ! 0, SrcVIP = copy_into (zeros 4) (slice 1 5 dat),
                          DstVIP = copy_into (zeros 4) (slice 5 9 dat),
                          Payload = (if payloadLen > 0 then slice 11 expectedLen dat else [])\<rparr>)"

section \<open>ICE candidates\<close>

record CandidateInfo =
  cType :: byte
  cIP :: IP
  cPort :: u16
  cPriority :: u32
  cFoundation :: string
  cRelatedIP :: IP
  cRelatedPort :: u16

definition EncodeCandidate :: "CandidateInfo \<Rightarrow> bytes" where
  "EncodeCandidate c =
     (let base = [cType c] @ ip4_field (cIP c) @ put16 (cPort c) @ put32 (cPriority c)
      in if cRelatedIP c \<noteq> [] then base @ ip4_field (cRelatedIP c) @ put16 (cRelatedPort c) else base)"

definition DecodeCandidate :: "bytes \<Rightarrow> signal_error + CandidateInfo" where
  "DecodeCandidate dat =
     (if length dat < 11 then Inl CandTooShort
      else Inr \<lparr>cType = dat ! 0, cIP = copy_into (zeros 4) (slice 1 5 dat), cPort = get16 (slice 5 7 dat),
                cPriority = get32 (slice 7 11 dat), cFoundation = '''',
                cRelatedIP = (if length dat \<ge> 17 then copy_into (zeros 4) (slice 11 15 dat) else []),
                cRelatedPort = (if length dat \<ge> 17 then get16 (slice 15 17 dat) else 0)\<rparr>)"

definition EncodeCandidates :: "CandidateInfo list \<Rightarrow> bytes" where
  "EncodeCandidates candidates =
     (if candidates = [] then []
      else byte_of_len (length candidates) #
           concat (map (\<lambda>c. let encoded = EncodeCandidate c in byte_of_len (length encoded) # encoded) candidates))"

text \<open>
  The decoding loop; the first argument counts the iterations left. An entry that is too short is
  skipped with \<^verbatim>\<open>continue\<close>, which leaves the offset behind the length byte.
\<close>

fun candidates_loop :: "nat \<Rightarrow> nat \<Rightarrow> bytes \<Rightarrow> CandidateInfo list" where
  "candidates_loop 0 offset dat = []"
| "candidates_loop (Suc n) offset dat =
     (if offset \<ge> length dat then []
      else let candidateLen = unat (dat ! offset); offset1 = offset + 1
           in if offset1 + candidateLen > length dat then []
              else case DecodeCandidate (slice offset1 (offset1 + candidateLen) dat) of
                     Inl e \<Rightarrow> candidates_loop n offset1 dat
                   | Inr c \<Rightarrow> c # candidates_loop n (offset1 + candidateLen) dat)"

definition DecodeCandidates :: "bytes \<Rightarrow> signal_error + CandidateInfo list" where
  "DecodeCandidates dat =
     (if length dat < 1 then Inl EmptyCandidates
      else Inr (candidates_loop (unat (dat ! 0)) 1 dat))"

section \<open>Connection requests and ICE restarts\<close>

definition EncodeConnectInfo :: "bytes \<Rightarrow> bytes" where
  "EncodeConnectInfo publicKey = copy_into (zeros 32) publicKey"

definition DecodeConnectInfo :: "bytes \<Rightarrow> signal_error + bytes" where
  "DecodeConnectInfo dat =
     (if length dat < 32 then Inl ConnectTooShort else Inr (copy_into (zeros 32) (take 32 dat)))"

record ICERestartInfo =
  rReason :: byte
  rGeneration :: u16
  rUsernameFragment :: string
  rPassword :: string

definition EncodeICERestartInfo :: "ICERestartInfo \<Rightarrow> bytes" where
  "EncodeICERestartInfo info =
     (let ufragBytes = bytes_of (rUsernameFragment info); pwdBytes = bytes_of (rPassword info)
      in [rReason info] @ put16 (rGeneration info) @ [byte_of_len (length ufragBytes)] @ ufragBytes @
         [byte_of_len (length pwdBytes)] @ pwdBytes)"

definition DecodeICERestartInfo :: "bytes \<Rightarrow> signal_error + ICERestartInfo" where
  "DecodeICERestartInfo dat =
     (if length dat < 5 then Inl RestartTooShort
      else
        let ufragLen = unat (dat ! 3)
        in if length dat < 4 + ufragLen + 1 then Inl RestartTruncUfrag
           else
             let pwdLen = unat (dat ! (4 + ufragLen))
             in if length dat < 5 + ufragLen + pwdLen then Inl RestartTruncPwd
                else Inr \<lparr>rReason = dat ! 0, rGeneration = get16 (slice 1 3 dat),
                          rUsernameFragment = string_of (slice 4 (4 + ufragLen) dat),
                          rPassword = string_of (slice (5 + ufragLen) (5 + ufragLen + pwdLen) dat)\<rparr>)"

section \<open>Trickled candidates\<close>

record TrickleCandidateInfo =
  tCandidate :: CandidateInfo
  tGeneration :: u16
  tMLineIndex :: byte

definition EncodeTrickleCandidate :: "TrickleCandidateInfo \<Rightarrow> bytes" where
  "EncodeTrickleCandidate info =
     (let candidateBytes = EncodeCandidate (tCandidate info)
      in put16 (tGeneration info) @ [tMLineIndex info] @ [byte_of_len (length candidateBytes)] @ candidateBytes)"

definition DecodeTrickleCandidate :: "bytes \<Rightarrow> signal_error + TrickleCandidateInfo" where
  "DecodeTrickleCandidate dat =
     (if length dat < 4 then Inl TrickleTooShort
      else
        let candidateLen = unat (dat ! 3)
        in if length dat < 4 + candidateLen then Inl TrickleTruncated
           else rbind (DecodeCandidate (slice 4 (4 + candidateLen) dat)) (\<lambda>candidate.
                  Inr \<lparr>tCandidate = candidate, tGeneration = get16 (slice 0 2 dat), tMLineIndex = dat ! 2\<rparr>))"

record EndOfCandidatesInfo =
  eGeneration :: u16
  eTotalCandidates :: byte

definition EncodeEndOfCandidates :: "EndOfCandidatesInfo \<Rightarrow> bytes" where
  "EncodeEndOfCandidates info = put16 (eGeneration info) @ [eTotalCandidates info]"

definition DecodeEndOfCandidates :: "bytes \<Rightarrow> signal_error + EndOfCandidatesInfo" where
  "DecodeEndOfCandidates dat =
     (if length dat < 3 then Inl EndTooShort
      else Inr \<lparr>eGeneration = get16 (slice 0 2 dat), eTotalCandidates = dat ! 2\<rparr>)"

section \<open>WebRTC\<close>

record WebRTCSDPInfo =
  sType :: byte
  SDP :: string

definition EncodeWebRTCSDP :: "WebRTCSDPInfo \<Rightarrow> bytes" where
  "EncodeWebRTCSDP info =
     (let sdpBytes0 = bytes_of (SDP info);
          sdpBytes = (if int (length sdpBytes0) > 8192 then take 8192 sdpBytes0 else sdpBytes0)
      in [sType info] @ put16 (u16_of_len (length sdpBytes)) @ sdpBytes)"

text \<open>The upper bound \<^verbatim>\<open>3+sdpLen\<close> is computed in 16 bits; below 3 the slice expression panics.\<close>

definition DecodeWebRTCSDP :: "bytes \<Rightarrow> signal_error + WebRTCSDPInfo" where
  "DecodeWebRTCSDP dat =
     (if length dat < 3 then Inl SdpTooShort
      else
        let sdpLen = get16 (slice 1 3 dat)
        in if unat sdpLen > length dat - 3 then Inl SdpTruncated
           else let hi = unat (3 + sdpLen)
                in if hi < 3 then Inl SdpSlicePanic
                   else Inr \<lparr>sType = dat ! 0, SDP = string_of (slice 3 hi dat)\<rparr>)"

record WebRTCICECandidateInfo =
  wCandidate :: string
  wSDPMid :: string
  wSDPMLineIndex :: u16
  wUsernameFragment :: string

definition EncodeWebRTCICECandidate :: "WebRTCICECandidateInfo \<Rightarrow> bytes" where
  "EncodeWebRTCICECandidate info =
     (let candBytes = bytes_of (wCandidate info); midBytes = bytes_of (wSDPMid info);
          ufragBytes = bytes_of (wUsernameFragment info)
      in put16 (u16_of_len (length candBytes)) @ candBytes @ [byte_of_len (length midBytes)] @ midBytes @
         put16 (wSDPMLineIndex info) @ [byte_of_len (length ufragBytes)] @ ufragBytes)"

definition DecodeWebRTCICECandidate :: "bytes \<Rightarrow> signal_error + WebRTCICECandidateInfo" where
  "DecodeWebRTCICECandidate dat =
     (if length dat < 6 then Inl IceTooShort
      else
        let candLen = unat (get16 (slice 0 2 dat)); offset = 2
        in if offset + candLen > length dat then Inl IceTruncated
           else
             let cand = string_of (slice offset (offset + candLen) dat); offset = offset + candLen
             in if offset \<ge> length dat then Inl IceMissingMid
                else
                  let midLen = unat (dat ! offset); offset = offset + 1
                  in if offset + midLen > length dat then Inl IceMidTruncated
                     else
                       let mid = string_of (slice offset (offset + midLen) dat); offset = offset + midLen
                       in if offset + 2 > length dat then Inl IceMissingMLine
                          else
                            let mline = get16 (slice offset (offset + 2) dat); offset = offset + 2
                            in if offset \<ge> length dat then Inl IceMissingUfrag
                               else
                                 let ufragLen = unat (dat ! offset); offset = offset + 1
                                 in if offset + ufragLen > length dat then Inl IceUfragTruncated
                                    else Inr \<lparr>wCandidate = cand, wSDPMid = mid, wSDPMLineIndex = mline,
                                              wUsernameFragment = string_of (slice offset (offset + ufragLen) dat)\<rparr>)"

section \<open>Message constructors\<close>

definition NewCandidateMessage :: "IP \<Rightarrow> IP \<Rightarrow> CandidateInfo list \<Rightarrow> Message" where
  "NewCandidateMessage srcVIP dstVIP candidates =
     \<lparr>mType = 0x01, SrcVIP = srcVIP, DstVIP = dstVIP, Payload = EncodeCandidates candidates\<rparr>"

definition NewConnectMessage :: "IP \<Rightarrow> IP \<Rightarrow> bytes \<Rightarrow> Message" where
  "NewConnectMessage srcVIP dstVIP publicKey =
     \<lparr>mType = 0x04, SrcVIP = srcVIP, DstVIP = dstVIP, Payload = EncodeConnectInfo publicKey\<rparr>"

definition NewConnectAckMessage :: "IP \<Rightarrow> IP \<Rightarrow> bytes \<Rightarrow> Message" where
  "NewConnectAckMessage srcVIP dstVIP publicKey =
     \<lparr>mType = 0x05, SrcVIP = srcVIP, DstVIP = dstVIP, Payload = EncodeConnectInfo publicKey\<rparr>"

definition NewDisconnectMessage :: "IP \<Rightarrow> IP \<Rightarrow> Message" where
  "NewDisconnectMessage srcVIP dstVIP = \<lparr>mType = 0x06, SrcVIP = srcVIP, DstVIP = dstVIP, Payload = []\<rparr>"

definition NewPingMessage :: "IP \<Rightarrow> IP \<Rightarrow> Message" where
  "NewPingMessage srcVIP dstVIP = \<lparr>mType = 0x07, SrcVIP = srcVIP, DstVIP = dstVIP, Payload = []\<rparr>"

definition NewPongMessage :: "IP \<Rightarrow> IP \<Rightarrow> Message" where
  "NewPongMessage srcVIP dstVIP = \<lparr>mType = 0x08, SrcVIP = srcVIP, DstVIP = dstVIP, Payload = []\<rparr>"

definition NewErrorMessage :: "IP \<Rightarrow> IP \<Rightarrow> string \<Rightarrow> Message" where
  "NewErrorMessage srcVIP dstVIP errMsg =
     \<lparr>mType = 0xFF, SrcVIP = srcVIP, DstVIP = dstVIP, Payload = bytes_of errMsg\<rparr>"

definition NewICERestartMessage :: "IP \<Rightarrow> IP \<Rightarrow> ICERestartInfo \<Rightarrow> Message" where
  "NewICERestartMessage srcVIP dstVIP info =
     \<lparr>mType = 0x09, SrcVIP = srcVIP, DstVIP = dstVIP, Payload = EncodeICERestartInfo info\<rparr>"

definition NewTrickleCandidateMessage :: "IP \<Rightarrow> IP \<Rightarrow> TrickleCandidateInfo \<Rightarrow> Message" where
  "NewTrickleCandidateMessage srcVIP dstVIP info =
     \<lparr>mType = 0x0A, SrcVIP = srcVIP, DstVIP = dstVIP, Payload = EncodeTrickleCandidate info\<rparr>"

definition NewEndOfCandidatesMessage :: "IP \<Rightarrow> IP \<Rightarrow> EndOfCandidatesInfo \<Rightarrow> Message" where
  "NewEndOfCandidatesMessage srcVIP dstVIP info =
     \<lparr>mType = 0x0B, SrcVIP = srcVIP, DstVIP = dstVIP, Payload = EncodeEndOfCandidates info\<rparr>"

definition NewWebRTCOfferMessage :: "IP \<Rightarrow> IP \<Rightarrow> string \<Rightarrow> Message" where
  "NewWebRTCOfferMessage srcVIP dstVIP sdp =
     \<lparr>mType = 0x10, SrcVIP = srcVIP, DstVIP = dstVIP, Payload = EncodeWebRTCSDP \<lparr>sType = 0x01, SDP = sdp\<rparr>\<rparr>"

definition NewWebRTCAnswerMessage :: "IP \<Rightarrow> IP \<Rightarrow> string \<Rightarrow> Message" where
  "NewWebRTCAnswerMessage srcVIP dstVIP sdp =
     \<lparr>mType = 0x11, SrcVIP = srcVIP, DstVIP = dstVIP, Payload = EncodeWebRTCSDP \<lparr>sType = 0x02, SDP = sdp\<rparr>\<rparr>"

definition NewWebRTCICECandidateMessage :: "IP \<Rightarrow> IP \<Rightarrow> WebRTCICECandidateInfo \<Rightarrow> Message" where
  "NewWebRTCICECandidateMessage srcVIP dstVIP info =
     \<lparr>mType = 0x12, SrcVIP = srcVIP, DstVIP = dstVIP, Payload = EncodeWebRTCICECandidate info\<rparr>"

section \<open>Round trips\<close>

lemma length_ip4_field [simp]: "length (ip4_field ip) = 4"
  by (simp add: ip4_field_def)

lemma ip4_field_4 [simp]: "length ip = 4 \<Longrightarrow> ip4_field ip = ip"
  by (simp add: ip4_field_def)

lemma Decode_Encode:
  assumes "length (Payload m) < 65536"
  shows "Signal_Decode (Message_Encode m @ rest) =
     (if length (Payload m) > 4096 then Inl (PayloadTooLarge (u16_of_len (length (Payload m))))
      else Inr (m\<lparr>SrcVIP := ip4_field (SrcVIP m), DstVIP := ip4_field (DstVIP m)\<rparr>))"
proof -
  define n where "n = length (Payload m)"
  define dat where "dat = Message_Encode m @ rest"
  have dat: "dat = mType m # ip4_field (SrcVIP m) @ ip4_field (DstVIP m) @ put16 (u16_of_len n) @ Payload m @ rest"
    by (simp add: dat_def Message_Encode_def n_def)
  have "slice 9 11 dat = put16 (u16_of_len n)" "slice 1 5 dat = ip4_field (SrcVIP m)"
    "slice 5 9 dat = ip4_field (DstVIP m)" "slice 11 (11 + n) dat = Payload m" "dat ! 0 = mType m"
    "11 + n \<le> length dat"
    by (simp_all add: dat slice_def n_def)
  moreover have "u16_of_len n > 4096 \<longleftrightarrow> n > 4096" "u16_of_len n > 0 \<longleftrightarrow> n > 0" "unat (u16_of_len n) = n"
    using assms by (simp_all add: word_less_nat_alt n_def)
  ultimately show ?thesis
    unfolding dat_def [symmetric] n_def [symmetric]
    by (auto simp: Signal_Decode_def Let_def n_def)
qed

definition candidate_wf :: "CandidateInfo \<Rightarrow> bool" where
  "candidate_wf c \<longleftrightarrow> length (cIP c) = 4 \<and> cFoundation c = '''' \<and>
     (cRelatedIP c = [] \<and> cRelatedPort c = 0 \<or> length (cRelatedIP c) = 4)"

lemma length_EncodeCandidate: "length (EncodeCandidate c) = (if cRelatedIP c = [] then 11 else 17)"
  by (simp add: EncodeCandidate_def)

lemma DecodeCandidate_Encode: "candidate_wf c \<Longrightarrow> DecodeCandidate (EncodeCandidate c) = Inr c"
  by (cases "cRelatedIP c = []")
    (auto simp: candidate_wf_def EncodeCandidate_def DecodeCandidate_def slice_def Let_def)

interpretation candidate_codec: codec EncodeCandidate DecodeCandidate candidate_wf
  by unfold_locales (rule DecodeCandidate_Encode)

lemma candidates_loop_Encode:
  assumes "list_all candidate_wf cs"
  shows "candidates_loop (length cs) (length pre)
     (pre @ concat (map (\<lambda>c. byte_of_len (length (EncodeCandidate c)) # EncodeCandidate c) cs) @ rest) = cs"
  using assms
proof (induction cs arbitrary: pre)
  case (Cons c cs)
  let ?e = "EncodeCandidate c"
  let ?tail = "concat (map (\<lambda>c. byte_of_len (length (EncodeCandidate c)) # EncodeCandidate c) cs) @ rest"
  let ?dat = "pre @ (byte_of_len (length ?e) # ?e) @ ?tail"
  have len: "unat (byte_of_len (length ?e)) = length ?e" by (simp add: length_EncodeCandidate)
  have "?dat ! length pre = byte_of_len (length ?e)" by simp
  moreover have "slice (length pre + 1) (length pre + 1 + length ?e) ?dat = ?e"
    by (simp add: slice_def)
  moreover have "candidates_loop (length cs) (length (pre @ byte_of_len (length ?e) # ?e))
      ((pre @ byte_of_len (length ?e) # ?e) @ ?tail) = cs"
    using Cons.prems by (intro Cons.IH) simp
  ultimately show ?case
    using Cons.prems len by (simp add: Let_def DecodeCandidate_Encode)
qed simp

lemma candidates_loop_length: "length (candidates_loop n off dat) \<le> n"
  by (induction n arbitrary: off) (auto simp: Let_def le_SucI split: sum.splits)

lemma DecodeCandidates_Encode:
  assumes "list_all candidate_wf cs" and "cs \<noteq> []" and "length cs < 256"
  shows "DecodeCandidates (EncodeCandidates cs @ rest) = Inr cs"
  using assms candidates_loop_Encode [OF assms(1), of "[byte_of_len (length cs)]" rest]
  by (simp add: DecodeCandidates_def EncodeCandidates_def Let_def)

interpretation candidates_codec: codec EncodeCandidates DecodeCandidates
  "\<lambda>cs. list_all candidate_wf cs \<and> cs \<noteq> [] \<and> length cs < 256"
  by unfold_locales (use DecodeCandidates_Encode [of _ "[]"] in simp)

lemma DecodeConnectInfo_Encode: "length k = 32 \<Longrightarrow> DecodeConnectInfo (EncodeConnectInfo k @ rest) = Inr k"
  by (simp add: DecodeConnectInfo_def EncodeConnectInfo_def)

interpretation connect_codec: codec EncodeConnectInfo DecodeConnectInfo "\<lambda>k. length k = 32"
  by unfold_locales (use DecodeConnectInfo_Encode [of _ "[]"] in simp)

lemma DecodeICERestartInfo_Encode:
  assumes "length (rUsernameFragment i) < 256" and "length (rPassword i) < 256"
  shows "DecodeICERestartInfo (EncodeICERestartInfo i @ rest) = Inr i"
proof -
  define u p where "u = bytes_of (rUsernameFragment i)" and "p = bytes_of (rPassword i)"
  define dat where "dat = EncodeICERestartInfo i @ rest"
  have dat: "dat = [rReason i] @ put16 (rGeneration i) @ [byte_of_len (length u)] @ u @ [byte_of_len (length p)] @ p @ rest"
    by (simp add: dat_def EncodeICERestartInfo_def u_def p_def Let_def)
  have l: "unat (byte_of_len (length u)) = length u" "unat (byte_of_len (length p)) = length p"
    using assms by (simp_all add: u_def p_def)
  let ?h = "[rReason i] @ put16 (rGeneration i) @ [byte_of_len (length u)]"
  have "dat ! (4 + length u) = byte_of_len (length p)"
    by (rule nth_at [where pre = "?h @ u"]) (simp_all add: dat)
  moreover have "slice (5 + length u) (5 + length u + length p) dat = p"
    by (rule slice_at [where pre = "?h @ u @ [byte_of_len (length p)]"]) (simp_all add: dat)
  moreover have "slice 4 (4 + length u) dat = u" by (rule slice_at [where pre = ?h]) (simp_all add: dat)
  moreover have "dat ! 0 = rReason i" "dat ! 3 = byte_of_len (length u)"
    "slice 1 3 dat = put16 (rGeneration i)" "5 + length u + length p \<le> length dat"
    by (simp_all add: dat slice_def nth_append nth_Cons')
  ultimately show ?thesis
    unfolding dat_def [symmetric]
    by (simp add: DecodeICERestartInfo_def Let_def l) (simp add: u_def p_def)
qed

interpretation restart_codec: codec EncodeICERestartInfo DecodeICERestartInfo
  "\<lambda>i. length (rUsernameFragment i) < 256 \<and> length (rPassword i) < 256"
  by unfold_locales (use DecodeICERestartInfo_Encode [of _ "[]"] in simp)

lemma DecodeTrickleCandidate_Encode:
  assumes "candidate_wf (tCandidate i)"
  shows "DecodeTrickleCandidate (EncodeTrickleCandidate i @ rest) = Inr i"
proof -
  define c where "c = EncodeCandidate (tCandidate i)"
  define dat where "dat = EncodeTrickleCandidate i @ rest"
  have dat: "dat = put16 (tGeneration i) @ [tMLineIndex i] @ [byte_of_len (length c)] @ c @ rest"
    by (simp add: dat_def EncodeTrickleCandidate_def c_def Let_def)
  have l: "unat (byte_of_len (length c)) = length c" by (simp add: c_def length_EncodeCandidate)
  have "dat ! 2 = tMLineIndex i" "dat ! 3 = byte_of_len (length c)" "slice 0 2 dat = put16 (tGeneration i)"
    "slice 4 (4 + length c) dat = c" "4 + length c \<le> length dat"
    by (simp_all add: dat slice_def nth_append)
  then show ?thesis
    unfolding dat_def [symmetric]
    by (simp add: DecodeTrickleCandidate_def Let_def l) (simp add: c_def DecodeCandidate_Encode assms)
qed

interpretation trickle_codec: codec EncodeTrickleCandidate DecodeTrickleCandidate "\<lambda>i. candidate_wf (tCandidate i)"
  by unfold_locales (use DecodeTrickleCandidate_Encode [of _ "[]"] in simp)

lemma DecodeEndOfCandidates_Encode: "DecodeEndOfCandidates (EncodeEndOfCandidates i @ rest) = Inr i"
  by (simp add: DecodeEndOfCandidates_def EncodeEndOfCandidates_def slice_def nth_append)

interpretation end_codec: codec EncodeEndOfCandidates DecodeEndOfCandidates "\<lambda>_. True"
  by unfold_locales (use DecodeEndOfCandidates_Encode [of _ "[]"] in simp)

lemma DecodeWebRTCSDP_Encode:
  "DecodeWebRTCSDP (EncodeWebRTCSDP i @ rest) = Inr (i\<lparr>SDP := take 8192 (SDP i)\<rparr>)"
proof -
  define s where "s = bytes_of (take 8192 (SDP i))"
  define dat where "dat = EncodeWebRTCSDP i @ rest"
  have s: "length s \<le> 8192" by (simp add: s_def)
  have dat: "dat = [sType i] @ put16 (u16_of_len (length s)) @ s @ rest"
    by (simp add: dat_def EncodeWebRTCSDP_def s_def Let_def bytes_of_def take_map)
  have l: "unat (u16_of_len (length s)) = length s" using s by simp
  have l3: "unat ((3 :: u16) + u16_of_len (length s)) = 3 + length s"
    using s unat_u16_of_len [of "3 + length s"] by (simp del: unat_u16_of_len)
  have "dat ! 0 = sType i" "slice 1 3 dat = put16 (u16_of_len (length s))" "slice 3 (3 + length s) dat = s"
    "3 \<le> length dat" "length s \<le> length dat - 3"
    by (simp_all add: dat slice_def)
  then show ?thesis
    unfolding dat_def [symmetric]
    by (simp add: DecodeWebRTCSDP_def Let_def l l3) (simp add: s_def)
qed

interpretation sdp_codec: codec EncodeWebRTCSDP DecodeWebRTCSDP "\<lambda>i. length (SDP i) \<le> 8192"
  by unfold_locales (use DecodeWebRTCSDP_Encode [of _ "[]"] in simp)

lemma DecodeWebRTCICECandidate_Encode:
  assumes "length (wCandidate i) < 65536" and "length (wSDPMid i) < 256" and "length (wUsernameFragment i) < 256"
  shows "DecodeWebRTCICECandidate (EncodeWebRTCICECandidate i @ rest) = Inr i"
proof -
  define c m u where "c = bytes_of (wCandidate i)" and "m = bytes_of (wSDPMid i)"
    and "u = bytes_of (wUsernameFragment i)"
  define dat where "dat = EncodeWebRTCICECandidate i @ rest"
  have dat: "dat = put16 (u16_of_len (length c)) @ c @ [byte_of_len (length m)] @ m @
      put16 (wSDPMLineIndex i) @ [byte_of_len (length u)] @ u @ rest"
    by (simp add: dat_def EncodeWebRTCICECandidate_def c_def m_def u_def Let_def)
  have l: "unat (u16_of_len (length c)) = length c" "unat (byte_of_len (length m)) = length m"
    "unat (byte_of_len (length u)) = length u"
    using assms by (simp_all add: c_def m_def u_def)
  let ?c = "put16 (u16_of_len (length c)) @ c" and ?m = "[byte_of_len (length m)] @ m"
    and ?i = "put16 (wSDPMLineIndex i)"
  have "dat ! (2 + length c) = byte_of_len (length m)"
    by (rule nth_at [where pre = ?c]) (simp_all add: dat)
  moreover have "slice (2 + length c + 1) (2 + length c + 1 + length m) dat = m"
    by (rule slice_at [where pre = "?c @ [byte_of_len (length m)]"]) (simp_all add: dat)
  moreover have "slice (2 + length c + 1 + length m) (2 + length c + 1 + length m + 2) dat = ?i"
    by (rule slice_at [where pre = "?c @ ?m"]) (simp_all add: dat)
  moreover have "dat ! (2 + length c + 1 + length m + 2) = byte_of_len (length u)"
    by (rule nth_at [where pre = "?c @ ?m @ ?i"]) (simp_all add: dat)
  moreover have "slice (2 + length c + 1 + length m + 2 + 1) (2 + length c + 1 + length m + 2 + 1 + length u) dat = u"
    by (rule slice_at [where pre = "?c @ ?m @ ?i @ [byte_of_len (length u)]"]) (simp_all add: dat)
  moreover have "slice 0 2 dat = put16 (u16_of_len (length c))" "slice 2 (2 + length c) dat = c"
    "length dat = 2 + length c + 1 + length m + 2 + 1 + length u + length rest"
    by (simp_all add: dat slice_def)
  ultimately show ?thesis
    unfolding dat_def [symmetric] DecodeWebRTCICECandidate_def
    by (simp only: Let_def l get16_put16) (simp add: c_def m_def u_def)
qed

interpretation webrtc_ice_codec: codec EncodeWebRTCICECandidate DecodeWebRTCICECandidate
  "\<lambda>i. length (wCandidate i) < 65536 \<and> length (wSDPMid i) < 256 \<and> length (wUsernameFragment i) < 256"
  by unfold_locales (use DecodeWebRTCICECandidate_Encode [of _ "[]"] in simp)

section \<open>Properties\<close>

text \<open>
  a signalling message between two IPv4 peers whose payload fits the 16-bit length field is read
  back as it was, whatever follows it, exactly when the payload has at most 4096 bytes; a longer
  payload is written but refused by the reader.
\<close>

theorem signal_message_roundtrip:
  assumes "length (SrcVIP m) = 4" and "length (DstVIP m) = 4" and "length (Payload m) < 65536"
  shows "Signal_Decode (Message_Encode m @ rest) =
     (if length (Payload m) > 4096 then Inl (PayloadTooLarge (u16_of_len (length (Payload m)))) else Inr m)"
  using Decode_Encode [OF assms(3)] assms(1,2) by simp

theorem signal_message_roundtrip_witness:
  "Signal_Decode (Message_Encode (NewPingMessage [10, 7, 0, 1] [10, 7, 0, 2]) @ [1, 2, 3]) =
     Inr (NewPingMessage [10, 7, 0, 1] [10, 7, 0, 2])"
  using signal_message_roundtrip [of "NewPingMessage [10, 7, 0, 1] [10, 7, 0, 2]" "[1, 2, 3]"]
  by (simp add: NewPingMessage_def)

lemma length_EncodeCandidates: "length (EncodeCandidates cs) \<le> 1 + 18 * length cs"
proof -
  have "length (concat (map (\<lambda>c. byte_of_len (length (EncodeCandidate c)) # EncodeCandidate c) cs)) \<le> 18 * length cs"
    by (induction cs) (auto simp: length_EncodeCandidate)
  then show ?thesis by (simp add: EncodeCandidates_def Let_def)
qed

text \<open>What the wire format keeps of a candidate: four bytes of each address, all of them zero for an
  address that is not an IPv4 address; no foundation; and no related port without a related address.\<close>

definition wire_candidate :: "CandidateInfo \<Rightarrow> CandidateInfo" where
  "wire_candidate c = c\<lparr>cIP := ip4_field (cIP c), cFoundation := '''',
     cRelatedIP := (if cRelatedIP c = [] then [] else ip4_field (cRelatedIP c)),
     cRelatedPort := (if cRelatedIP c = [] then 0 else cRelatedPort c)\<rparr>"

lemma wire_candidate_wf: "candidate_wf (wire_candidate c)"
  by (simp add: candidate_wf_def wire_candidate_def)

lemma wire_candidate_id: "candidate_wf c \<Longrightarrow> wire_candidate c = c"
  by (auto simp: candidate_wf_def wire_candidate_def)

lemma EncodeCandidate_wire: "EncodeCandidate (wire_candidate c) = EncodeCandidate c"
proof -
  have "ip4_field ip \<noteq> []" for ip
    using length_ip4_field [of ip] by (metis list.size(3) zero_neq_numeral)
  then show ?thesis by (simp add: EncodeCandidate_def wire_candidate_def)
qed

lemma EncodeCandidates_wire: "EncodeCandidates (map wire_candidate cs) = EncodeCandidates cs"
  by (simp add: EncodeCandidates_def Let_def comp_def EncodeCandidate_wire)

text \<open>
  C34: a candidate exchange of at most 227 candidates, whatever they hold, survives the whole path of
  batch encoding, message envelope, envelope decoding and batch decoding: the receiver gets the
  candidates in the same order, each as far as the wire format keeps it, so that a candidate with IPv4
  addresses and no foundation arrives as it was. Only an empty exchange is refused.
\<close>

theorem signal_candidate_exchange:
  assumes "length cs \<le> 227"
  shows "rbind (Signal_Decode (Message_Encode (NewCandidateMessage src dst cs) @ rest)) (\<lambda>m. DecodeCandidates (Payload m)) =
      (if cs = [] then Inl EmptyCandidates else Inr (map wire_candidate cs)) \<and>
    (\<forall>c. candidate_wf c \<longrightarrow> wire_candidate c = c)"
proof -
  have "length (EncodeCandidates cs) \<le> 4096"
    using length_EncodeCandidates [of cs] assms by linarith
  moreover have "DecodeCandidates (EncodeCandidates cs) = (if cs = [] then Inl EmptyCandidates else Inr (map wire_candidate cs))"
  proof (cases "cs = []")
    case True
    then show ?thesis by (simp add: DecodeCandidates_def EncodeCandidates_def)
  next
    case False
    then show ?thesis
      using DecodeCandidates_Encode [of "map wire_candidate cs" "[]"] assms
      by (simp add: EncodeCandidates_wire list_all_iff wire_candidate_wf)
  qed
  ultimately show ?thesis
    by (simp add: Decode_Encode NewCandidateMessage_def wire_candidate_id)
qed

text \<open>The witness: the second candidate has an IPv6 address and a foundation and loses both.\<close>

theorem signal_candidate_exchange_witness:
  "rbind (Signal_Decode (Message_Encode (NewCandidateMessage [10, 7, 0, 1] [10, 7, 0, 2]
      [\<lparr>cType = 1, cIP = [1, 2, 3, 4], cPort = 5000, cPriority = 7, cFoundation = '''', cRelatedIP = [10, 0, 0, 9], cRelatedPort = 99\<rparr>,
       \<lparr>cType = 0, cIP = replicate 16 32, cPort = 5001, cPriority = 8, cFoundation = ''f1'', cRelatedIP = [], cRelatedPort = 0\<rparr>]) @ []))
     (\<lambda>m. DecodeCandidates (Payload m)) =
   Inr [\<lparr>cType = 1, cIP = [1, 2, 3, 4], cPort = 5000, cPriority = 7, cFoundation = '''', cRelatedIP = [10, 0, 0, 9], cRelatedPort = 99\<rparr>,
       \<lparr>cType = 0, cIP = [0, 0, 0, 0], cPort = 5001, cPriority = 8, cFoundation = '''', cRelatedIP = [], cRelatedPort = 0\<rparr>]"
proof -
  let ?c = "\<lparr>cType = 1, cIP = [1, 2, 3, 4], cPort = 5000, cPriority = 7, cFoundation = '''', cRelatedIP = [10, 0, 0, 9], cRelatedPort = 99\<rparr>"
  let ?d = "\<lparr>cType = 0, cIP = replicate 16 32, cPort = 5001, cPriority = 8, cFoundation = ''f1'', cRelatedIP = [], cRelatedPort = 0\<rparr>"
  have "wire_candidate ?c = ?c" by (simp add: wire_candidate_id candidate_wf_def)
  moreover have "ip4_field (replicate 16 32) = [0, 0, 0, 0]" by code_simp
  then have "wire_candidate ?d = \<lparr>cType = 0, cIP = [0, 0, 0, 0], cPort = 5001, cPriority = 8, cFoundation = '''', cRelatedIP = [], cRelatedPort = 0\<rparr>"
    by (simp add: wire_candidate_def)
  moreover have "length [?c, ?d] \<le> 227" by simp
  note signal_candidate_exchange [OF this, of "[10, 7, 0, 1]" "[10, 7, 0, 2]" "[]", THEN conjunct1]
  ultimately show ?thesis by (simp only: list.map list.distinct if_False)
qed

text \<open>
  ICE restart information, trickled candidates, end-of-candidates marks and WebRTC ICE candidates
  are read back exactly when every text fits its length field.
\<close>

theorem signal_ice_payload_roundtrips:
  "(length (rUsernameFragment r) < 256 \<and> length (rPassword r) < 256 \<longrightarrow>
      DecodeICERestartInfo (EncodeICERestartInfo r) = Inr r) \<and>
   (candidate_wf (tCandidate t) \<longrightarrow> DecodeTrickleCandidate (EncodeTrickleCandidate t) = Inr t) \<and>
   DecodeEndOfCandidates (EncodeEndOfCandidates e) = Inr e \<and>
   (length (wCandidate w) < 65536 \<and> length (wSDPMid w) < 256 \<and> length (wUsernameFragment w) < 256 \<longrightarrow>
      DecodeWebRTCICECandidate (EncodeWebRTCICECandidate w) = Inr w)"
  by (simp add: restart_codec.dec_enc trickle_codec.dec_enc end_codec.dec_enc webrtc_ice_codec.dec_enc)

theorem signal_ice_payload_roundtrips_witness:
  "DecodeICERestartInfo (EncodeICERestartInfo \<lparr>rReason = 1, rGeneration = 2, rUsernameFragment = ''ufrag'', rPassword = ''pwd''\<rparr>) =
     Inr \<lparr>rReason = 1, rGeneration = 2, rUsernameFragment = ''ufrag'', rPassword = ''pwd''\<rparr>"
  using signal_ice_payload_roundtrips [of "\<lparr>rReason = 1, rGeneration = 2, rUsernameFragment = ''ufrag'', rPassword = ''pwd''\<rparr>"]
  by simp

text \<open>
  a WebRTC offer reaches the peer exactly when its description has at most 4093 bytes; a longer
  one, although the encoder allows up to 8192 bytes, gives a message that every receiver refuses.
\<close>

theorem signal_webrtc_offer_limit:
  assumes "length src = 4" and "length dst = 4"
  shows "rbind (Signal_Decode (Message_Encode (NewWebRTCOfferMessage src dst sdp)))
       (\<lambda>m. rbind (DecodeWebRTCSDP (Payload m)) (\<lambda>i. Inr (SDP i))) =
     (if length sdp \<le> 4093 then Inr sdp
      else Inl (PayloadTooLarge (u16_of_len (3 + min 8192 (length sdp)))))"
proof -
  let ?m = "NewWebRTCOfferMessage src dst sdp"
  have len: "length (Payload ?m) = 3 + min 8192 (length sdp)"
    by (simp add: NewWebRTCOfferMessage_def EncodeWebRTCSDP_def Let_def)
  have "Signal_Decode (Message_Encode ?m) =
      (if length (Payload ?m) > 4096 then Inl (PayloadTooLarge (u16_of_len (length (Payload ?m)))) else Inr ?m)"
    using Decode_Encode [of ?m "[]"] assms len by (simp add: NewWebRTCOfferMessage_def)
  moreover have "DecodeWebRTCSDP (Payload ?m) = Inr \<lparr>sType = 1, SDP = take 8192 sdp\<rparr>"
    using DecodeWebRTCSDP_Encode [of "\<lparr>sType = 1, SDP = sdp\<rparr>" "[]"] by (simp add: NewWebRTCOfferMessage_def)
  ultimately show ?thesis
    unfolding len by auto
qed

theorem signal_webrtc_offer_limit_witness:
  "rbind (Signal_Decode (Message_Encode (NewWebRTCOfferMessage [10, 7, 0, 1] [10, 7, 0, 2] (replicate 5000 CHR ''a''))))
     (\<lambda>m. rbind (DecodeWebRTCSDP (Payload m)) (\<lambda>i. Inr (SDP i))) = Inl (PayloadTooLarge 5003)"
  using signal_webrtc_offer_limit [of "[10, 7, 0, 1]" "[10, 7, 0, 2]" "replicate 5000 CHR ''a''"] by simp

text \<open>
  a WebRTC description whose length field is 65533 or more passes the truncation check when that
  many bytes follow, and then panics: the end of the slice is computed in 16 bits and wraps below
  its start.
\<close>

theorem signal_sdp_length_wrap_panics:
  assumes "65533 \<le> unat n" and "unat n \<le> length body"
  shows "DecodeWebRTCSDP (t # put16 n @ body) = Inl SdpSlicePanic"
proof -
  have "slice 1 3 (t # put16 n @ body) = put16 n" by (simp add: slice_def)
  moreover obtain d where d: "unat n = 65533 + d" using assms(1) le_Suc_ex by blast
  moreover have "d < 3" using unat_u16_less [of n] unfolding d by simp
  then have "unat (3 + n) < 3" by (simp add: unat_word_ariths d)
  ultimately show ?thesis
    using assms(2) by (simp add: DecodeWebRTCSDP_def Let_def)
qed

theorem signal_sdp_length_wrap_panics_witness:
  "DecodeWebRTCSDP (1 # put16 65534 @ replicate 65534 0) = Inl SdpSlicePanic"
  by (rule signal_sdp_length_wrap_panics) simp_all

text \<open>The offset is not advanced past a candidate that does not decode, so its bytes are read as entries.\<close>

lemma candidates_misparse:
  "DecodeCandidates ([2, 1, 11] @ replicate 11 5 @ [9]) =
     Inr [\<lparr>cType = 5, cIP = [5, 5, 5, 5], cPort = 0x0505, cPriority = 0x05050505, cFoundation = '''',
           cRelatedIP = [], cRelatedPort = 0\<rparr>]"
  by code_simp

end
