(* ===== verification/MeshServer.thy ===== *)
theory MeshServer
  imports Mesh Signal
begin

text \<open>
  The server side of the mesh: the signalling hub of \<^verbatim>\<open>mesh/signal/hub.go\<close> and the stream handler
  \<open>HandleMeshStream\<close> of \<^verbatim>\<open>server/handler.go\<close>, which runs once per client, concurrently. The handler is a
  step relation on the state the clients share: each call of the allocator, the peer table and the hub
  is one step (each takes its own lock), and the steps of different sessions interleave freely. A
  session's writer is its number. The hub and the peer table look a writer up under their lock and
  write after releasing it; lookup and write are one step here, so a write that happens after the
  receiver has left in between counts as made at the time of the lookup.
\<close>

section \<open>The signalling hub\<close>

datatype hub_error = HubDecode signal_error | SrcMismatch IP IP | HubWrite

type_synonym 'w Hub = "Addr option \<Rightarrow> (IP \<times> 'w) option"

definition NewHub :: "'w Hub" where
  "NewHub = (\<lambda>_. None)"

definition hubVIPKey :: "IP \<Rightarrow> Addr option" where
  "hubVIPKey ip = map_option Unmap (AddrFromSlice ip)"

definition Hub_Register :: "IP \<Rightarrow> 'w \<Rightarrow> 'w Hub \<Rightarrow> 'w Hub" where
  "Hub_Register vip w h = h(hubVIPKey vip \<mapsto> (vip, w))"

definition Hub_Unregister :: "IP \<Rightarrow> 'w Hub \<Rightarrow> 'w Hub" where
  "Hub_Unregister vip h = h(hubVIPKey vip := None)"

text \<open>\<open>accepts\<close> says whether a \<open>Write\<close> succeeds; the second component lists the writes made.\<close>

definition Hub_Forward :: "('w \<Rightarrow> bytes \<Rightarrow> bool) \<Rightarrow> 'w Hub \<Rightarrow> Message \<Rightarrow> hub_error option \<times> ('w \<times> bytes) list" where
  "Hub_Forward accepts h msg =
     (case h (hubVIPKey (DstVIP msg)) of
        None \<Rightarrow> (None, [])
      | Some (vip, w) \<Rightarrow>
          (let data = Message_Encode msg in ((if accepts w data then None else Some HubWrite), [(w, data)])))"

text \<open>\<open>Broadcast\<close> over the registered keys in the order \<open>ks\<close> of the map iteration.\<close>

definition Hub_Broadcast :: "Addr option list \<Rightarrow> 'w Hub \<Rightarrow> Message \<Rightarrow> ('w \<times> bytes) list" where
  "Hub_Broadcast ks h msg =
     (let srcKey = hubVIPKey (SrcVIP msg); data = Message_Encode msg
      in concat (map (\<lambda>k. case h k of
                            None \<Rightarrow> []
                          | Some (vip, w) \<Rightarrow> if k = srcKey then [] else [(w, data)]) ks))"

definition HasPeer :: "'w Hub \<Rightarrow> IP \<Rightarrow> bool" where
  "HasPeer h vip = (h (hubVIPKey vip) \<noteq> None)"

definition HandleMessage :: "('w \<Rightarrow> bytes \<Rightarrow> bool) \<Rightarrow> 'w Hub \<Rightarrow> bytes \<Rightarrow> IP \<Rightarrow> hub_error option \<times> ('w \<times> bytes) list" where
  "HandleMessage accepts h data senderVIP =
     (case Signal_Decode data of
        Inl e \<Rightarrow> (Some (HubDecode e), [])
      | Inr msg \<Rightarrow>
          if \<not> IP_Equal (SrcVIP msg) senderVIP then (Some (SrcMismatch (SrcVIP msg) senderVIP), [])
          else if mType msg \<in> {0x01, 0x04, 0x05, 0x06} then Hub_Forward accepts h msg
          else if mType msg = 0x07 then Hub_Forward accepts h (NewPongMessage (DstVIP msg) (SrcVIP msg))
          else (None, []))"

section \<open>The stream handler\<close>

definition isSignalingPacket :: "bytes \<Rightarrow> bool" where
  "isSignalingPacket pkt =
     (if length pkt < 11 then False
      else if pkt ! 0 \<in> {0x01, 0x04, 0x05, 0x06, 0x07, 0x08, 0xFF} then True
      else drop_bit 4 (pkt ! 0) \<noteq> 4)"

datatype phase = Allocated | Greeted | Listed | Running | HubGone | TableGone

record session =
  sip :: IP
  sphase :: phase

record mesh_server =
  alloc :: IPAllocator
  tbl :: "nat PeerTable"
  hub :: "nat Hub option"
  sessions :: "nat \<Rightarrow> session option"
  nextSession :: nat
  sent :: "(nat \<times> bytes) list"

text \<open>What one packet of a running session makes the server write; the writes go through
  \<open>meshFrameWriter\<close>, which frames them.\<close>

definition framed :: "nat \<times> bytes \<Rightarrow> nat \<times> bytes" where
  "framed wp = (fst wp, fst (WriteFrame (snd wp)))"

definition accepts_frame :: "nat \<Rightarrow> bytes \<Rightarrow> bool" where
  "accepts_frame w p = (snd (WriteFrame p) = None)"

definition handle_packet :: "mesh_server \<Rightarrow> IP \<Rightarrow> bytes \<Rightarrow> (nat \<times> bytes) list" where
  "handle_packet s ip pkt =
     (case hub s of
        Some h \<Rightarrow>
          if isSignalingPacket pkt then map framed (snd (HandleMessage accepts_frame h pkt ip))
          else map framed (case snd (Forward accepts_frame (tbl s) pkt) of None \<Rightarrow> [] | Some wp \<Rightarrow> [wp])
      | None \<Rightarrow> map framed (case snd (Forward accepts_frame (tbl s) pkt) of None \<Rightarrow> [] | Some wp \<Rightarrow> [wp]))"

definition set_phase :: "nat \<Rightarrow> session \<Rightarrow> phase \<Rightarrow> mesh_server \<Rightarrow> mesh_server" where
  "set_phase n x p s = s\<lparr>sessions := (sessions s)(n \<mapsto> x\<lparr>sphase := p\<rparr>)\<rparr>"

inductive mesh_step :: "mesh_server \<Rightarrow> mesh_server \<Rightarrow> bool" where
  connect: "Allocate (alloc s) = Inr (a, ip) \<Longrightarrow>
    mesh_step s (s\<lparr>alloc := a, sessions := (sessions s)(nextSession s \<mapsto> \<lparr>sip = ip, sphase = Allocated\<rparr>),
                   nextSession := nextSession s + 1\<rparr>)"
| greet: "sessions s n = Some x \<Longrightarrow> sphase x = Allocated \<Longrightarrow>
    mesh_step s ((set_phase n x Greeted s)\<lparr>sent := sent s @ [(n, EncodeHandshake (sip x) (Allocator_Mask (alloc s)) (agateway (alloc s)))]\<rparr>)"
| greet_fails: "sessions s n = Some x \<Longrightarrow> sphase x = Allocated \<Longrightarrow> mesh_step s (set_phase n x TableGone s)"
| list_peer: "sessions s n = Some x \<Longrightarrow> sphase x = Greeted \<Longrightarrow>
    mesh_step s ((set_phase n x Listed s)\<lparr>tbl := Register (sip x) n (tbl s)\<rparr>)"
| join_hub: "sessions s n = Some x \<Longrightarrow> sphase x = Listed \<Longrightarrow>
    mesh_step s ((set_phase n x Running s)\<lparr>hub := map_option (Hub_Register (sip x) n) (hub s)\<rparr>)"
| packet: "sessions s n = Some x \<Longrightarrow> sphase x = Running \<Longrightarrow> ReadFrame r = Inr (pkt, r') \<Longrightarrow>
    mesh_step s (s\<lparr>sent := sent s @ handle_packet s (sip x) pkt\<rparr>)"
| leave_hub: "sessions s n = Some x \<Longrightarrow> sphase x = Running \<Longrightarrow>
    mesh_step s ((set_phase n x HubGone s)\<lparr>hub := map_option (Hub_Unregister (sip x)) (hub s)\<rparr>)"
| unlist_peer: "sessions s n = Some x \<Longrightarrow> sphase x = HubGone \<Longrightarrow>
    mesh_step s ((set_phase n x TableGone s)\<lparr>tbl := Unregister (sip x) (tbl s)\<rparr>)"
| give_back: "sessions s n = Some x \<Longrightarrow> sphase x = TableGone \<Longrightarrow>
    mesh_step s (s\<lparr>sessions := (sessions s)(n := None), alloc := Release (sip x) (alloc s)\<rparr>)"

inductive mesh_reachable :: "mesh_server \<Rightarrow> mesh_server \<Rightarrow> bool" where
  reach_start: "mesh_reachable s s"
| reach_step: "mesh_reachable s t \<Longrightarrow> mesh_step t u \<Longrightarrow> mesh_reachable s u"

definition mesh_start :: "IPAllocator \<Rightarrow> bool \<Rightarrow> mesh_server" where
  "mesh_start a withHub = \<lparr>alloc = a, tbl = NewPeerTable, hub = (if withHub then Some NewHub else None),
     sessions = (\<lambda>_. None), nextSession = 0, sent = []\<rparr>"

section \<open>The invariant of the server\<close>

definition listed :: "phase \<Rightarrow> bool" where
  "listed p \<longleftrightarrow> p \<in> {Listed, Running, HubGone}"

definition live :: "mesh_server \<Rightarrow> nat \<Rightarrow> IP \<Rightarrow> phase \<Rightarrow> bool" where
  "live s n ip p \<longleftrightarrow> sessions s n = Some \<lparr>sip = ip, sphase = p\<rparr>"

definition leases_inv :: "mesh_server \<Rightarrow> bool" where
  "leases_inv s \<longleftrightarrow> ok4 (alloc s) \<and> held4 (alloc s) = {ip. \<exists>n p. live s n ip p} \<and>
     (\<forall>n m ip p q. live s n ip p \<longrightarrow> live s m ip q \<longrightarrow> n = m) \<and> (\<forall>n ip p. live s n ip p \<longrightarrow> n < nextSession s)"

definition table_inv :: "mesh_server \<Rightarrow> bool" where
  "table_inv s \<longleftrightarrow> (\<forall>k n. tbl s k = Some n \<longleftrightarrow> (\<exists>ip p. live s n ip p \<and> listed p \<and> k = vipKey ip))"

definition hub_inv :: "mesh_server \<Rightarrow> bool" where
  "hub_inv s \<longleftrightarrow> (\<forall>h. hub s = Some h \<longrightarrow> (\<forall>k v n. h k = Some (v, n) \<longleftrightarrow> live s n v Running \<and> k = vipKey v))"

definition server_inv :: "mesh_server \<Rightarrow> bool" where
  "server_inv s \<longleftrightarrow> leases_inv s \<and> table_inv s \<and> hub_inv s"

lemma hubVIPKey_eq: "hubVIPKey = vipKey"
  by (simp add: hubVIPKey_def vipKey_def fun_eq_iff)

lemma leases_unique:
  assumes "leases_inv s" "live s n ip p" "live s m ip q" shows "n = m"
proof -
  have "\<forall>n m ip p q. live s n ip p \<longrightarrow> live s m ip q \<longrightarrow> n = m" using assms(1) unfolding leases_inv_def by (elim conjE)
  then show ?thesis using assms(2,3) by blast
qed

lemma leases_bound:
  assumes "leases_inv s" "live s n ip p" shows "n < nextSession s"
proof -
  have "\<forall>n ip p. live s n ip p \<longrightarrow> n < nextSession s" using assms(1) unfolding leases_inv_def by (elim conjE)
  then show ?thesis using assms(2) by blast
qed

lemma leases_held: "leases_inv s \<Longrightarrow> held4 (alloc s) = {ip. \<exists>n p. live s n ip p}"
  unfolding leases_inv_def by (elim conjE)

lemma leases_ok: "leases_inv s \<Longrightarrow> ok4 (alloc s)"
  unfolding leases_inv_def by (elim conjE)

lemma leases_invI:
  assumes "ok4 (alloc s)" "held4 (alloc s) = {ip. \<exists>n p. live s n ip p}"
    and "\<And>n m ip p q. live s n ip p \<Longrightarrow> live s m ip q \<Longrightarrow> n = m" and "\<And>n ip p. live s n ip p \<Longrightarrow> n < nextSession s"
  shows "leases_inv s"
  unfolding leases_inv_def using assms by (intro conjI allI impI)

lemma live_length:
  assumes "leases_inv s" "live s n ip p" shows "length ip = 4"
proof -
  have "ip \<in> held4 (alloc s)" using leases_held [OF assms(1)] assms(2) by blast
  then show ?thesis by (auto simp: held4_def)
qed

lemmas live_ip = live_length [THEN vipKey_v4]

lemma live_key:
  assumes "leases_inv s" "live s n ip p" "live s m ip' q" "vipKey ip = vipKey ip'" shows "n = m \<and> ip = ip'"
proof -
  have "Some (Addr4 ip) = vipKey ip" by (rule live_ip [OF assms(1,2), symmetric])
  also have "\<dots> = Some (Addr4 ip')" unfolding assms(4) by (rule live_ip [OF assms(1,3)])
  finally have e: "ip = ip'" by simp
  have "n = m" by (rule leases_unique [OF assms(1,2)]) (use assms(3) e in simp)
  with e show ?thesis by simp
qed

lemma live_unique: "live s n ip p \<Longrightarrow> live s n ip' q \<Longrightarrow> ip = ip' \<and> p = q"
  by (simp add: live_def)

lemma live_set_phase:
  assumes "live s n ip p"
  shows "live (set_phase n \<lparr>sip = ip, sphase = p\<rparr> q s) m ip' p' \<longleftrightarrow> (if m = n then ip' = ip \<and> p' = q else live s m ip' p')"
  by (auto simp: live_def set_phase_def)

lemma live_frame [simp]:
  "live (s\<lparr>sent := o'\<rparr>) = live s" "live (s\<lparr>tbl := t\<rparr>) = live s" "live (s\<lparr>hub := h\<rparr>) = live s" "live (s\<lparr>alloc := a\<rparr>) = live s"
  by (simp_all add: live_def fun_eq_iff)

lemma set_phase_simps [simp]:
  "alloc (set_phase n x q s) = alloc s" "tbl (set_phase n x q s) = tbl s" "hub (set_phase n x q s) = hub s"
  "nextSession (set_phase n x q s) = nextSession s" "sent (set_phase n x q s) = sent s"
  by (simp_all add: set_phase_def)

lemma leases_set_phase:
  assumes "leases_inv s" "live s n ip p"
  shows "leases_inv (set_phase n \<lparr>sip = ip, sphase = p\<rparr> q s)"
proof -
  let ?s = "set_phase n \<lparr>sip = ip, sphase = p\<rparr> q s"
  have l: "live ?s m ip' p' \<longleftrightarrow> (if m = n then ip' = ip \<and> p' = q else live s m ip' p')" for m ip' p'
    by (rule live_set_phase [OF assms(2)])
  have ex: "(\<exists>p'. live ?s m ip' p') \<longleftrightarrow> (\<exists>p'. live s m ip' p')" for m ip'
    using l assms(2) by (cases "m = n") (auto simp: live_def)
  show ?thesis
  proof (rule leases_invI)
    show "ok4 (alloc ?s)" using leases_ok [OF assms(1)] by simp
    show "held4 (alloc ?s) = {ip'. \<exists>m p'. live ?s m ip' p'}" using ex leases_held [OF assms(1)] by simp
    show "m = m'" if h: "live ?s m ip' p'" "live ?s m' ip' q'" for m m' ip' p' q'
    proof -
      obtain p1 where 1: "live s m ip' p1" using ex [of m ip'] h(1) by blast
      obtain q1 where "live s m' ip' q1" using ex [of m' ip'] h(2) by blast
      then show ?thesis by (rule leases_unique [OF assms(1) 1])
    qed
    show "m < nextSession ?s" if "live ?s m ip' p'" for m ip' p'
      using ex that leases_bound [OF assms(1)] by (metis set_phase_simps(4))
  qed
qed

lemma table_set_phase:
  assumes "leases_inv s" "table_inv s" "live s n ip p"
    and "\<And>k m. t k = Some m \<longleftrightarrow> (if m = n then listed q \<and> k = vipKey ip else tbl s k = Some m)"
  shows "table_inv ((set_phase n \<lparr>sip = ip, sphase = p\<rparr> q s)\<lparr>tbl := t\<rparr>)"
  unfolding table_inv_def
  using assms(2,4) live_set_phase [OF assms(3), of q] by (auto simp: table_inv_def)

lemma hub_set_phase:
  assumes "leases_inv s" "hub_inv s" "live s n ip p"
    and "\<And>h. h' = Some h \<Longrightarrow> \<exists>h0. hub s = Some h0 \<and> (\<forall>k v m. h k = Some (v, m) \<longleftrightarrow>
          (if m = n then q = Running \<and> v = ip \<and> k = vipKey ip else h0 k = Some (v, m)))"
  shows "hub_inv ((set_phase n \<lparr>sip = ip, sphase = p\<rparr> q s)\<lparr>hub := h'\<rparr>)"
  unfolding hub_inv_def
proof (intro allI impI)
  fix h k v m
  assume "hub ((set_phase n \<lparr>sip = ip, sphase = p\<rparr> q s)\<lparr>hub := h'\<rparr>) = Some h"
  then obtain h0 where h0: "hub s = Some h0"
    "h k = Some (v, m) \<longleftrightarrow> (if m = n then q = Running \<and> v = ip \<and> k = vipKey ip else h0 k = Some (v, m))"
    using assms(4) by fastforce
  then show "h k = Some (v, m) \<longleftrightarrow> live ((set_phase n \<lparr>sip = ip, sphase = p\<rparr> q s)\<lparr>hub := h'\<rparr>) m v Running \<and> k = vipKey v"
    using assms(2) live_set_phase [OF assms(3), of q] by (auto simp: hub_inv_def)
qed

lemma table_own: "table_inv s \<Longrightarrow> live s n ip p \<Longrightarrow> tbl s k = Some n \<longleftrightarrow> listed p \<and> k = vipKey ip"
  unfolding table_inv_def by (auto simp: live_def)

lemma hub_own: "hub_inv s \<Longrightarrow> live s n ip p \<Longrightarrow> hub s = Some h \<Longrightarrow> h k = Some (v, n) \<longleftrightarrow> p = Running \<and> v = ip \<and> k = vipKey ip"
  unfolding hub_inv_def by (auto simp: live_def)

lemma table_keep:
  assumes "leases_inv s" "table_inv s" "live s n ip p" "listed q = listed p"
  shows "table_inv (set_phase n \<lparr>sip = ip, sphase = p\<rparr> q s)"
  using table_set_phase [OF assms(1-3), of "tbl s" q] table_own [OF assms(2,3)] assms(4)
  by (simp add: set_phase_def)

lemma hub_keep:
  assumes "leases_inv s" "hub_inv s" "live s n ip p" "q = Running \<longleftrightarrow> p = Running"
  shows "hub_inv (set_phase n \<lparr>sip = ip, sphase = p\<rparr> q s)"
proof -
  have "hub_inv ((set_phase n \<lparr>sip = ip, sphase = p\<rparr> q s)\<lparr>hub := hub s\<rparr>)"
    by (rule hub_set_phase [OF assms(1-3)]) (use hub_own [OF assms(2,3)] assms(4) in auto)
  then show ?thesis by (simp add: set_phase_def)
qed

text \<open>Entries of other sessions are under other keys.\<close>

lemma table_other:
  assumes "leases_inv s" "table_inv s" "live s n ip p" "tbl s k = Some m" "m \<noteq> n" shows "k \<noteq> vipKey ip"
proof
  assume k: "k = vipKey ip"
  obtain ip' q where "live s m ip' q" "k = vipKey ip'" using assms(2,4) unfolding table_inv_def by blast
  then show False using live_key [OF assms(1,3)] k assms(5) by metis
qed

lemma hub_other:
  assumes "leases_inv s" "hub_inv s" "live s n ip p" "hub s = Some h" "h k = Some (v, m)" "m \<noteq> n" shows "k \<noteq> vipKey ip"
proof
  assume k: "k = vipKey ip"
  have "live s m v Running" "k = vipKey v" using assms(2,4,5) unfolding hub_inv_def by blast+
  then show False using live_key [OF assms(1,3)] k assms(6) by metis
qed

lemma inv_list_peer:
  assumes "server_inv s" "live s n ip Greeted"
  shows "server_inv ((set_phase n \<lparr>sip = ip, sphase = Greeted\<rparr> Listed s)\<lparr>tbl := Register ip n (tbl s)\<rparr>)"
proof -
  have i: "leases_inv s" "table_inv s" "hub_inv s" using assms(1) by (simp_all add: server_inv_def)
  let ?s = "set_phase n \<lparr>sip = ip, sphase = Greeted\<rparr> Listed s"
  have "table_inv (?s\<lparr>tbl := Register ip n (tbl s)\<rparr>)"
    by (rule table_set_phase [OF i(1,2) assms(2)])
      (use table_own [OF i(2) assms(2)] table_other [OF i(1,2) assms(2)] in \<open>auto simp: Register_def listed_def\<close>)
  moreover have "hub_inv ?s" by (rule hub_keep [OF i(1,3) assms(2)]) simp
  ultimately show ?thesis
    using leases_set_phase [OF i(1) assms(2), of Listed] by (simp add: server_inv_def leases_inv_def hub_inv_def)
qed

lemma inv_unlist_peer:
  assumes "server_inv s" "live s n ip HubGone"
  shows "server_inv ((set_phase n \<lparr>sip = ip, sphase = HubGone\<rparr> TableGone s)\<lparr>tbl := Unregister ip (tbl s)\<rparr>)"
proof -
  have i: "leases_inv s" "table_inv s" "hub_inv s" using assms(1) by (simp_all add: server_inv_def)
  let ?s = "set_phase n \<lparr>sip = ip, sphase = HubGone\<rparr> TableGone s"
  have "table_inv (?s\<lparr>tbl := Unregister ip (tbl s)\<rparr>)"
    by (rule table_set_phase [OF i(1,2) assms(2)])
      (use table_own [OF i(2) assms(2)] table_other [OF i(1,2) assms(2)] in \<open>auto simp: Unregister_def listed_def\<close>)
  moreover have "hub_inv ?s" by (rule hub_keep [OF i(1,3) assms(2)]) simp
  ultimately show ?thesis
    using leases_set_phase [OF i(1) assms(2), of TableGone] by (simp add: server_inv_def leases_inv_def hub_inv_def)
qed

lemma inv_join_hub:
  assumes "server_inv s" "live s n ip Listed"
  shows "server_inv ((set_phase n \<lparr>sip = ip, sphase = Listed\<rparr> Running s)\<lparr>hub := map_option (Hub_Register ip n) (hub s)\<rparr>)"
proof -
  have i: "leases_inv s" "table_inv s" "hub_inv s" using assms(1) by (simp_all add: server_inv_def)
  let ?s = "set_phase n \<lparr>sip = ip, sphase = Listed\<rparr> Running s"
  have "hub_inv (?s\<lparr>hub := map_option (Hub_Register ip n) (hub s)\<rparr>)"
    by (rule hub_set_phase [OF i(1,3) assms(2)])
      (auto simp: Hub_Register_def hubVIPKey_eq hub_own [OF i(3) assms(2)] dest: hub_other [OF i(1,3) assms(2)])
  moreover have "table_inv ?s" by (rule table_keep [OF i(1,2) assms(2)]) (simp add: listed_def)
  ultimately show ?thesis
    using leases_set_phase [OF i(1) assms(2), of Running] by (simp add: server_inv_def leases_inv_def table_inv_def)
qed

lemma inv_leave_hub:
  assumes "server_inv s" "live s n ip Running"
  shows "server_inv ((set_phase n \<lparr>sip = ip, sphase = Running\<rparr> HubGone s)\<lparr>hub := map_option (Hub_Unregister ip) (hub s)\<rparr>)"
proof -
  have i: "leases_inv s" "table_inv s" "hub_inv s" using assms(1) by (simp_all add: server_inv_def)
  let ?s = "set_phase n \<lparr>sip = ip, sphase = Running\<rparr> HubGone s"
  have "hub_inv (?s\<lparr>hub := map_option (Hub_Unregister ip) (hub s)\<rparr>)"
    by (rule hub_set_phase [OF i(1,3) assms(2)])
      (auto simp: Hub_Unregister_def hubVIPKey_eq hub_own [OF i(3) assms(2)] dest: hub_other [OF i(1,3) assms(2)])
  moreover have "table_inv ?s" by (rule table_keep [OF i(1,2) assms(2)]) (simp add: listed_def)
  ultimately show ?thesis
    using leases_set_phase [OF i(1) assms(2), of HubGone] by (simp add: server_inv_def leases_inv_def table_inv_def)
qed

lemma inv_set_phase:
  assumes "server_inv s" "live s n ip p" "listed q = listed p" "q = Running \<longleftrightarrow> p = Running"
  shows "server_inv (set_phase n \<lparr>sip = ip, sphase = p\<rparr> q s)"
  using assms by (simp add: server_inv_def leases_set_phase table_keep hub_keep)

lemma inv_connect:
  assumes "server_inv s" "Allocate (alloc s) = Inr (a, ip)"
  shows "server_inv (s\<lparr>alloc := a, sessions := (sessions s)(nextSession s \<mapsto> \<lparr>sip = ip, sphase = Allocated\<rparr>),
           nextSession := nextSession s + 1\<rparr>)" (is "server_inv ?s")
proof -
  have i: "leases_inv s" "table_inv s" "hub_inv s" using assms(1) by (simp_all add: server_inv_def)
  have a: "ok4 a" "ip \<notin> held4 (alloc s)" "held4 a = insert ip (held4 (alloc s))"
    using v4.alloc_fresh [OF leases_ok [OF i(1)] assms(2)] by simp_all
  have l: "live ?s m ip' p \<longleftrightarrow> (if m = nextSession s then ip' = ip \<and> p = Allocated else live s m ip' p)" for m ip' p
    by (auto simp: live_def)
  have b: "\<not> live s (nextSession s) ip' p" for ip' p using leases_bound [OF i(1)] by blast
  have n: "\<not> live s m ip p" for m p using a(2) leases_held [OF i(1)] by blast
  have "leases_inv ?s"
  proof (rule leases_invI)
    show "ok4 (alloc ?s)" using a by simp
    have "(\<exists>m p. live ?s m ip' p) \<longleftrightarrow> ip' = ip \<or> (\<exists>m p. live s m ip' p)" for ip'
      unfolding l using b by metis
    then show "held4 (alloc ?s) = {ip'. \<exists>m p. live ?s m ip' p}"
      using a(3) leases_held [OF i(1)] by (simp add: insert_compr)
    show "m = m'" if "live ?s m ip' p" "live ?s m' ip' q" for m m' ip' p q
      using that n leases_unique [OF i(1)] unfolding l by (metis (full_types))
    show "m < nextSession ?s" if "live ?s m ip' p" for m ip' p
      using that leases_bound [OF i(1)] unfolding l by (fastforce split: if_splits)
  qed
  moreover have le: "live ?s m ip' p \<and> listed p \<longleftrightarrow> live s m ip' p \<and> listed p" for m ip' p
    unfolding l using b by (auto simp: listed_def)
  then have "table_inv ?s" using i(2) unfolding table_inv_def conj_assoc [symmetric] by simp
  moreover have "live ?s m ip' Running \<longleftrightarrow> live s m ip' Running" for m ip'
    unfolding l using b by auto
  then have "hub_inv ?s" using i(3) unfolding hub_inv_def by simp
  ultimately show ?thesis by (simp add: server_inv_def)
qed

lemma inv_give_back:
  assumes "server_inv s" "live s n ip TableGone"
  shows "server_inv (s\<lparr>sessions := (sessions s)(n := None), alloc := Release ip (alloc s)\<rparr>)" (is "server_inv ?s")
proof -
  have i: "leases_inv s" "table_inv s" "hub_inv s" using assms(1) by (simp_all add: server_inv_def)
  have "ip \<in> held4 (alloc s)" using leases_held [OF i(1)] assms(2) by blast
  note a = v4.release_held [OF leases_ok [OF i(1)] this]
  have l: "live ?s m ip' p \<longleftrightarrow> m \<noteq> n \<and> live s m ip' p" for m ip' p by (auto simp: live_def)
  have "leases_inv ?s"
  proof (rule leases_invI)
    show "ok4 (alloc ?s)" using a by simp
    have "ip' \<noteq> ip" if "m \<noteq> n" "live s m ip' p" for m ip' p using leases_unique [OF i(1) assms(2)] that by blast
    moreover have "m \<noteq> n" if "ip' \<noteq> ip" "live s m ip' p" for m ip' p using live_unique [OF assms(2)] that by blast
    ultimately have "(\<exists>m p. m \<noteq> n \<and> live s m ip' p) \<longleftrightarrow> (\<exists>m p. live s m ip' p) \<and> ip' \<noteq> ip" for ip' by blast
    then show "held4 (alloc ?s) = {ip'. \<exists>m p. live ?s m ip' p}"
      using a leases_held [OF i(1)] unfolding l by (simp add: set_diff_eq)
    show "m = m'" if "live ?s m ip' p" "live ?s m' ip' q" for m m' ip' p q
      using that leases_unique [OF i(1)] unfolding l by blast
    show "m < nextSession ?s" if "live ?s m ip' p" for m ip' p
      using that [unfolded l] leases_bound [OF i(1), of m ip' p] by simp
  qed
  moreover have "tbl s k \<noteq> Some n" for k using table_own [OF i(2) assms(2)] by (simp add: listed_def)
  then have "table_inv ?s" unfolding table_inv_def l using i(2) by (auto simp: table_inv_def)
  moreover have "h k \<noteq> Some (v, n)" if "hub s = Some h" for h k v using hub_own [OF i(3) assms(2) that] by simp
  then have "hub_inv ?s" unfolding hub_inv_def l using i(3) by (auto simp: hub_inv_def)
  ultimately show ?thesis by (simp add: server_inv_def)
qed

lemma inv_sent: "server_inv (s\<lparr>sent := w\<rparr>) = server_inv s"
  by (simp add: server_inv_def leases_inv_def table_inv_def hub_inv_def)

lemma mesh_step_inv:
  assumes "mesh_step s t" "server_inv s" shows "server_inv t"
proof -
  have l: "live s n (sip x) p \<and> x = \<lparr>sip = sip x, sphase = p\<rparr>" if "sessions s n = Some x" "sphase x = p" for n x p
    using that by (cases x) (simp add: live_def)
  show ?thesis
    using assms
  proof cases
    case (connect a ip)
    then show ?thesis using inv_connect assms(2) by simp
  next
    case (greet n x)
    have "server_inv (set_phase n x Greeted s)"
      using inv_set_phase [OF assms(2), of n "sip x" Allocated Greeted] l [OF greet(2,3)] by (simp add: listed_def)
    then show ?thesis using greet(1) by (simp add: inv_sent)
  next
    case (greet_fails n x)
    then show ?thesis
      using inv_set_phase [OF assms(2), of n "sip x" Allocated TableGone] l [OF greet_fails(2,3)] by (simp add: listed_def)
  next
    case (list_peer n x)
    then show ?thesis using inv_list_peer [OF assms(2), of n "sip x"] l [OF list_peer(2,3)] by simp
  next
    case (join_hub n x)
    then show ?thesis using inv_join_hub [OF assms(2), of n "sip x"] l [OF join_hub(2,3)] by simp
  next
    case packet
    then show ?thesis using assms(2) by (simp add: inv_sent)
  next
    case (leave_hub n x)
    then show ?thesis using inv_leave_hub [OF assms(2), of n "sip x"] l [OF leave_hub(2,3)] by simp
  next
    case (unlist_peer n x)
    then show ?thesis using inv_unlist_peer [OF assms(2), of n "sip x"] l [OF unlist_peer(2,3)] by simp
  next
    case (give_back n x)
    then show ?thesis using inv_give_back [OF assms(2), of n "sip x"] l [OF give_back(2,3)] by simp
  qed
qed

section \<open>What holds in every reachable state\<close>

lemma mesh_start_inv:
  assumes "NewIPAllocator cidr = Inr a" and "length (netMask (anetwork a)) = 4"
  shows "server_inv (mesh_start a b)"
proof -
  have "ok4 a" "held4 a = {}" using NewIPAllocator_v4 [OF assms] by metis+
  then show ?thesis
    by (simp add: server_inv_def leases_inv_def table_inv_def hub_inv_def live_def mesh_start_def NewPeerTable_def NewHub_def)
qed

lemma mesh_reachable_inv:
  assumes "NewIPAllocator cidr = Inr a" and "length (netMask (anetwork a)) = 4" and "mesh_reachable (mesh_start a b) s"
  shows "server_inv s"
  using assms(3) mesh_start_inv [OF assms(1,2)]
  by (induction "mesh_start a b" s rule: mesh_reachable.induct) (auto intro: mesh_step_inv)

text \<open>A client that connects and runs through the start-up of \<open>HandleMeshStream\<close> without interruption.\<close>

definition join :: "mesh_server \<Rightarrow> mesh_server" where
  "join s = (case Allocate (alloc s) of
     Inl e \<Rightarrow> s
   | Inr (a, ip) \<Rightarrow>
       (let n = nextSession s;
            s1 = s\<lparr>alloc := a, sessions := (sessions s)(n \<mapsto> \<lparr>sip = ip, sphase = Allocated\<rparr>), nextSession := n + 1\<rparr>;
            s2 = (set_phase n \<lparr>sip = ip, sphase = Allocated\<rparr> Greeted s1)
                   \<lparr>sent := sent s1 @ [(n, EncodeHandshake ip (Allocator_Mask (alloc s1)) (agateway (alloc s1)))]\<rparr>;
            s3 = (set_phase n \<lparr>sip = ip, sphase = Greeted\<rparr> Listed s2)\<lparr>tbl := Register ip n (tbl s2)\<rparr>
        in (set_phase n \<lparr>sip = ip, sphase = Listed\<rparr> Running s3)\<lparr>hub := map_option (Hub_Register ip n) (hub s3)\<rparr>))"

lemma join_reachable:
  assumes "mesh_reachable s0 s" shows "mesh_reachable s0 (join s)"
proof (cases "Allocate (alloc s)")
  case (Inr r)
  then obtain a ip where al: "Allocate (alloc s) = Inr (a, ip)" by (cases r) simp
  define n where "n = nextSession s"
  define s1 where "s1 = s\<lparr>alloc := a, sessions := (sessions s)(n \<mapsto> \<lparr>sip = ip, sphase = Allocated\<rparr>), nextSession := n + 1\<rparr>"
  define s2 where "s2 = (set_phase n \<lparr>sip = ip, sphase = Allocated\<rparr> Greeted s1)
    \<lparr>sent := sent s1 @ [(n, EncodeHandshake ip (Allocator_Mask (alloc s1)) (agateway (alloc s1)))]\<rparr>"
  define s3 where "s3 = (set_phase n \<lparr>sip = ip, sphase = Greeted\<rparr> Listed s2)\<lparr>tbl := Register ip n (tbl s2)\<rparr>"
  have 1: "mesh_step s s1" unfolding s1_def n_def by (rule connect [OF al])
  have 2: "mesh_step s1 s2"
    using greet [of s1 n "\<lparr>sip = ip, sphase = Allocated\<rparr>"] by (simp add: s1_def s2_def)
  have 3: "mesh_step s2 s3"
    using list_peer [of s2 n "\<lparr>sip = ip, sphase = Greeted\<rparr>"] by (simp add: s2_def s3_def set_phase_def)
  have j: "join s = (set_phase n \<lparr>sip = ip, sphase = Listed\<rparr> Running s3)\<lparr>hub := map_option (Hub_Register ip n) (hub s3)\<rparr>"
    unfolding join_def al s3_def s2_def s1_def n_def Let_def sum.case prod.case ..
  have "sessions s3 n = Some \<lparr>sip = ip, sphase = Listed\<rparr>" by (simp add: s3_def set_phase_def)
  then have "mesh_step s3 (join s)" using join_hub [of s3 n "\<lparr>sip = ip, sphase = Listed\<rparr>"] by (simp add: j)
  then show ?thesis using assms 1 2 3 by (meson reach_step)
qed (use assms in \<open>simp add: join_def\<close>)

definition two_clients :: mesh_server where
  "two_clients = join (join (mesh_start alloc24 True))"

lemma two_clients_reachable: "mesh_reachable (mesh_start alloc24 True) two_clients"
  unfolding two_clients_def by (intro join_reachable reach_start)

lemma alloc24_mask: "length (netMask (anetwork alloc24)) = 4"
  by code_simp

text \<open>C1: routing is exact under every interleaving of connecting, running and leaving sessions. In each
  reachable state, whatever writer \<open>accepts\<close>, an IPv4 packet for \<open>dst\<close> is written to session \<open>n\<close> exactly when
  \<open>n\<close> is the session that holds the lease on \<open>dst\<close> and is between \<open>peers.Register\<close> and \<open>peers.Unregister\<close>;
  otherwise it is dropped. The lease of a session that is leaving is given back only after its entries are gone,
  so a new holder of the address never has its entry removed by the old one.\<close>

theorem mesh_routing_exact:
  assumes "NewIPAllocator cidr = Inr a" and "length (netMask (anetwork a)) = 4"
    and "mesh_reachable (mesh_start a b) s" and "v4_packet_to dst pkt"
  shows "snd (Forward accepts (tbl s) pkt) = Some (n, w) \<longleftrightarrow> w = pkt \<and> (\<exists>p. live s n dst p \<and> listed p)"
proof -
  have inv: "leases_inv s" "table_inv s" using mesh_reachable_inv [OF assms(1-3)] by (simp_all add: server_inv_def)
  have d: "packet_dst pkt = Some (Addr4 dst)" "length dst = 4"
    using assms(4) by (auto simp: v4_packet_to_def packet_dst_def Let_def slice_def)
  have "tbl s (Some (Addr4 dst)) = Some n \<longleftrightarrow> (\<exists>p. live s n dst p \<and> listed p)" for n
  proof -
    have "tbl s (Some (Addr4 dst)) = Some n \<longleftrightarrow> (\<exists>ip p. live s n ip p \<and> listed p \<and> Some (Addr4 dst) = vipKey ip)"
      using inv(2) unfolding table_inv_def by blast
    also have "\<dots> \<longleftrightarrow> (\<exists>p. live s n dst p \<and> listed p)" using live_ip [OF inv(1)] by fastforce
    finally show ?thesis .
  qed
  then have "(\<exists>p. live s n dst p \<and> listed p) \<longleftrightarrow> tbl s (Some (Addr4 dst)) = Some n" by simp
  then show ?thesis by (simp add: Forward_def d conj_commute eq_commute [of pkt w] split: option.split)
qed

theorem mesh_routing_exact_witness:
  "snd (Forward accepts_frame (tbl two_clients) (0x45 # zeros 15 @ [10, 7, 0, 3])) = Some (1, 0x45 # zeros 15 @ [10, 7, 0, 3])"
proof -
  have "v4_packet_to [10, 7, 0, 3] (0x45 # zeros 15 @ [10, 7, 0, 3])"
  proof -
    have "length (0x45 # zeros 15 @ [10, 7, 0, 3]) = 20" by simp
    moreover have "drop_bit 4 ((0x45 # zeros 15 @ [10, 7, 0, 3 :: byte]) ! 0) = 4"
      "slice 16 20 (0x45 # zeros 15 @ [10, 7, 0, 3]) = [10, 7, 0, 3]" by code_simp+
    ultimately show ?thesis unfolding v4_packet_to_def by simp
  qed
  moreover have "live two_clients 1 [10, 7, 0, 3] Running" by code_simp
  ultimately show ?thesis
    using mesh_routing_exact [OF NewIPAllocator_net24 alloc24_mask two_clients_reachable, of "[10, 7, 0, 3]" _ accepts_frame 1]
    by (metis insertCI listed_def)
qed

lemma Hub_Forward_writes:
  "(m, d) \<in> set (snd (Hub_Forward accepts h msg)) \<longleftrightarrow> d = Message_Encode msg \<and> (\<exists>v. h (hubVIPKey (DstVIP msg)) = Some (v, m))"
  by (auto simp: Hub_Forward_def Let_def split: option.splits)

lemma Signal_Decode_wf:
  assumes "Signal_Decode dat = Inr msg"
  shows "length (SrcVIP msg) = 4" "length (DstVIP msg) = 4" "length (Payload msg) \<le> 4096"
proof -
  have "\<not> 4096 < get16 (slice 9 11 dat)" and "msg = \<lparr>mType = dat ! 0, SrcVIP = copy_into (zeros 4) (slice 1 5 dat),
     DstVIP = copy_into (zeros 4) (slice 5 9 dat),
     Payload = (if get16 (slice 9 11 dat) > 0 then slice 11 (11 + unat (get16 (slice 9 11 dat))) dat else [])\<rparr>"
    using assms by (simp_all add: Signal_Decode_def Let_def split: if_splits)
  then show "length (SrcVIP msg) = 4" "length (DstVIP msg) = 4" "length (Payload msg) \<le> 4096"
    by (simp_all add: length_copy_into word_less_nat_alt slice_def min.coboundedI2)
qed

text \<open>C7: the hub cannot be used to impersonate a peer. In every reachable state, each frame the server writes for
  a signalling packet of the running session \<open>n\<close> with address \<open>ip\<close> reads back as one signalling message, and that
  message either has \<open>ip\<close> as its source and goes to the running session that holds its destination address, or is a
  pong that goes back to \<open>n\<close> itself.\<close>

theorem mesh_signal_no_spoof:
  assumes "NewIPAllocator cidr = Inr a" and "length (netMask (anetwork a)) = 4"
    and "mesh_reachable (mesh_start a b) s" and "hub s = Some h" and "live s n ip Running"
    and "isSignalingPacket pkt" and "(m, f) \<in> set (handle_packet s ip pkt)"
  shows "\<exists>msg. ReadFrame (f @ rest) = Inr (Message_Encode msg, rest) \<and> Signal_Decode (Message_Encode msg) = Inr msg \<and>
    (SrcVIP msg = ip \<and> live s m (DstVIP msg) Running \<or> mType msg = 0x08 \<and> m = n \<and> DstVIP msg = ip)"
proof -
  have inv: "leases_inv s" "hub_inv s" using mesh_reachable_inv [OF assms(1-3)] by (simp_all add: server_inv_def)
  note ip = live_length [OF inv(1) assms(5)]
  obtain d where d: "(m, d) \<in> set (snd (HandleMessage accepts_frame h pkt ip))" "f = fst (WriteFrame d)"
    using assms(4,6,7) by (auto simp: handle_packet_def framed_def)
  obtain msg where msg: "Signal_Decode pkt = Inr msg" "IP_Equal (SrcVIP msg) ip"
    using d(1) by (auto simp: HandleMessage_def split: sum.splits if_splits)
  note wf = Signal_Decode_wf [OF msg(1)]
  have src: "SrcVIP msg = ip" using msg(2) wf(1) ip by (simp add: IP_Equal_def)
  obtain out where out: "(m, d) \<in> set (snd (Hub_Forward accepts_frame h out))" "out = msg \<or> out = NewPongMessage (DstVIP msg) (SrcVIP msg)"
    using d(1) msg src by (auto simp: HandleMessage_def split: if_splits)
  then have o: "length (SrcVIP out) = 4" "length (DstVIP out) = 4" "length (Payload out) \<le> 4096"
    using wf by (auto simp: NewPongMessage_def)
  obtain v where v: "d = Message_Encode out" "h (vipKey (DstVIP out)) = Some (v, m)"
    using out(1) by (auto simp: Hub_Forward_writes hubVIPKey_eq)
  have lv: "live s m v Running" "vipKey (DstVIP out) = vipKey v" using inv(2) assms(4) v(2) unfolding hub_inv_def by blast+
  then have "v = DstVIP out" using live_ip [OF inv(1) lv(1)] vipKey_v4 [OF o(2)] by simp
  then have to: "live s m (DstVIP out) Running" using lv(1) by simp
  have "Signal_Decode (Message_Encode out) = Inr out" using Decode_Encode [of out "[]"] o by simp
  moreover have "ReadFrame (f @ rest) = Inr (Message_Encode out, rest)"
    unfolding d(2) v(1) by (rule frame.rd_enc) (use o in \<open>simp add: Message_Encode_def\<close>)
  moreover have "SrcVIP out = ip \<and> live s m (DstVIP out) Running \<or> mType out = 0x08 \<and> m = n \<and> DstVIP out = ip"
  proof (cases "out = msg")
    case False
    then have "out = NewPongMessage (DstVIP msg) ip" using out(2) src by simp
    then show ?thesis using to leases_unique [OF inv(1) assms(5)] by (simp add: NewPongMessage_def)
  qed (use src to in simp)
  ultimately show ?thesis by blast
qed

definition connect_msg :: Message where
  "connect_msg = \<lparr>mType = 0x04, SrcVIP = [10, 7, 0, 2], DstVIP = [10, 7, 0, 3], Payload = [1, 2]\<rparr>"

theorem mesh_signal_no_spoof_witness:
  "\<exists>msg. ReadFrame (fst (WriteFrame (Message_Encode connect_msg)) @ [9]) = Inr (Message_Encode msg, [9]) \<and>
    Signal_Decode (Message_Encode msg) = Inr msg \<and>
    (SrcVIP msg = [10, 7, 0, 2] \<and> live two_clients 1 (DstVIP msg) Running \<or> mType msg = 0x08 \<and> 1 = (0::nat) \<and> DstVIP msg = [10, 7, 0, 2])"
proof -
  have "\<not> Option.is_none (hub two_clients)" by code_simp
  then have h: "hub two_clients = Some (the (hub two_clients))" by (simp add: Option.is_none_def)
  have "live two_clients 0 [10, 7, 0, 2] Running" "isSignalingPacket (Message_Encode connect_msg)" by code_simp+
  moreover have "(1, fst (WriteFrame (Message_Encode connect_msg))) \<in> set (handle_packet two_clients [10, 7, 0, 2] (Message_Encode connect_msg))"
    by code_simp
  ultimately show ?thesis
    by (rule mesh_signal_no_spoof [OF NewIPAllocator_net24 alloc24_mask two_clients_reachable h])
qed

text \<open>Two consequences of \<open>isSignalingPacket\<close> and of the default case of \<open>HandleMessage\<close>. With the hub on, an IPv6
  packet is taken for a signalling message and never reaches the peer table; and the newer message types (ICE restart,
  trickled candidates, WebRTC) are accepted and dropped.\<close>

lemma ipv6_taken_for_signalling:
  assumes "length pkt \<ge> 40" and "drop_bit 4 (pkt ! 0) = 6" shows "isSignalingPacket pkt"
  using assms by (simp add: isSignalingPacket_def)

lemma newer_types_dropped:
  assumes "Signal_Decode pkt = Inr msg" and "IP_Equal (SrcVIP msg) ip" and "mType msg \<in> {0x09, 0x0A, 0x0B, 0x10, 0x11, 0x12}"
  shows "HandleMessage accepts h pkt ip = (None, [])"
  using assms by (auto simp: HandleMessage_def)

end
