(* ===== verification/QuicVarint.thy ===== *)
theory QuicVarint
  imports GoBytes
begin

text \<open>
  The variable-length integers of QUIC, \<^verbatim>\<open>quicfork/quicvarint/varint.go\<close> and \<^verbatim>\<open>io.go\<close>: four encodings of
  1, 2, 4 and 8 bytes, chosen by the two top bits of the first byte. Values are 64-bit words, of which
  62 bits can be encoded; the panics on larger values are the error \<open>VarintPanic\<close>. \<open>Read\<close> takes an
  \<open>io.ByteReader\<close> (the bytes to come) and leaves the rest; \<open>Parse\<close> takes a slice and counts the bytes it used.
\<close>

unbundle bit_operations_syntax

datatype varint_error = VarintIO io_error | VarintPanic

definition maxVarInt1 :: u64 where "maxVarInt1 = 63"
definition maxVarInt2 :: u64 where "maxVarInt2 = 16383"
definition maxVarInt4 :: u64 where "maxVarInt4 = 1073741823"
definition maxVarInt8 :: u64 where "maxVarInt8 = 4611686018427387903"

lemmas maxVarInt_defs = maxVarInt1_def maxVarInt2_def maxVarInt4_def maxVarInt8_def

definition varint_Parse :: "bytes \<Rightarrow> varint_error + (u64 \<times> nat)" where
  "varint_Parse b =
     (if b = [] then Inl (VarintIO EOF)
      else
        (let first = b ! 0
         in if drop_bit 6 first = 0 then Inr (ucast (first AND 0x3F), 1)
            else if drop_bit 6 first = 1 then
              (if length b < 2 then Inl (VarintIO UnexpectedEOF)
               else Inr (ucast (b ! 1) OR push_bit 8 (ucast (first AND 0x3F)), 2))
            else if drop_bit 6 first = 2 then
              (if length b < 4 then Inl (VarintIO UnexpectedEOF)
               else Inr (ucast (b ! 3) OR push_bit 8 (ucast (b ! 2)) OR push_bit 16 (ucast (b ! 1))
                           OR push_bit 24 (ucast (first AND 0x3F)), 4))
            else
              (if length b < 8 then Inl (VarintIO UnexpectedEOF)
               else Inr (get64 b AND 0x3FFFFFFFFFFFFFFF, 8))))"

definition ReadByte :: "bytes \<Rightarrow> varint_error + (byte \<times> bytes)" where
  "ReadByte r = (case r of [] \<Rightarrow> Inl (VarintIO EOF) | b # bs \<Rightarrow> Inr (b, bs))"

definition varint_Read :: "bytes \<Rightarrow> varint_error + (u64 \<times> bytes)" where
  "varint_Read r =
     rbind (ReadByte r) (\<lambda>(firstByte, r).
       let l = push_bit (unat (drop_bit 6 (firstByte AND 0xC0))) 1;
           b1 = firstByte AND (0xFF - 0xC0)
       in if l = (1 :: nat) then Inr (ucast b1, r)
          else rbind (ReadByte r) (\<lambda>(b2, r).
            if l = 2 then Inr (ucast b2 + push_bit 8 (ucast b1), r)
            else rbind (ReadByte r) (\<lambda>(b3, r). rbind (ReadByte r) (\<lambda>(b4, r).
              if l = 4 then Inr (ucast b4 + push_bit 8 (ucast b3) + push_bit 16 (ucast b2) + push_bit 24 (ucast b1), r)
              else rbind (ReadByte r) (\<lambda>(b5, r). rbind (ReadByte r) (\<lambda>(b6, r).
                   rbind (ReadByte r) (\<lambda>(b7, r). rbind (ReadByte r) (\<lambda>(b8, r).
                     Inr (ucast b8 + push_bit 8 (ucast b7) + push_bit 16 (ucast b6) + push_bit 24 (ucast b5)
                            + push_bit 32 (ucast b4) + push_bit 40 (ucast b3) + push_bit 48 (ucast b2)
                            + push_bit 56 (ucast b1), r)))))))))"

definition varint_Len :: "u64 \<Rightarrow> varint_error + nat" where
  "varint_Len i =
     (if i \<le> maxVarInt1 then Inr 1
      else if i \<le> maxVarInt2 then Inr 2
      else if i \<le> maxVarInt4 then Inr 4
      else if i \<le> maxVarInt8 then Inr 8
      else Inl VarintPanic)"

text \<open>The bytes that \<open>Append\<close> adds to the slice.\<close>

definition varint_Append :: "u64 \<Rightarrow> varint_error + bytes" where
  "varint_Append i =
     (if i \<le> maxVarInt1 then Inr [ucast i]
      else if i \<le> maxVarInt2 then Inr [ucast (drop_bit 8 i) OR 0x40, ucast i]
      else if i \<le> maxVarInt4 then
        Inr [ucast (drop_bit 24 i) OR 0x80, ucast (drop_bit 16 i), ucast (drop_bit 8 i), ucast i]
      else if i \<le> maxVarInt8 then
        Inr [ucast (drop_bit 56 i) OR 0xC0, ucast (drop_bit 48 i), ucast (drop_bit 40 i), ucast (drop_bit 32 i),
             ucast (drop_bit 24 i), ucast (drop_bit 16 i), ucast (drop_bit 8 i), ucast i]
      else Inl VarintPanic)"

definition varint_AppendWithLen :: "u64 \<Rightarrow> nat \<Rightarrow> varint_error + bytes" where
  "varint_AppendWithLen i len =
     (if len \<notin> {1, 2, 4, 8} then Inl VarintPanic
      else rbind (varint_Len i) (\<lambda>l.
        if l = len then varint_Append i
        else if l > len then Inl VarintPanic
        else Inr ((if len = 2 then [0x40] else if len = 4 then [0x80] else if len = 8 then [0xC0] else [])
                   @ zeros (len - l - 1) @ map (\<lambda>j. ucast (drop_bit (8 * (l - 1 - j)) i)) [0..<l])))"

text \<open>\<open>Peek\<close> copies bytes without consuming them; \<open>p n\<close> is the outcome of peeking \<open>n\<close> bytes.\<close>

definition varint_Peek :: "(nat \<Rightarrow> varint_error + bytes) \<Rightarrow> varint_error + u64" where
  "varint_Peek p =
     rbind (p 1) (\<lambda>b.
       let l = push_bit (unat (drop_bit 6 (b ! 0))) 1
       in if l = (1 :: nat) then Inr (ucast (b ! 0 AND 0x3F))
          else rbind (p l) (\<lambda>b. rbind (varint_Parse b) (\<lambda>(val, _). Inr val)))"

section \<open>Reading back\<close>

lemma small_bits:
  assumes "uint (i :: u64) < 2 ^ k" and "bit i n" shows "n < k"
proof -
  have "take_bit k (uint i) = uint i" using assms(1) by (simp add: take_bit_int_eq_self_iff)
  then show ?thesis using assms(2) bit_imp_le_length [of i n] by (metis bit_take_bit_iff bit_uint_iff)
qed

lemma le_maxVarInt:
  "i \<le> maxVarInt1 \<longleftrightarrow> uint i < 2 ^ 6" "i \<le> maxVarInt2 \<longleftrightarrow> uint i < 2 ^ 14"
  "i \<le> maxVarInt4 \<longleftrightarrow> uint i < 2 ^ 30" "i \<le> maxVarInt8 \<longleftrightarrow> uint i < 2 ^ 62"
  by (auto simp: maxVarInt_defs word_le_def)

lemmas maxVarInt_bits = le_maxVarInt [THEN iffD1, THEN small_bits]

lemma low6: "(x :: byte) AND 0x3F = take_bit 6 x"
  by (simp add: take_bit_eq_mask mask_eq_exp_minus_1)

lemma low62: "(x :: u64) AND 0x3FFFFFFFFFFFFFFF = take_bit 62 x"
  by (simp add: take_bit_eq_mask mask_eq_exp_minus_1)

text \<open>The first byte of each encoding: its tag and its six low bits.\<close>

lemma first_byte:
  assumes "\<And>n. bit (x :: u64) n \<Longrightarrow> n < 6" 
  shows "drop_bit 6 (ucast x :: byte) = 0" "drop_bit 6 (ucast x OR 0x40 :: byte) = 1"
    "drop_bit 6 (ucast x OR 0x80 :: byte) = 2" "drop_bit 6 (ucast x OR 0xC0 :: byte) = 3"
    "take_bit 6 (ucast x :: byte) = ucast x" "take_bit 6 (ucast x OR 0x40 :: byte) = ucast x"
    "take_bit 6 (ucast x OR 0x80 :: byte) = ucast x" "take_bit 6 (ucast x OR 0xC0 :: byte) = ucast x"
proof -
  have "drop_bit 6 (ucast x :: byte) = 0" "take_bit 6 (ucast x :: byte) = ucast x"
    by (auto simp: bit_simps intro!: bit_word_eqI dest!: assms)
  then show "drop_bit 6 (ucast x :: byte) = 0" "drop_bit 6 (ucast x OR 0x40 :: byte) = 1"
    "drop_bit 6 (ucast x OR 0x80 :: byte) = 2" "drop_bit 6 (ucast x OR 0xC0 :: byte) = 3"
    "take_bit 6 (ucast x :: byte) = ucast x" "take_bit 6 (ucast x OR 0x40 :: byte) = ucast x"
    "take_bit 6 (ucast x OR 0x80 :: byte) = ucast x" "take_bit 6 (ucast x OR 0xC0 :: byte) = ucast x"
    by (simp_all add: drop_bit_or take_bit_or)
qed

lemma drop_small:
  assumes "uint (i :: u64) < 2 ^ (k + 6)" shows "bit (drop_bit k i) n \<Longrightarrow> n < 6"
  using small_bits [OF assms, of "k + n"] by (simp add: bit_drop_bit_eq)

lemma split_64:
  assumes "n < LENGTH(64)"
  obtains "n < 8" | "8 \<le> n" "n < 16" | "16 \<le> n" "n < 24" | "24 \<le> n" "n < 32" | "32 \<le> n" "n < 40"
  | "40 \<le> n" "n < 48" | "48 \<le> n" "n < 56" | "56 \<le> n" "n < 64"
proof -
  have "n < 64" using assms by simp
  then show thesis using that by (meson not_less)
qed

lemma join_1:
  assumes "uint (i :: u64) < 2 ^ 6" shows "ucast (ucast i :: byte) = i"
proof (rule bit_word_eqI)
  fix n show "bit (ucast (ucast i :: byte) :: u64) n = bit i n"
    using small_bits [OF assms, of n] by (auto simp: bit_simps)
qed

lemma join_2:
  assumes "uint (i :: u64) < 2 ^ 14"
  shows "ucast (ucast i :: byte) OR push_bit 8 (ucast (ucast (drop_bit 8 i) :: byte)) = i" (is "?l = i")
proof (rule bit_word_eqI)
  fix n assume n: "n < LENGTH(64)"
  then show "bit ?l n = bit i n"
    using small_bits [OF assms, of n] by (cases n rule: split_64) (auto simp: bit_simps)
qed

lemma join_4:
  assumes "uint (i :: u64) < 2 ^ 30"
  shows "ucast (ucast i :: byte) OR push_bit 8 (ucast (ucast (drop_bit 8 i) :: byte))
     OR push_bit 16 (ucast (ucast (drop_bit 16 i) :: byte)) OR push_bit 24 (ucast (ucast (drop_bit 24 i) :: byte)) = i"
    (is "?l = i")
proof (rule bit_word_eqI)
  fix n assume n: "n < LENGTH(64)"
  then show "bit ?l n = bit i n"
    using small_bits [OF assms, of n] by (cases n rule: split_64) (auto simp: bit_simps)
qed

lemma put64_bytes:
  "put64 i = [ucast (drop_bit 56 i), ucast (drop_bit 48 i), ucast (drop_bit 40 i), ucast (drop_bit 32 i),
     ucast (drop_bit 24 i), ucast (drop_bit 16 i), ucast (drop_bit 8 i), ucast i]"
  by (simp add: put64_def put32_def) (auto simp: bit_simps intro!: bit_word_eqI)

lemma ucast_or_byte: "ucast (a OR b :: byte) = (ucast a OR ucast b :: 'a::len word)"
  by (auto simp: bit_simps intro!: bit_word_eqI)

lemma ucast_or_u32: "ucast (a OR b :: u32) = (ucast a OR ucast b :: u64)"
  by (auto simp: bit_simps intro!: bit_word_eqI)

lemma get64_or_first:
  "get64 ((a OR t) # b # c # d # e # f # g # h # r) = get64 (a # b # c # d # e # f # g # h # r) OR push_bit 32 (ucast (push_bit 24 (ucast t) :: u32))"
  by (simp add: get64_def ucast_or_byte ucast_or_u32 push_bit_or ac_simps)

lemma join_8:
  assumes "uint (i :: u64) < 2 ^ 62"
  shows "take_bit 62 (get64 ((ucast (drop_bit 56 i) OR 0xC0) # ucast (drop_bit 48 i) # ucast (drop_bit 40 i) # ucast (drop_bit 32 i) #
             ucast (drop_bit 24 i) # ucast (drop_bit 16 i) # ucast (drop_bit 8 i) # ucast i # r)) = i"
proof -
  have "take_bit 62 i = i"
    using small_bits [OF assms] by (auto simp: bit_simps intro!: bit_word_eqI)
  moreover have "take_bit 62 (push_bit 32 (ucast (push_bit 24 (ucast (0xC0 :: byte)) :: u32)) :: u64) = 0" by simp
  ultimately show ?thesis
    using get64_put64_append [of i r] unfolding get64_or_first put64_bytes by (simp add: take_bit_or)
qed

text \<open>The encoding of \<open>i\<close> in \<open>2 ^ k\<close> bytes, minimal or not, and what \<open>Parse\<close> makes of it.\<close>

fun full :: "nat \<Rightarrow> u64 \<Rightarrow> bytes" where
  "full 0 i = [ucast i]"
| "full (Suc 0) i = [ucast (drop_bit 8 i) OR 0x40, ucast i]"
| "full (Suc (Suc 0)) i = [ucast (drop_bit 24 i) OR 0x80, ucast (drop_bit 16 i), ucast (drop_bit 8 i), ucast i]"
| "full k i = [ucast (drop_bit 56 i) OR 0xC0, ucast (drop_bit 48 i), ucast (drop_bit 40 i), ucast (drop_bit 32 i),
     ucast (drop_bit 24 i), ucast (drop_bit 16 i), ucast (drop_bit 8 i), ucast i]"

lemmas full_simps = full.simps [folded One_nat_def numeral_2_eq_2]

definition fits :: "nat \<Rightarrow> u64 \<Rightarrow> bool" where
  "fits k i \<longleftrightarrow> k \<in> {0, 1, 2, 3} \<and> uint i < 2 ^ (8 * 2 ^ k - 2)"

lemma fits_cases:
  assumes "fits k i"
  obtains "k = 0" "uint i < 2 ^ 6" | "k = 1" "uint i < 2 ^ 14" | "k = 2" "uint i < 2 ^ 30" | "k = 3" "uint i < 2 ^ 62"
  using assms by (auto simp: fits_def)

lemma length_full: "fits k i \<Longrightarrow> length (full k i) = 2 ^ k"
  by (auto elim!: fits_cases simp: full_simps numeral_3_eq_3)

lemma Parse_full:
  assumes "fits k i" shows "varint_Parse (full k i @ r) = Inr (i, 2 ^ k)"
  using assms
proof (cases rule: fits_cases)
  case 1
  then show ?thesis
    using first_byte [OF small_bits [OF 1(2)]] join_1 [OF 1(2)] by (simp add: varint_Parse_def low6)
next
  case 2
  then show ?thesis
    using first_byte [OF drop_small [of i 8]] join_2 [OF 2(2)] by (simp add: varint_Parse_def low6)
next
  case 3
  then show ?thesis
    using first_byte [OF drop_small [of i 24]] join_4 [OF 3(2)] by (simp add: varint_Parse_def low6 full_simps)
next
  case 4
  then show ?thesis
    using first_byte [OF drop_small [of i 56]] join_8 [OF 4(2)]
    by (simp add: varint_Parse_def low62 numeral_3_eq_3)
qed

text \<open>Both writers produce such an encoding.\<close>

lemma Append_full:
  assumes "varint_Append i = Inr bs" obtains k where "fits k i" "bs = full k i" "varint_Len i = Inr (2 ^ k)"
proof -
  consider "uint i < 2 ^ 6" | "\<not> uint i < 2 ^ 6" "uint i < 2 ^ 14" | "\<not> uint i < 2 ^ 14" "uint i < 2 ^ 30"
  | "\<not> uint i < 2 ^ 30" "uint i < 2 ^ 62"
    using assms by (auto simp: varint_Append_def le_maxVarInt split: if_splits)
  then show ?thesis
  proof cases
    case 1 then show ?thesis using that [of 0] assms by (simp add: varint_Append_def varint_Len_def le_maxVarInt fits_def)
  next
    case 2 then show ?thesis using that [of 1] assms by (simp add: varint_Append_def varint_Len_def le_maxVarInt fits_def)
  next
    case 3 then show ?thesis using that [of 2] assms by (simp add: varint_Append_def varint_Len_def le_maxVarInt fits_def full_simps)
  next
    case 4 then show ?thesis using that [of 3] assms by (simp add: varint_Append_def varint_Len_def le_maxVarInt fits_def numeral_3_eq_3)
  qed
qed

lemma high_bytes_zero:
  assumes "uint (i :: u64) < 2 ^ m" and "m \<le> n" shows "(ucast (drop_bit n i) :: byte) = 0"
  using small_bits [OF assms(1)] assms(2) by (fastforce simp: bit_simps intro!: bit_word_eqI)

lemma Len_cases:
  assumes "varint_Len i = Inr l"
  obtains "l = 1" "uint i < 2 ^ 6" | "l = 2" "uint i < 2 ^ 14" | "l = 4" "uint i < 2 ^ 30" | "l = 8" "uint i < 2 ^ 62"
  using assms by (auto simp: varint_Len_def le_maxVarInt split: if_splits)

lemma upt_small: "[0..<1] = [0]" "[0..<2] = [0, 1]" "[0..<4] = [0, 1, 2, 3]"
  by (simp_all add: upt_rec)

lemma AppendWithLen_padded:
  assumes "varint_AppendWithLen i len = Inr bs" "varint_Len i = Inr l" "l \<noteq> len"
  obtains k where "fits k i" "bs = full k i" "len = 2 ^ k"
proof -
  have len: "len = 2 \<or> len = 4 \<or> len = 8" "l < len"
    and bs: "bs = (if len = 2 then [0x40] else if len = 4 then [0x80] else if len = 8 then [0xC0] else [])
                   @ zeros (len - l - 1) @ map (\<lambda>j. ucast (drop_bit (8 * (l - 1 - j)) i)) [0..<l]"
    using assms by (auto simp: varint_AppendWithLen_def split: if_splits elim: Len_cases)
  show ?thesis
    using assms(2)
  proof (cases rule: Len_cases)
    case 1
    note z = high_bytes_zero [OF 1(2)]
    from len(1) show ?thesis
    proof (elim disjE)
      assume "len = 2" then show ?thesis using that [of 1] 1 bs z by (simp add: fits_def upt_small)
    next
      assume "len = 4" then show ?thesis using that [of 2] 1 bs z by (simp add: fits_def upt_small full_simps numeral_eq_Suc)
    next
      assume "len = 8" then show ?thesis using that [of 3] 1 bs z by (simp add: fits_def upt_small numeral_eq_Suc)
    qed
  next
    case 2
    note z = high_bytes_zero [OF 2(2)]
    from len 2 have "len = 4 \<or> len = 8" by auto
    then show ?thesis
    proof (elim disjE)
      assume "len = 4" then show ?thesis using that [of 2] 2 bs z by (simp add: fits_def upt_small full_simps numeral_eq_Suc)
    next
      assume "len = 8" then show ?thesis using that [of 3] 2 bs z by (simp add: fits_def upt_small numeral_eq_Suc)
    qed
  next
    case 3
    note z = high_bytes_zero [OF 3(2)]
    from len 3 have "len = 8" by auto
    then show ?thesis using that [of 3] 3 bs z by (simp add: fits_def upt_small numeral_eq_Suc)
  next
    case 4
    then show ?thesis using len by auto
  qed
qed

lemma AppendWithLen_full:
  assumes "varint_AppendWithLen i len = Inr bs" obtains k where "fits k i" "bs = full k i" "len = 2 ^ k"
proof -
  obtain l where l: "varint_Len i = Inr l"
    using assms by (auto simp: varint_AppendWithLen_def rbind_eq_Inr split: if_splits)
  show ?thesis
  proof (cases "l = len")
    case True
    then have "varint_Append i = Inr bs" using assms l by (simp add: varint_AppendWithLen_def split: if_splits)
    then show ?thesis using that l True by (elim Append_full) simp
  next
    case False
    from AppendWithLen_padded [OF assms l this] show ?thesis using that by blast
  qed
qed

section \<open>The two decoders agree\<close>

text \<open>\<open>Read\<close> adds the shifted bytes where \<open>Parse\<close> joins them; the bits do not overlap.\<close>

fun add_bytes :: "u64 \<Rightarrow> nat \<Rightarrow> bytes \<Rightarrow> u64" where
  "add_bytes a k [] = a"
| "add_bytes a k (b # bs) = add_bytes (a + push_bit k (ucast b)) (k + 8) bs"

fun or_bytes :: "u64 \<Rightarrow> nat \<Rightarrow> bytes \<Rightarrow> u64" where
  "or_bytes a k [] = a"
| "or_bytes a k (b # bs) = or_bytes (a OR push_bit k (ucast b)) (k + 8) bs"

lemma add_bytes_or: "(\<And>n. bit a n \<Longrightarrow> n < k) \<Longrightarrow> add_bytes a k bs = or_bytes a k bs"
proof (induction bs arbitrary: a k)
  case (Cons b bs)
  have e: "a + push_bit k (ucast b) = a OR push_bit k (ucast b)"
    by (rule disjunctive_add) (auto simp: bit_simps dest!: Cons.prems)
  have "n < k + 8" if "bit (a OR push_bit k (ucast b)) n" for n
    using that by (auto simp: bit_simps dest!: Cons.prems bit_imp_le_length [of b])
  from Cons.IH [OF this] show ?case by (simp add: e)
qed simp

lemma bits_byte: "bit (ucast (b :: byte) :: u64) n \<Longrightarrow> n < 8"
  by (auto simp: bit_simps dest!: bit_imp_le_length [of b])

lemmas sum_2 = add_bytes_or [OF bits_byte, of _ _ "[_]", simplified]
lemmas sum_4 = add_bytes_or [OF bits_byte, of _ _ "[_, _, _]", simplified]
lemmas sum_8 = add_bytes_or [OF bits_byte, of _ _ "[_, _, _, _, _, _, _]", simplified]

lemma take_byte: "8 \<le> m \<Longrightarrow> take_bit m (ucast (b :: byte) :: u64) = ucast b"
  by (rule bit_word_eqI) (auto simp: bit_simps dest: bit_imp_le_length)

lemma ucast_take: "ucast (take_bit 6 (b :: byte)) = take_bit 6 (ucast b :: u64)"
  by (rule bit_word_eqI) (auto simp: bit_simps)

lemma ucast_push: "k \<le> 24 \<Longrightarrow> ucast (push_bit k (ucast (c :: byte)) :: u32) = push_bit k (ucast c :: u64)"
  by (rule bit_word_eqI) (auto simp: bit_simps dest: bit_imp_le_length [of c])

lemma get64_or:
  "get64 (b1 # b2 # b3 # b4 # b5 # b6 # b7 # b8 # r) =
     ucast b8 OR push_bit 8 (ucast b7) OR push_bit 16 (ucast b6) OR push_bit 24 (ucast b5)
        OR push_bit 32 (ucast b4) OR push_bit 40 (ucast b3) OR push_bit 48 (ucast b2) OR push_bit 56 (ucast b1)"
  by (simp add: get64_def ucast_or_u32 ucast_push ucast_push [of 0, simplified] push_bit_or ac_simps)

lemma two_bits: "drop_bit 6 (b :: byte) = 0 \<or> drop_bit 6 b = 1 \<or> drop_bit 6 b = 2 \<or> drop_bit 6 b = 3"
proof -
  have "unat (drop_bit 6 b) < 4"
    unfolding unat_drop_bit_eq using unat_byte_less [of b] by (simp add: drop_bit_eq_div less_mult_imp_div_less)
  then have "unat (drop_bit 6 b) = 0 \<or> unat (drop_bit 6 b) = 1 \<or> unat (drop_bit 6 b) = 2 \<or> unat (drop_bit 6 b) = 3" by linarith
  then show ?thesis by (simp add: word_unat_eq_iff)
qed

lemma tag_of: "drop_bit 6 ((b :: byte) AND 0xC0) = drop_bit 6 b"
proof -
  have "(0xC0 :: byte) = NOT (mask 6)" by (simp add: mask_eq_exp_minus_1)
  moreover have "drop_bit 6 (b AND NOT (mask 6)) = drop_bit 6 b"
    by (rule bit_word_eqI) (auto simp: bit_simps dest: bit_imp_le_length)
  ultimately show ?thesis by simp
qed

lemma Read_Parse:
  assumes "varint_Parse b = Inr (v, n)" shows "varint_Read b = Inr (v, drop n b)"
proof -
  obtain f bs where b: "b = f # bs" using assms by (cases b) (auto simp: varint_Parse_def)
  have low: "0xFF - (0xC0 :: byte) = 0x3F" by simp
  from two_bits [of f] show ?thesis
  proof (elim disjE)
    assume "drop_bit 6 f = 0"
    then show ?thesis using assms by (auto simp: b varint_Parse_def varint_Read_def ReadByte_def tag_of Let_def)
  next
    assume t: "drop_bit 6 f = 1"
    then obtain b2 r where bs: "bs = b2 # r" using assms by (cases bs) (auto simp: b varint_Parse_def)
    show ?thesis using assms t unfolding b bs
      by (auto simp: varint_Parse_def varint_Read_def ReadByte_def tag_of Let_def sum_2)
  next
    assume t: "drop_bit 6 f = 2"
    then have "length bs \<ge> 3" using assms by (auto simp: b varint_Parse_def split: if_splits)
    then obtain b2 b3 b4 r where bs: "bs = b2 # b3 # b4 # r" by (auto simp: numeral_eq_Suc Suc_le_length_iff)
    show ?thesis using assms t unfolding b bs
      by (auto simp: varint_Parse_def varint_Read_def ReadByte_def tag_of Let_def sum_4 or.assoc)
  next
    assume t: "drop_bit 6 f = 3"
    then have "length bs \<ge> 7" using assms by (auto simp: b varint_Parse_def split: if_splits)
    then obtain b2 b3 b4 b5 b6 b7 b8 r where bs: "bs = b2 # b3 # b4 # b5 # b6 # b7 # b8 # r"
      by (auto simp: numeral_eq_Suc Suc_le_length_iff)
    have "take_bit 62 (get64 b) = ucast b8 OR push_bit 8 (ucast b7) OR push_bit 16 (ucast b6) OR push_bit 24 (ucast b5)
        OR push_bit 32 (ucast b4) OR push_bit 40 (ucast b3) OR push_bit 48 (ucast b2) OR push_bit 56 (ucast (take_bit 6 f))"
      unfolding b bs get64_or by (simp add: take_bit_push_bit take_byte ucast_take)
    moreover have "v = take_bit 62 (get64 b)" "n = 8"
      using assms t by (auto simp: b bs varint_Parse_def low62)
    ultimately show ?thesis using t
      by (simp add: b bs varint_Read_def ReadByte_def tag_of Let_def sum_8 or.assoc low6)
  qed
qed

section \<open>The codec\<close>

text \<open>Writing never fails on a 62-bit value.\<close>

lemma Append_Inl: "varint_Append i = Inl e \<Longrightarrow> 2 ^ 62 \<le> uint i \<and> e = VarintPanic"
  by (auto simp: varint_Append_def le_maxVarInt linorder_not_less split: if_splits)

lemma Append_Inr:
  assumes "uint i < 2 ^ 62" obtains bs where "varint_Append i = Inr bs"
  using assms Append_Inl [of i] by (cases "varint_Append i") auto

lemma Parse_Append:
  assumes "varint_Append i = Inr bs" shows "varint_Parse (bs @ r) = Inr (i, length bs)"
proof -
  obtain k where "fits k i" "bs = full k i" using Append_full [OF assms] by blast
  then show ?thesis by (simp add: Parse_full length_full)
qed

lemma Len_Append:
  assumes "varint_Append i = Inr bs" shows "varint_Len i = Inr (length bs)"
proof -
  obtain k where "fits k i" "bs = full k i" "varint_Len i = Inr (2 ^ k)" using Append_full [OF assms] by blast
  then show ?thesis by (simp add: length_full)
qed

interpretation varint: stream_codec "\<lambda>i. projr (varint_Append i)" varint_Read "\<lambda>i. uint i < 2 ^ 62"
proof
  fix i :: u64 and r
  assume "uint i < 2 ^ 62"
  then obtain bs where bs: "varint_Append i = Inr bs" by (rule Append_Inr)
  show "varint_Read (projr (varint_Append i) @ r) = Inr (i, r)"
    using Read_Parse [OF Parse_Append [OF bs, of r]] by (simp add: bs)
qed

text \<open>C38: variable-length integers survive the wire. Whatever of the encodings of 1, 2, 4 or 8 bytes a writer
  chooses (the shortest, or the length the caller asks for), the slice decoder and the stream decoder both give the
  value back and use exactly the encoding's bytes, and the encoding has the length that was asked for or that \<open>Len\<close>
  announces.\<close>

theorem quic_varint_roundtrip:
  assumes "varint_Append i = Inr bs \<and> varint_Len i = Inr len \<or> varint_AppendWithLen i len = Inr bs"
  shows "varint_Parse (bs @ r) = Inr (i, len) \<and> varint_Read (bs @ r) = Inr (i, r) \<and> length bs = len"
proof -
  obtain k where k: "fits k i" "bs = full k i" "len = 2 ^ k"
    using assms
  proof
    assume "varint_Append i = Inr bs \<and> varint_Len i = Inr len"
    then show thesis using that Append_full [of i bs] by (metis sum.inject(2))
  next
    assume "varint_AppendWithLen i len = Inr bs"
    from AppendWithLen_full [OF this] show thesis using that by blast
  qed
  then have "varint_Parse (bs @ r) = Inr (i, len)" "length bs = len" by (simp_all add: Parse_full length_full)
  then show ?thesis using Read_Parse by fastforce
qed

theorem quic_varint_roundtrip_witness:
  "varint_Parse ([0xC0, 0, 0, 0, 0, 0, 0x3B, 0xBD] @ [7]) = Inr (15293, 8) \<and> varint_Read ([0x7B, 0xBD] @ [7]) = Inr (15293, [7])"
proof -
  have "varint_AppendWithLen 15293 8 = Inr [0xC0, 0, 0, 0, 0, 0, 0x3B, 0xBD]" by code_simp
  then have "varint_Parse ([0xC0, 0, 0, 0, 0, 0, 0x3B, 0xBD] @ [7]) = Inr (15293, 8)"
    using quic_varint_roundtrip by blast
  moreover have "varint_Append 15293 = Inr [0x7B, 0xBD]" "varint_Len 15293 = Inr 2" by code_simp+
  then have "varint_Read ([0x7B, 0xBD] @ [7]) = Inr (15293, [7])"
    using quic_varint_roundtrip by blast
  ultimately show ?thesis ..
qed

end
