(* ===== verification/QuicAck.thy ===== *)
theory QuicAck
  imports QuicVarint GoSort GoTime
begin

text \<open>
  The acknowledgement frame of QUIC, \<^verbatim>\<open>quicfork/internal/wire/ack_frame.go\<close> and \<^verbatim>\<open>ack_range.go\<close>, with the
  two idioms all frame parsers and writers share: parsing a variable-length integer and cutting it off the slice, and
  appending one. Packet numbers, stream ids and byte counts are \<open>int64\<close> in the code and HOL integers here; \<open>i64\<close> and
  \<open>w64\<close> are the conversions from and to \<open>uint64\<close>. A parser returns the frame and the number of bytes used. The
  panic of an integer that cannot be encoded, of an index and of a slice bound out of range is the error \<open>WPanic\<close>.
\<close>

datatype wire_error =
    WIO io_error
  | WPanic
  | InvalidFirstAckRange
  | InvalidAckRanges
  | StreamOffsetOverflow
  | EmptyStreamFrame
  | StreamCountExceeded int
  | RetirePriorToTooLarge u64 u64
  | ZeroLenConnectionID
  | InvalidConnectionIDLen
  | EmptyToken
  | ReliableSizeTooLarge u64 u64
  | UnknownFrameType

type_synonym PacketNumber = int

section \<open>Integers on the wire\<close>

abbreviation i64 :: "u64 \<Rightarrow> int" where "i64 v \<equiv> sint v"
abbreviation w64 :: "int \<Rightarrow> u64" where "w64 i \<equiv> word_of_int i"

definition replaceUnexpectedEOF :: "varint_error \<Rightarrow> wire_error" where
  "replaceUnexpectedEOF e = (case e of VarintIO UnexpectedEOF \<Rightarrow> WIO EOF | VarintIO x \<Rightarrow> WIO x | VarintPanic \<Rightarrow> WPanic)"

text \<open>\<^verbatim>\<open>v, l, err := quicvarint.Parse(b); if err != nil { return replaceUnexpectedEOF(err) }; b = b[l:]\<close>\<close>

definition next_varint :: "bytes \<Rightarrow> wire_error + (u64 \<times> bytes)" where
  "next_varint b = rbind (map_err replaceUnexpectedEOF (varint_Parse b)) (\<lambda>(v, l). Inr (v, drop l b))"

definition put_varint :: "bytes \<Rightarrow> u64 \<Rightarrow> wire_error + bytes" where
  "put_varint b v = rbind (map_err (\<lambda>_. WPanic) (varint_Append v)) (\<lambda>e. Inr (b @ e))"

definition len_varint :: "u64 \<Rightarrow> wire_error + int" where
  "len_varint v = rbind (map_err (\<lambda>_. WPanic) (varint_Len v)) (\<lambda>l. Inr (int l))"

text \<open>The bytes of an encodable integer.\<close>

definition vi :: "u64 \<Rightarrow> bytes" where "vi v = projr (varint_Append v)"

definition vint :: "u64 \<Rightarrow> bool" where "vint v \<longleftrightarrow> uint v < 2 ^ 62"

lemma vi_Append: "vint v \<Longrightarrow> varint_Append v = Inr (vi v)"
  using Append_Inr [of v] unfolding vint_def by (metis vi_def sum.sel(2))

lemma next_varint_vi [codec_simps]: "vint v \<Longrightarrow> next_varint (vi v @ r) = Inr (v, r)"
  using Parse_Append [OF vi_Append] by (simp add: next_varint_def)

lemma next_varint_vi_Nil [codec_simps]: "vint v \<Longrightarrow> next_varint (vi v) = Inr (v, [])"
  using next_varint_vi [of v "[]"] by simp

lemma put_varint_vi [codec_simps]: "vint v \<Longrightarrow> put_varint b v = Inr (b @ vi v)"
  by (simp add: put_varint_def vi_Append)

lemma len_varint_vi [codec_simps]: "vint v \<Longrightarrow> len_varint v = Inr (int (length (vi v)))"
  by (simp add: len_varint_def Len_Append [OF vi_Append])

lemma i64_w64 [simp]: "0 \<le> i \<Longrightarrow> i < 2 ^ 62 \<Longrightarrow> i64 (w64 i) = i"
  by (simp add: sint_uint uint_word_of_int take_bit_int_eq_self signed_take_bit_int_eq_self)

lemma vint_w64 [simp]: "0 \<le> i \<Longrightarrow> i < 2 ^ 62 \<Longrightarrow> vint (w64 i)"
  by (simp add: vint_def uint_word_of_int take_bit_int_eq_self)

lemma i64_vint: "vint v \<Longrightarrow> i64 v = uint v"
  unfolding sint_uint vint_def by (rule signed_take_bit_int_eq_self) (simp_all add: order_trans [OF _ uint_ge_0])

lemma w64_i64 [simp]: "w64 (i64 v) = v"
  by simp

section \<open>The frame\<close>

record AckRange =
  Smallest :: PacketNumber
  Largest :: PacketNumber

definition AckRange_Len :: "AckRange \<Rightarrow> PacketNumber" where
  "AckRange_Len r = Largest r - Smallest r + 1"

record AckFrame =
  AckRanges :: "AckRange list"
  DelayTime :: nanos
  ECT0 :: u64
  ECT1 :: u64
  ECNCE :: u64

definition FrameTypeAck :: u64 where "FrameTypeAck = 0x2"
definition FrameTypeAckECN :: u64 where "FrameTypeAckECN = 0x3"

definition MaxNumAckRanges :: nat where "MaxNumAckRanges = 64"
definition AckDelayExponent :: nat where "AckDelayExponent = 3"

definition AckFrame_Reset :: "AckFrame \<Rightarrow> AckFrame" where
  "AckFrame_Reset f = \<lparr>AckRanges = [], DelayTime = 0, ECT0 = 0, ECT1 = 0, ECNCE = 0\<rparr>"

text \<open>\<^verbatim>\<open>time.Duration(delay*1<<ackDelayExponent) * time.Microsecond\<close>: the shift is one of \<open>uint64\<close>, the product
  one of \<open>int64\<close>; both wrap around.\<close>

definition ack_delay :: "u64 \<Rightarrow> nat \<Rightarrow> nanos" where
  "ack_delay delay ackDelayExponent =
     (let delayTime = wrap64 (i64 (push_bit ackDelayExponent (delay * 1)) * 1000)
      in if delayTime < 0 then 2 ^ 63 - 1 else delayTime)"

fun valid_each :: "AckRange list \<Rightarrow> bool" where
  "valid_each [] = True"
| "valid_each (r # rs) = (if Smallest r > Largest r then False else valid_each rs)"

fun valid_order :: "AckRange list \<Rightarrow> bool" where
  "valid_order (lastAckRange # ackRange # rs) =
     (if Smallest lastAckRange \<le> Smallest ackRange then False
      else if Smallest lastAckRange \<le> Largest ackRange + 1 then False
      else valid_order (ackRange # rs))"
| "valid_order rs = True"

definition validateAckRanges :: "AckFrame \<Rightarrow> bool" where
  "validateAckRanges f = (if AckRanges f = [] then False else valid_each (AckRanges f) \<and> valid_order (AckRanges f))"

text \<open>The loop over the other ranges: \<open>n\<close> to go, below \<open>smallest\<close>.\<close>

fun ack_blocks :: "nat \<Rightarrow> PacketNumber \<Rightarrow> bytes \<Rightarrow> AckRange list \<Rightarrow> wire_error + (AckRange list \<times> bytes)" where
  "ack_blocks 0 smallest b ranges = Inr (ranges, b)"
| "ack_blocks (Suc n) smallest b ranges =
     rbind (next_varint b) (\<lambda>(g, b).
       let gap = i64 g
       in if smallest < gap + 2 then Inl InvalidAckRanges
          else
            (let largest = smallest - gap - 2
             in rbind (next_varint b) (\<lambda>(ab, b).
                  let ackBlock = i64 ab
                  in if ackBlock > largest then Inl InvalidAckRanges
                     else ack_blocks n (largest - ackBlock) b (ranges @ [\<lparr>Smallest = largest - ackBlock, Largest = largest\<rparr>]))))"

definition parse_ecn :: "AckFrame \<Rightarrow> bytes \<Rightarrow> wire_error + (AckFrame \<times> bytes)" where
  "parse_ecn frame b =
     rbind (next_varint b) (\<lambda>(ect0, b).
     rbind (next_varint b) (\<lambda>(ect1, b).
     rbind (next_varint b) (\<lambda>(ecnce, b).
       Inr (frame\<lparr>ECT0 := ect0, ECT1 := ect1, ECNCE := ecnce\<rparr>, b))))"

definition parseAckFrame :: "AckFrame \<Rightarrow> bytes \<Rightarrow> u64 \<Rightarrow> nat \<Rightarrow> wire_error + (AckFrame \<times> nat)" where
  "parseAckFrame frame b0 typ ackDelayExponent =
     rbind (next_varint b0) (\<lambda>(la, b).
     let largestAcked = i64 la
     in rbind (next_varint b) (\<lambda>(delay, b).
        let frame = frame\<lparr>DelayTime := ack_delay delay ackDelayExponent\<rparr>
        in rbind (next_varint b) (\<lambda>(numBlocks, b).
           rbind (next_varint b) (\<lambda>(ab, b).
             let ackBlock = i64 ab
             in if ackBlock > largestAcked then Inl InvalidFirstAckRange
                else
                  (let smallest = largestAcked - ackBlock
                   in rbind (ack_blocks (unat numBlocks) smallest b
                              (AckRanges frame @ [\<lparr>Smallest = smallest, Largest = largestAcked\<rparr>])) (\<lambda>(ranges, b).
                        let frame = frame\<lparr>AckRanges := ranges\<rparr>
                        in if \<not> validateAckRanges frame then Inl InvalidAckRanges
                           else if typ = FrameTypeAckECN then rbind (parse_ecn frame b) (\<lambda>(frame, b). Inr (frame, length b0 - length b))
                           else Inr (frame, length b0 - length b)))))))"

section \<open>Writing the frame\<close>

definition LargestAcked :: "AckFrame \<Rightarrow> wire_error + PacketNumber" where
  "LargestAcked f = (case AckRanges f of [] \<Rightarrow> Inl WPanic | r # _ \<Rightarrow> Inr (Largest r))"

definition LowestAcked :: "AckFrame \<Rightarrow> wire_error + PacketNumber" where
  "LowestAcked f = (if AckRanges f = [] then Inl WPanic else Inr (Smallest (last (AckRanges f))))"

definition encodeAckDelay :: "nanos \<Rightarrow> u64" where
  "encodeAckDelay delay = w64 (godiv delay (1000 * 2 ^ AckDelayExponent))"

definition encodeAckRange :: "AckFrame \<Rightarrow> nat \<Rightarrow> wire_error + (u64 \<times> u64)" where
  "encodeAckRange f i =
     (if length (AckRanges f) \<le> i then Inl WPanic
      else
        (let r = AckRanges f ! i
         in if i = 0 then Inr (0, w64 (Largest r - Smallest r))
            else Inr (w64 (Smallest (AckRanges f ! (i - 1)) - Largest r - 2), w64 (Largest r - Smallest r))))"

definition hasECN :: "AckFrame \<Rightarrow> bool" where
  "hasECN f \<longleftrightarrow> ECT0 f > 0 \<or> ECT1 f > 0 \<or> ECNCE f > 0"

fun put_ranges :: "AckFrame \<Rightarrow> nat list \<Rightarrow> bytes \<Rightarrow> wire_error + bytes" where
  "put_ranges f [] b = Inr b"
| "put_ranges f (i # is) b =
     rbind (encodeAckRange f i) (\<lambda>(gap, len).
     rbind (put_varint b gap) (\<lambda>b.
     rbind (put_varint b len) (\<lambda>b. put_ranges f is b)))"

definition put_ecn :: "AckFrame \<Rightarrow> bytes \<Rightarrow> wire_error + bytes" where
  "put_ecn f b =
     (if hasECN f then
        rbind (put_varint b (ECT0 f)) (\<lambda>b. rbind (put_varint b (ECT1 f)) (\<lambda>b. put_varint b (ECNCE f)))
      else Inr b)"

definition AckFrame_Append :: "AckFrame \<Rightarrow> bytes \<Rightarrow> wire_error + bytes" where
  "AckFrame_Append f b =
     (let b = b @ [ucast (if hasECN f then FrameTypeAckECN else FrameTypeAck)]
      in rbind (LargestAcked f) (\<lambda>largest.
         rbind (put_varint b (w64 largest)) (\<lambda>b.
         rbind (put_varint b (encodeAckDelay (DelayTime f))) (\<lambda>b.
           let numRanges = min (length (AckRanges f)) MaxNumAckRanges
           in rbind (put_varint b (w64 (int numRanges - 1))) (\<lambda>b.
              rbind (encodeAckRange f 0) (\<lambda>(_, firstRange).
              rbind (put_varint b firstRange) (\<lambda>b.
              rbind (put_ranges f [1..<numRanges] b) (\<lambda>b. put_ecn f b))))))))"

fun len_ranges :: "AckFrame \<Rightarrow> nat list \<Rightarrow> int \<Rightarrow> wire_error + int" where
  "len_ranges f [] len0 = Inr len0"
| "len_ranges f (i # is) len0 =
     rbind (encodeAckRange f i) (\<lambda>(gap, len).
     rbind (len_varint gap) (\<lambda>lg.
     rbind (len_varint len) (\<lambda>ll. len_ranges f is (len0 + lg + ll))))"

definition len_ecn :: "AckFrame \<Rightarrow> int \<Rightarrow> wire_error + int" where
  "len_ecn f len0 =
     (if hasECN f then
        rbind (len_varint (ECT0 f)) (\<lambda>l0. rbind (len_varint (ECT1 f)) (\<lambda>l1. rbind (len_varint (ECNCE f)) (\<lambda>l2.
          Inr (len0 + (l0 + l1 + l2)))))
      else Inr len0)"

definition AckFrame_Length :: "AckFrame \<Rightarrow> wire_error + int" where
  "AckFrame_Length f =
     rbind (LargestAcked f) (\<lambda>largestAcked.
     rbind (len_varint (w64 largestAcked)) (\<lambda>l1.
     rbind (len_varint (encodeAckDelay (DelayTime f))) (\<lambda>l2.
     rbind (len_varint (w64 (largestAcked - Smallest (hd (AckRanges f))))) (\<lambda>l3.
     rbind (len_ranges f [1..<min (length (AckRanges f)) MaxNumAckRanges] (1 + l1 + l2 + 1 + l3)) (\<lambda>len0.
       len_ecn f len0)))))"

text \<open>The loop of the slow path; it returns at the first range that does not fit.\<close>

fun fit_ranges :: "AckFrame \<Rightarrow> int \<Rightarrow> nat list \<Rightarrow> int \<Rightarrow> nat \<Rightarrow> wire_error + nat" where
  "fit_ranges f maxSize [] len0 numRanges = Inr numRanges"
| "fit_ranges f maxSize (i # is) len0 numRanges =
     rbind (encodeAckRange f i) (\<lambda>(gap, l).
     rbind (len_varint gap) (\<lambda>lg.
     rbind (len_varint l) (\<lambda>ll.
       let rangeLen = lg + ll
       in if len0 + rangeLen > maxSize then Inr i else fit_ranges f maxSize is (len0 + rangeLen) numRanges)))"

definition numEncodableAckRanges :: "AckFrame \<Rightarrow> int \<Rightarrow> wire_error + nat" where
  "numEncodableAckRanges f maxSize =
     (let worst = 1 + 8 + 8 + 1 + 8 + (if hasECN f then 8 + 8 + 8 else 0);
          numRanges = min (length (AckRanges f)) MaxNumAckRanges;
          worst = worst + 2 * 8 * (int numRanges - 1)
      in if worst \<le> maxSize then Inr numRanges
         else
           rbind (LargestAcked f) (\<lambda>largest.
           rbind (len_varint (w64 largest)) (\<lambda>l1.
           rbind (len_varint (encodeAckDelay (DelayTime f))) (\<lambda>l2.
           rbind (encodeAckRange f 0) (\<lambda>(_, firstRange).
           rbind (len_varint firstRange) (\<lambda>l3.
           rbind (len_ecn f (1 + l1 + l2 + 1 + l3)) (\<lambda>len0.
             fit_ranges f maxSize [1..<numRanges] len0 numRanges)))))))"

definition AckFrame_Truncate :: "AckFrame \<Rightarrow> int \<Rightarrow> wire_error + AckFrame" where
  "AckFrame_Truncate f maxSize =
     rbind (numEncodableAckRanges f maxSize) (\<lambda>n. Inr (f\<lparr>AckRanges := take n (AckRanges f)\<rparr>))"

definition HasMissingRanges :: "AckFrame \<Rightarrow> bool" where
  "HasMissingRanges f = (length (AckRanges f) > 1)"

definition AcksPacket :: "AckFrame \<Rightarrow> PacketNumber \<Rightarrow> wire_error + bool" where
  "AcksPacket f p =
     rbind (LowestAcked f) (\<lambda>lowest. rbind (LargestAcked f) (\<lambda>largest.
       if p < lowest \<or> p > largest then Inr False
       else
         (let i = sort_Search (length (AckRanges f)) (\<lambda>i. p \<ge> Smallest (AckRanges f ! i))
          in if length (AckRanges f) \<le> i then Inl WPanic else Inr (p \<le> Largest (AckRanges f ! i)))))"

section \<open>The ranges\<close>

abbreviation below :: "AckRange \<Rightarrow> AckRange \<Rightarrow> bool" where "below a b \<equiv> Largest b + 1 < Smallest a"

lemma valid_each_iff: "valid_each rs \<longleftrightarrow> (\<forall>r\<in>set rs. Smallest r \<le> Largest r)"
  by (induction rs) auto

lemma valid_order_iff: "valid_each rs \<Longrightarrow> valid_order rs \<longleftrightarrow> sorted_wrt below rs"
proof (induction rs rule: valid_order.induct)
  case (1 a b rs)
  have "below a c" if "below a b" "c \<in> set rs" "sorted_wrt below (b # rs)" for c
  proof -
    have "below b c" "Smallest b \<le> Largest b" using that(2,3) 1(2) by (auto split: if_splits)
    then show ?thesis using that(1) by linarith
  qed
  moreover have "valid_each (b # rs)" "Smallest b \<le> Largest b" using 1(2) by (auto split: if_splits)
  ultimately show ?case using 1(1) by (cases "Smallest a \<le> Smallest b"; cases "Smallest a \<le> Largest b + 1") auto
qed auto

lemma validate_iff:
  "validateAckRanges f \<longleftrightarrow> AckRanges f \<noteq> [] \<and> (\<forall>r\<in>set (AckRanges f). Smallest r \<le> Largest r) \<and> sorted_wrt below (AckRanges f)"
  using valid_order_iff [of "AckRanges f"] by (auto simp: validateAckRanges_def valid_each_iff)

definition acked :: "AckFrame \<Rightarrow> PacketNumber set" where
  "acked f = {p. \<exists>r\<in>set (AckRanges f). Smallest r \<le> p \<and> p \<le> Largest r}"

lemma range_nth:
  assumes "validateAckRanges f" "i < j" "j < length (AckRanges f)"
  shows "Largest (AckRanges f ! j) + 1 < Smallest (AckRanges f ! i)"
  using assms by (auto simp: validate_iff sorted_wrt_iff_nth_less)

lemma range_valid: "validateAckRanges f \<Longrightarrow> j < length (AckRanges f) \<Longrightarrow> Smallest (AckRanges f ! j) \<le> Largest (AckRanges f ! j)"
  by (auto simp: validate_iff)

lemma AcksPacket_exact:
  assumes v: "validateAckRanges f" shows "AcksPacket f p = Inr (p \<in> acked f)"
proof -
  let ?rs = "AckRanges f" and ?n = "length (AckRanges f)"
  let ?P = "\<lambda>i. p \<ge> Smallest (?rs ! i)"
  have ne: "?rs \<noteq> []" "0 < ?n" using v by (auto simp: validate_iff)
  have mono: "?P b" if "a \<le> b" "b < ?n" "?P a" for a b
    using that range_nth [OF v, of a b] range_valid [OF v, of b] by (cases "a = b") auto
  let ?i = "sort_Search ?n ?P"
  have iff: "?P k \<longleftrightarrow> ?i \<le> k" if "k < ?n" for k by (rule sort_Search_iff) (use mono that in blast)+
  have low: "Smallest (?rs ! k) \<ge> Smallest (last ?rs)" "Largest (?rs ! k) \<le> Largest (hd ?rs)" if "k < ?n" for k
    using that range_nth [OF v, of k "?n - 1"] range_nth [OF v, of 0 k] range_valid [OF v, of "?n - 1"] range_valid [OF v, of 0] ne
    by (cases "k = ?n - 1"; cases "k = 0"; force simp: last_conv_nth hd_conv_nth)+
  have hl: "LargestAcked f = Inr (Largest (hd ?rs))" "LowestAcked f = Inr (Smallest (last ?rs))"
    using ne by (auto simp: LargestAcked_def LowestAcked_def split: list.splits)
  show ?thesis
  proof (cases "p < Smallest (last ?rs) \<or> p > Largest (hd ?rs)")
    case True
    then have "p \<notin> acked f" using low by (fastforce simp: acked_def in_set_conv_nth)
    then show ?thesis using True hl by (simp add: AcksPacket_def)
  next
    case False
    then have "?P (?n - 1)" using ne by (simp add: last_conv_nth)
    then have "?i \<le> ?n - 1" using iff [of "?n - 1"] ne by simp
    then have i: "?i < ?n" using ne(2) by linarith
    then have i: "?i < ?n" "?P ?i" using iff [of ?i] by blast+
    have "p \<in> acked f \<longleftrightarrow> p \<le> Largest (?rs ! ?i)"
    proof
      assume "p \<in> acked f"
      then obtain k where k: "k < ?n" "?P k" "p \<le> Largest (?rs ! k)" by (auto simp: acked_def in_set_conv_nth)
      then have "?i \<le> k" using iff [of k] by simp
      then show "p \<le> Largest (?rs ! ?i)" using k range_nth [OF v, of ?i k] i by (cases "k = ?i") auto
    next
      assume "p \<le> Largest (?rs ! ?i)"
      then show "p \<in> acked f" using i nth_mem [OF i(1)] by (auto simp: acked_def)
    qed
    then show ?thesis using False hl i by (simp add: AcksPacket_def Let_def)
  qed
qed

section \<open>Reading back\<close>

definition ack_ok :: "AckFrame \<Rightarrow> bool" where
  "ack_ok f \<longleftrightarrow> validateAckRanges f \<and> (\<forall>r\<in>set (AckRanges f). 0 \<le> Smallest r \<and> Largest r < 2 ^ 62) \<and>
     0 \<le> DelayTime f \<and> DelayTime f < 2 ^ 63 \<and> vint (ECT0 f) \<and> vint (ECT1 f) \<and> vint (ECNCE f)"

text \<open>What arrives: at most 64 ranges, and the delay in units of 8 microseconds.\<close>

definition as_sent :: "AckFrame \<Rightarrow> AckFrame" where
  "as_sent f = f\<lparr>AckRanges := take MaxNumAckRanges (AckRanges f), DelayTime := DelayTime f div 8000 * 8000\<rparr>"

definition gap_at :: "AckFrame \<Rightarrow> nat \<Rightarrow> int" where
  "gap_at f i = Smallest (AckRanges f ! (i - 1)) - Largest (AckRanges f ! i) - 2"

definition width_at :: "AckFrame \<Rightarrow> nat \<Rightarrow> int" where
  "width_at f i = Largest (AckRanges f ! i) - Smallest (AckRanges f ! i)"

definition range_bytes :: "AckFrame \<Rightarrow> nat \<Rightarrow> bytes" where
  "range_bytes f i = vi (w64 (gap_at f i)) @ vi (w64 (width_at f i))"

lemma ack_ok_at:
  assumes "ack_ok f" "i < length (AckRanges f)"
  shows "0 \<le> Smallest (AckRanges f ! i)" "Largest (AckRanges f ! i) < 2 ^ 62" "0 \<le> width_at f i" "width_at f i < 2 ^ 62"
    "0 < i \<Longrightarrow> 0 \<le> gap_at f i" "0 < i \<Longrightarrow> gap_at f i < 2 ^ 62"
proof -
  have v: "validateAckRanges f" and b: "0 \<le> Smallest (AckRanges f ! j) \<and> Largest (AckRanges f ! j) < 2 ^ 62" if "j < length (AckRanges f)" for j
    using assms(1) that by (auto simp: ack_ok_def)
  show "0 \<le> Smallest (AckRanges f ! i)" "Largest (AckRanges f ! i) < 2 ^ 62" using b [OF assms(2)] by simp_all
  show "0 \<le> width_at f i" "width_at f i < 2 ^ 62"
    using b [OF assms(2)] range_valid [OF v, OF assms(2)] assms(2) by (auto simp: width_at_def)
  assume i: "0 < i"
  then have i1: "i - 1 < length (AckRanges f)" using assms(2) by simp
  show "0 \<le> gap_at f i" "gap_at f i < 2 ^ 62"
    using range_nth [OF v [OF assms(2)], of "i - 1" i] b [OF i1] b [OF assms(2)] range_valid [OF v [OF i1] i1]
      range_valid [OF v, OF assms(2,2)] assms(2) i
    by (auto simp: gap_at_def)
qed

lemma encodeAckRange_at:
  "i < length (AckRanges f) \<Longrightarrow> encodeAckRange f i = Inr (if i = 0 then 0 else w64 (gap_at f i), w64 (width_at f i))"
  by (simp add: encodeAckRange_def gap_at_def width_at_def Let_def)

lemma put_ranges_bytes:
  assumes "ack_ok f" shows "(\<And>i. i \<in> set is \<Longrightarrow> 0 < i \<and> i < length (AckRanges f)) \<Longrightarrow> put_ranges f is b = Inr (b @ concat (map (range_bytes f) is))"
proof (induction "is" arbitrary: b)
  case (Cons i "is")
  have i: "0 < i" "i < length (AckRanges f)" using Cons(2) by auto
  show ?case using Cons(1) [OF Cons(2)] i ack_ok_at [OF assms i(2)] by (simp add: encodeAckRange_at codec_simps range_bytes_def del: upt_Suc)
qed simp

lemma len_ranges_bytes:
  assumes "ack_ok f" shows "(\<And>i. i \<in> set is \<Longrightarrow> 0 < i \<and> i < length (AckRanges f)) \<Longrightarrow>
    len_ranges f is n = Inr (n + int (length (concat (map (range_bytes f) is))))"
proof (induction "is" arbitrary: n)
  case (Cons i "is")
  have i: "0 < i" "i < length (AckRanges f)" using Cons(2) by auto
  show ?case using Cons(1) [OF Cons(2)] i ack_ok_at [OF assms i(2)] by (simp add: encodeAckRange_at codec_simps range_bytes_def del: upt_Suc)
qed simp

lemma AckRange_eta [simp]: "\<lparr>Smallest = Smallest r, Largest = Largest r\<rparr> = r"
  by (cases r) simp

lemma ack_blocks_bytes:
  assumes "ack_ok f" "0 < i" "i \<le> n" "n \<le> length (AckRanges f)"
  shows "ack_blocks (n - i) (Smallest (AckRanges f ! (i - 1))) (concat (map (range_bytes f) [i..<n]) @ r) acc =
     Inr (acc @ map (nth (AckRanges f)) [i..<n], r)"
  using assms(2,3)
proof (induction "n - i" arbitrary: i acc)
  case (Suc k)
  have i: "i < n" "n - i = Suc (n - Suc i)" "[i..<n] = i # [Suc i..<n]" using Suc by (auto simp: upt_conv_Cons)
  note at = ack_ok_at [OF assms(1), of i]
  have g: "\<not> Smallest (AckRanges f ! (i - 1)) < gap_at f i + 2"
    "Smallest (AckRanges f ! (i - 1)) - gap_at f i - 2 = Largest (AckRanges f ! i)"
    "Largest (AckRanges f ! i) - width_at f i = Smallest (AckRanges f ! i)" "\<not> Largest (AckRanges f ! i) < width_at f i"
    using at Suc(3) i(1) assms(4) by (auto simp: gap_at_def width_at_def)
  have "ack_blocks (n - Suc i) (Smallest (AckRanges f ! i)) (concat (map (range_bytes f) [Suc i..<n]) @ r) (acc @ [AckRanges f ! i]) =
      Inr ((acc @ [AckRanges f ! i]) @ map (nth (AckRanges f)) [Suc i..<n], r)"
    using Suc(1) [of "Suc i" "acc @ [AckRanges f ! i]"] Suc(2) i by simp
  then show ?case
    using at Suc(3) i assms(4) g by (simp add: range_bytes_def codec_simps Let_def)
qed simp

definition ecn_bytes :: "AckFrame \<Rightarrow> bytes" where
  "ecn_bytes f = (if hasECN f then vi (ECT0 f) @ vi (ECT1 f) @ vi (ECNCE f) else [])"

definition ack_head :: "AckFrame \<Rightarrow> bytes" where
  "ack_head f = vi (w64 (Largest (hd (AckRanges f)))) @ vi (encodeAckDelay (DelayTime f))"

text \<open>The frame without its type, with its first \<open>n\<close> ranges.\<close>

definition ack_bytes :: "AckFrame \<Rightarrow> nat \<Rightarrow> bytes" where
  "ack_bytes f n = ack_head f @ vi (w64 (int n - 1)) @ vi (w64 (width_at f 0)) @ concat (map (range_bytes f) [1..<n]) @ ecn_bytes f"

abbreviation ranges_sent :: "AckFrame \<Rightarrow> nat" where
  "ranges_sent f \<equiv> min (length (AckRanges f)) MaxNumAckRanges"

definition ack_type :: "AckFrame \<Rightarrow> u64" where
  "ack_type f = (if hasECN f then FrameTypeAckECN else FrameTypeAck)"

lemma length_vi_small: "uint v < 64 \<Longrightarrow> length (vi v) = 1"
  by (simp add: vi_def varint_Append_def le_maxVarInt)

lemma ack_delay_vint: "0 \<le> d \<Longrightarrow> d < 2 ^ 63 \<Longrightarrow> vint (encodeAckDelay d)"
  by (simp add: encodeAckDelay_def AckDelayExponent_def)

lemma ack_delay_back:
  assumes "0 \<le> d" "d < 2 ^ 63" shows "ack_delay (encodeAckDelay d) AckDelayExponent = d div 8000 * 8000"
proof -
  let ?q = "d div 8000"
  have q: "0 \<le> ?q" "?q * 8000 \<le> d" using assms by auto
  have "push_bit 3 (w64 ?q) = w64 (?q * 8)" by (simp add: push_bit_eq_mult wi_hom_mult [symmetric])
  moreover have "i64 (w64 (?q * 8)) = ?q * 8" using q assms by (intro i64_w64) auto
  moreover have "wrap64 (?q * 8 * 1000) = ?q * 8000" using q assms by (subst wrap64_id) auto
  ultimately show ?thesis using assms q by (simp add: ack_delay_def encodeAckDelay_def AckDelayExponent_def Let_def)
qed

lemma uint_count: "0 < n \<Longrightarrow> n \<le> MaxNumAckRanges \<Longrightarrow> uint (w64 (int n - 1)) = int n - 1"
  unfolding uint_word_of_int by (rule mod_pos_pos_trivial) (auto simp: MaxNumAckRanges_def)

lemma ack_first:
  assumes "ack_ok f"
  obtains rs where "AckRanges f = hd (AckRanges f) # rs" "0 < length (AckRanges f)" "0 < ranges_sent f" "ranges_sent f \<le> length (AckRanges f)"
    "0 \<le> Largest (hd (AckRanges f))" "Largest (hd (AckRanges f)) < 2 ^ 62" "hd (AckRanges f) = AckRanges f ! 0"
    "Largest (hd (AckRanges f)) - width_at f 0 = Smallest (hd (AckRanges f))" "vint (encodeAckDelay (DelayTime f))"
proof -
  have "AckRanges f \<noteq> []" using assms by (auto simp: ack_ok_def validate_iff)
  moreover have "AckRanges f = AckRanges f ! 0 # tl (AckRanges f)" using calculation by (cases "AckRanges f") auto
  moreover have "Smallest (AckRanges f ! 0) \<le> Largest (AckRanges f ! 0)"
    using assms calculation by (intro range_valid) (auto simp: ack_ok_def)
  ultimately show thesis
    using that [of "tl (AckRanges f)"] ack_ok_at [OF assms, of 0] assms
    by (auto simp: hd_conv_nth width_at_def MaxNumAckRanges_def ack_delay_vint ack_ok_def)
qed

lemma Append_ack_bytes:
  assumes "ack_ok f" shows "AckFrame_Append f b = Inr (b @ ucast (ack_type f) # ack_bytes f (ranges_sent f))"
proof -
  let ?n = "ranges_sent f"
  obtain rs where rs: "AckRanges f = hd (AckRanges f) # rs" "0 < length (AckRanges f)" "0 < ?n" "?n \<le> length (AckRanges f)"
    "0 \<le> Largest (hd (AckRanges f))" "Largest (hd (AckRanges f)) < 2 ^ 62" "vint (encodeAckDelay (DelayTime f))"
    by (rule ack_first [OF assms])
  have r: "put_ranges f [1..<?n] b = Inr (b @ concat (map (range_bytes f) [1..<?n]))" for b
    by (rule put_ranges_bytes [OF assms]) (use rs in auto)
  have e: "put_ecn f b = Inr (b @ ecn_bytes f)" for b
    using assms by (simp add: put_ecn_def ecn_bytes_def ack_ok_def codec_simps)
  have n: "vint (w64 (int ?n - 1))" using rs(3) by (intro vint_w64) (auto simp: MaxNumAckRanges_def)
  have L: "LargestAcked f = Inr (Largest (hd (AckRanges f)))" by (subst LargestAcked_def, subst rs(1)) simp
  have E: "encodeAckRange f 0 = Inr (0, w64 (width_at f 0))" using rs(2) by (simp add: encodeAckRange_at)
  have w: "vint (w64 (width_at f 0))" using ack_ok_at [OF assms rs(2)] by simp
  show ?thesis
    using rs n w by (simp add: AckFrame_Append_def L E r [unfolded One_nat_def] e codec_simps Let_def ack_bytes_def ack_head_def ack_type_def)
qed

lemma Length_ack_bytes:
  assumes "ack_ok f" shows "AckFrame_Length f = Inr (1 + int (length (ack_bytes f (ranges_sent f))))"
proof -
  let ?n = "ranges_sent f"
  obtain rs where rs: "AckRanges f = hd (AckRanges f) # rs" "0 < length (AckRanges f)" "0 < ?n" "?n \<le> length (AckRanges f)"
    "0 \<le> Largest (hd (AckRanges f))" "Largest (hd (AckRanges f)) < 2 ^ 62" "hd (AckRanges f) = AckRanges f ! 0"
    "vint (encodeAckDelay (DelayTime f))"
    by (rule ack_first [OF assms])
  have r: "len_ranges f [1..<?n] m = Inr (m + int (length (concat (map (range_bytes f) [1..<?n]))))" for m
    by (rule len_ranges_bytes [OF assms]) (use rs in auto)
  have e: "len_ecn f m = Inr (m + int (length (ecn_bytes f)))" for m
    using assms by (simp add: len_ecn_def ecn_bytes_def ack_ok_def codec_simps)
  have n: "length (vi (w64 (int ?n - 1))) = 1"
    by (rule length_vi_small, subst uint_count) (use rs(3) in \<open>auto simp: MaxNumAckRanges_def\<close>)
  have L: "LargestAcked f = Inr (Largest (hd (AckRanges f)))" by (subst LargestAcked_def, subst rs(1)) simp
  have W: "Largest (hd (AckRanges f)) - Smallest (hd (AckRanges f)) = width_at f 0" by (simp add: width_at_def rs(7))
  have w: "vint (w64 (width_at f 0))" using ack_ok_at [OF assms rs(2)] by simp
  show ?thesis
    using rs(5,6,8) n w
    by (simp add: AckFrame_Length_def L W r [unfolded One_nat_def] e codec_simps ack_bytes_def ack_head_def del: of_int_diff)
qed

lemma parse_ack_bytes:
  assumes "ack_ok f"
  shows "parseAckFrame (AckFrame_Reset g) (ack_bytes f (ranges_sent f) @ r) (ack_type f) AckDelayExponent =
     Inr (as_sent f, length (ack_bytes f (ranges_sent f)))"
proof -
  let ?n = "ranges_sent f" and ?h = "hd (AckRanges f)"
  obtain rs where rs: "AckRanges f = ?h # rs" "0 < length (AckRanges f)" "0 < ?n" "?n \<le> length (AckRanges f)"
    "0 \<le> Largest ?h" "Largest ?h < 2 ^ 62" "?h = AckRanges f ! 0" "Largest ?h - width_at f 0 = Smallest ?h"
    "vint (encodeAckDelay (DelayTime f))"
    by (rule ack_first [OF assms])
  note w = ack_ok_at [OF assms rs(2)]
  let ?frame = "(AckFrame_Reset g)\<lparr>DelayTime := DelayTime f div 8000 * 8000, AckRanges := take ?n (AckRanges f)\<rparr>"
  have c: "uint (w64 (int ?n - 1)) = int ?n - 1" by (rule uint_count) (use rs(3) in auto)
  have n: "vint (w64 (int ?n - 1))" "unat (w64 (int ?n - 1)) = ?n - 1"
    unfolding vint_def unat_eq_nat_uint c using rs(3) by (auto simp: MaxNumAckRanges_def)
  have tk: "map (nth (AckRanges f)) [0..<?n] = take ?n (AckRanges f)"
    by (rule nth_equalityI) auto
  have "[0..<?n] = 0 # [1..<?n]" using rs(3) by (simp add: upt_conv_Cons)
  then have split: "?h # map (nth (AckRanges f)) [1..<?n] = take ?n (AckRanges f)" unfolding rs(7) tk [symmetric] by simp
  have bl: "ack_blocks (?n - 1) (Smallest ?h) (concat (map (range_bytes f) [1..<?n]) @ r') [?h] = Inr (take ?n (AckRanges f), r')" for r'
    using ack_blocks_bytes [OF assms, of 1 ?n r' "[?h]"] rs split by simp
  have d: "ack_delay (encodeAckDelay (DelayTime f)) AckDelayExponent = DelayTime f div 8000 * 8000"
    using assms by (intro ack_delay_back) (auto simp: ack_ok_def)
  have v: "validateAckRanges ?frame"
    using assms rs(3) by (auto simp: ack_ok_def validate_iff sorted_wrt_take dest: in_set_takeD)
  have as: "?frame\<lparr>ECT0 := ECT0 f, ECT1 := ECT1 f, ECNCE := ECNCE f\<rparr> = as_sent f"
    by (simp add: as_sent_def min_def AckFrame_Reset_def)
  have ec: "parse_ecn ?frame (vi (ECT0 f) @ vi (ECT1 f) @ vi (ECNCE f) @ r) = Inr (as_sent f, r)"
    using assms unfolding parse_ecn_def by (simp add: ack_ok_def codec_simps as)
  have ne: "as_sent f = ?frame" if "\<not> hasECN f" unfolding as [symmetric] using that by (simp add: hasECN_def AckFrame_Reset_def word_gt_0)
  have h: "\<lparr>Smallest = Largest ?h - width_at f 0, Largest = Largest ?h\<rparr> = ?h" using rs(8) by simp
  define r4 where "r4 = concat (map (range_bytes f) [1..<?n]) @ ecn_bytes f @ r"
  define r3 where "r3 = vi (w64 (width_at f 0)) @ r4"
  define r2 where "r2 = vi (w64 (int ?n - 1)) @ r3"
  define r1 where "r1 = vi (encodeAckDelay (DelayTime f)) @ r2"
  have nv: "next_varint (ack_bytes f ?n @ r) = Inr (w64 (Largest ?h), r1)" "next_varint r1 = Inr (encodeAckDelay (DelayTime f), r2)"
    "next_varint r2 = Inr (w64 (int ?n - 1), r3)" "next_varint r3 = Inr (w64 (width_at f 0), r4)"
    using next_varint_vi [OF rs(9)] next_varint_vi [OF n(1)] next_varint_vi [OF vint_w64 [OF w(3,4)]] next_varint_vi [OF vint_w64 [OF rs(5,6)]]
    unfolding r1_def r2_def r3_def r4_def ack_bytes_def ack_head_def append_assoc by blast+
  have i: "i64 (w64 (Largest ?h)) = Largest ?h" "i64 (w64 (width_at f 0)) = width_at f 0" "\<not> width_at f 0 > Largest ?h"
    using i64_w64 [OF rs(5,6)] i64_w64 [OF w(3,4)] rs(8) w(1) rs(7) by auto
  have z: "AckRanges ((AckFrame_Reset g)\<lparr>DelayTime := d\<rparr>) @ [x] = [x]" for d x
    by (simp add: AckFrame_Reset_def)
  have l: "length (ack_bytes f ?n @ r) - length r = length (ack_bytes f ?n)" by simp
  show ?thesis
  proof (cases "hasECN f")
    case True
    then have e: "ack_type f = FrameTypeAckECN" "ecn_bytes f @ r = vi (ECT0 f) @ vi (ECT1 f) @ vi (ECNCE f) @ r"
      by (simp_all add: ack_type_def ecn_bytes_def)
    show ?thesis
      unfolding parseAckFrame_def nv rbind_simps prod.case Let_def d i if_not_P [OF i(3)] z n(2) h rs(8) AckRange_eta
      unfolding r4_def bl rbind_simps prod.case
      using v ec e(1) l unfolding e(2) by simp
  next
    case False
    then have e: "ack_type f \<noteq> FrameTypeAckECN" "ecn_bytes f = []"
      by (simp_all add: ack_type_def ecn_bytes_def FrameTypeAck_def FrameTypeAckECN_def)
    show ?thesis
      unfolding parseAckFrame_def nv rbind_simps prod.case Let_def d i if_not_P [OF i(3)] z n(2) h rs(8) AckRange_eta
      unfolding r4_def bl rbind_simps prod.case
      using v e(1) l ne [OF False] unfolding e(2) by simp
  qed
qed

section \<open>Truncation\<close>

lemma fit_ranges_bytes:
  assumes "ack_ok f" "0 < i" "i \<le> m" "m \<le> length (AckRanges f)"
  shows "\<exists>n. fit_ranges f mx [i..<m] len0 m = Inr n \<and> i \<le> n \<and> n \<le> m \<and>
     (len0 \<le> mx \<longrightarrow> len0 + int (length (concat (map (range_bytes f) [i..<n]))) \<le> mx) \<and>
     (n < m \<longrightarrow> len0 + int (length (concat (map (range_bytes f) [i..<Suc n]))) > mx)"
  using assms(2,3)
proof (induction "m - i" arbitrary: i len0)
  case (Suc k)
  have i: "i < m" "[i..<m] = i # [Suc i..<m]" using Suc by (auto simp: upt_conv_Cons)
  note at = ack_ok_at [OF assms(1), of i]
  let ?l = "int (length (range_bytes f i))"
  have st: "fit_ranges f mx [i..<m] len0 m = (if len0 + ?l > mx then Inr i else fit_ranges f mx [Suc i..<m] (len0 + ?l) m)"
    using at Suc(3) i assms(4) by (simp add: encodeAckRange_at codec_simps range_bytes_def Let_def)
  show ?case
  proof (cases "len0 + ?l > mx")
    case True
    then show ?thesis using st i by (intro exI [of _ i]) simp
  next
    case False
    obtain n where n: "fit_ranges f mx [Suc i..<m] (len0 + ?l) m = Inr n" "Suc i \<le> n" "n \<le> m"
      "len0 + ?l \<le> mx \<longrightarrow> len0 + ?l + int (length (concat (map (range_bytes f) [Suc i..<n]))) \<le> mx"
      "n < m \<longrightarrow> len0 + ?l + int (length (concat (map (range_bytes f) [Suc i..<Suc n]))) > mx"
    proof -
      have "k = m - Suc i" "0 < Suc i" "Suc i \<le> m" using Suc(2) i(1) by auto
      from Suc(1) [OF this, of "len0 + ?l"] show ?thesis using that by blast
    qed
    have "[i..<n] = i # [Suc i..<n]" "[i..<Suc n] = i # [Suc i..<Suc n]" using n(2) by (simp_all add: upt_conv_Cons del: upt_Suc)
    then show ?thesis using n st False by (intro exI [of _ n]) (simp add: algebra_simps del: upt_Suc)
  qed
qed simp

text \<open>The length of the frame with its first \<open>n\<close> ranges.\<close>

definition ack_length :: "AckFrame \<Rightarrow> nat \<Rightarrow> int" where
  "ack_length f n = 1 + int (length (ack_bytes f n))"

lemma ack_length_eq:
  assumes "ack_ok f" "0 < n" "n \<le> MaxNumAckRanges"
  shows "ack_length f n = 1 + int (length (vi (w64 (Largest (hd (AckRanges f)))))) + int (length (vi (encodeAckDelay (DelayTime f)))) + 1 +
    int (length (vi (w64 (width_at f 0)))) + int (length (ecn_bytes f)) + int (length (concat (map (range_bytes f) [1..<n])))"
proof -
  have "length (vi (w64 (int n - 1))) = 1"
    by (rule length_vi_small, subst uint_count) (use assms(2,3) in \<open>auto simp: MaxNumAckRanges_def\<close>)
  then show ?thesis by (simp add: ack_length_def ack_bytes_def ack_head_def del: of_int_diff)
qed

lemma length_vi_le: "length (vi v) \<le> 8" if "vint v"
  using that by (simp add: vint_def vi_def varint_Append_def le_maxVarInt)

lemma ack_length_worst:
  assumes "ack_ok f" "0 < n" "n \<le> ranges_sent f"
  shows "ack_length f n \<le> 26 + (if hasECN f then 24 else 0) + 16 * (int n - 1)"
proof -
  obtain rs where rs: "0 < length (AckRanges f)" "0 \<le> Largest (hd (AckRanges f))" "Largest (hd (AckRanges f)) < 2 ^ 62"
    "vint (encodeAckDelay (DelayTime f))"
    by (rule ack_first [OF assms(1)])
  have each: "length (range_bytes f i) \<le> 16" if "i \<in> set [1..<n]" for i
    using length_vi_le [of "w64 (gap_at f i)"] length_vi_le [of "w64 (width_at f i)"] ack_ok_at [OF assms(1), of i] that assms(3)
    by (simp add: range_bytes_def)
  have "length (concat (map (range_bytes f) is)) \<le> 16 * length is" if "\<And>i. i \<in> set is \<Longrightarrow> length (range_bytes f i) \<le> 16" for "is"
    using that by (induction "is") force+
  from this [of "[1..<n]", OF each] have "length (concat (map (range_bytes f) [1..<n])) \<le> 16 * (n - 1)" by simp
  moreover have "length (ecn_bytes f) \<le> (if hasECN f then 24 else 0)"
    using assms(1) length_vi_le [of "ECT0 f"] length_vi_le [of "ECT1 f"] length_vi_le [of "ECNCE f"]
    by (simp add: ecn_bytes_def ack_ok_def)
  moreover have "length (vi (w64 (Largest (hd (AckRanges f))))) \<le> 8" "length (vi (w64 (width_at f 0))) \<le> 8"
    "length (vi (encodeAckDelay (DelayTime f))) \<le> 8"
    using rs ack_ok_at [OF assms(1), of 0] by (auto intro!: length_vi_le)
  ultimately show ?thesis using ack_length_eq [OF assms(1,2)] assms by (auto split: if_splits)
qed

lemma Truncate_exact:
  assumes "ack_ok f" "ack_length f 1 \<le> mx"
  shows "\<exists>n. AckFrame_Truncate f mx = Inr (f\<lparr>AckRanges := take n (AckRanges f)\<rparr>) \<and> 0 < n \<and> n \<le> ranges_sent f \<and>
     ack_length f n \<le> mx \<and> (n < ranges_sent f \<longrightarrow> mx < ack_length f (Suc n))"
proof -
  let ?m = "ranges_sent f"
  obtain rs where rs: "AckRanges f = hd (AckRanges f) # rs" "0 < length (AckRanges f)" "0 < ?m" "?m \<le> length (AckRanges f)"
    "0 \<le> Largest (hd (AckRanges f))" "Largest (hd (AckRanges f)) < 2 ^ 62" "vint (encodeAckDelay (DelayTime f))"
    by (rule ack_first [OF assms(1)])
  have m: "?m \<le> MaxNumAckRanges" by simp
  have "\<exists>n. numEncodableAckRanges f mx = Inr n \<and> 0 < n \<and> n \<le> ?m \<and> ack_length f n \<le> mx \<and> (n < ?m \<longrightarrow> mx < ack_length f (Suc n))"
  proof (cases "26 + (if hasECN f then 24 else 0) + 16 * (int ?m - 1) \<le> mx")
    case True
    then have "numEncodableAckRanges f mx = Inr ?m" by (auto simp: numEncodableAckRanges_def Let_def)
    then show ?thesis using ack_length_worst [OF assms(1) rs(3) order_refl] True rs(3) by auto
  next
    case False
    have L: "LargestAcked f = Inr (Largest (hd (AckRanges f)))" by (subst LargestAcked_def, subst rs(1)) simp
    have E: "encodeAckRange f 0 = Inr (0, w64 (width_at f 0))" using rs(2) by (simp add: encodeAckRange_at)
    have w: "vint (w64 (width_at f 0))" using ack_ok_at [OF assms(1) rs(2)] by simp
    have e: "len_ecn f k = Inr (k + int (length (ecn_bytes f)))" for k
      using assms by (simp add: len_ecn_def ecn_bytes_def ack_ok_def codec_simps)
    have nE: "numEncodableAckRanges f mx = fit_ranges f mx [1..<?m] (ack_length f 1) ?m"
      using False rs w ack_length_eq [OF assms(1), of 1] m
      by (auto simp: numEncodableAckRanges_def Let_def L E e codec_simps algebra_simps simp del: of_int_diff)
    obtain n where n: "fit_ranges f mx [1..<?m] (ack_length f 1) ?m = Inr n" "1 \<le> n" "n \<le> ?m"
      "ack_length f 1 + int (length (concat (map (range_bytes f) [1..<n]))) \<le> mx"
      "n < ?m \<longrightarrow> ack_length f 1 + int (length (concat (map (range_bytes f) [1..<Suc n]))) > mx"
    proof -
      have "0 < (1 :: nat)" "1 \<le> ?m" using rs(3) by linarith+
      from fit_ranges_bytes [OF assms(1) this rs(4), of mx "ack_length f 1"] show ?thesis using that assms(2) by blast
    qed
    have al: "ack_length f k = ack_length f 1 + int (length (concat (map (range_bytes f) [1..<k])))" if "0 < k" "k \<le> ?m" for k
      using ack_length_eq [OF assms(1), of k] ack_length_eq [OF assms(1), of 1] that m by simp
    have "0 < n" using n(2) by simp
    moreover have "ack_length f n \<le> mx" using al [OF \<open>0 < n\<close> n(3)] n(4) by linarith
    moreover have "mx < ack_length f (Suc n)" if "n < ?m" using al [of "Suc n"] n(5) that by linarith
    moreover have "numEncodableAckRanges f mx = Inr n" using nE n(1) by simp
    ultimately show ?thesis using n(3) by blast
  qed
  then show ?thesis by (auto simp: AckFrame_Truncate_def)
qed

section \<open>Properties\<close>

text \<open>C23: An acknowledgement survives the wire. For every frame with valid ranges and encodable numbers the writer produces exactly
  as many bytes as \<open>Length\<close> announces, and the parser, whatever follows, consumes exactly these and returns the
  first 64 ranges, the ECN counts and the delay rounded down to a multiple of 8 microseconds.\<close>

theorem quic_ack_roundtrip:
  assumes "ack_ok f"
  shows "\<exists>bs. AckFrame_Append f b = Inr (b @ ucast (ack_type f) # bs) \<and> AckFrame_Length f = Inr (1 + int (length bs)) \<and>
     parseAckFrame (AckFrame_Reset g) (bs @ r) (ack_type f) AckDelayExponent = Inr (as_sent f, length bs)"
  using Append_ack_bytes [OF assms] Length_ack_bytes [OF assms] parse_ack_bytes [OF assms] by blast

definition two_ranges :: AckFrame where
  "two_ranges = \<lparr>AckRanges = [\<lparr>Smallest = 900, Largest = 1000\<rparr>, \<lparr>Smallest = 5, Largest = 70\<rparr>], DelayTime = 25000, ECT0 = 0, ECT1 = 0, ECNCE = 1\<rparr>"

lemma two_ranges_ok: "ack_ok two_ranges"
  by (simp add: ack_ok_def two_ranges_def validateAckRanges_def vint_def)

theorem quic_ack_roundtrip_witness:
  "\<exists>bs. AckFrame_Append two_ranges [] = Inr ([] @ ucast (ack_type two_ranges) # bs) \<and>
     AckFrame_Length two_ranges = Inr (1 + int (length bs)) \<and>
     parseAckFrame (AckFrame_Reset two_ranges) (bs @ [1, 2]) (ack_type two_ranges) AckDelayExponent = Inr (as_sent two_ranges, length bs)"
  by (rule quic_ack_roundtrip [OF two_ranges_ok])

text \<open>C24: The binary search decides exactly whether a packet number is in one of the ranges, and shortening a frame to a size that
  its first range fits in keeps the longest prefix of the ranges, at most 64, whose encoding fits; the shortcut that assumes
  8 bytes per number never keeps too many.\<close>

theorem quic_ack_ranges:
  assumes "ack_ok f" "ack_length f 1 \<le> maxSize"
  shows "AcksPacket f p = Inr (p \<in> acked f) \<and>
     (\<exists>n. AckFrame_Truncate f maxSize = Inr (f\<lparr>AckRanges := take n (AckRanges f)\<rparr>) \<and> 0 < n \<and> n \<le> ranges_sent f \<and>
        ack_length f n \<le> maxSize \<and> (n < ranges_sent f \<longrightarrow> maxSize < ack_length f (Suc n)))"
  using AcksPacket_exact Truncate_exact [OF assms] assms(1) by (simp add: ack_ok_def)

lemma two_ranges_first: "ack_length two_ranges 1 \<le> 12"
  by code_simp

theorem quic_ack_ranges_witness:
  "AcksPacket two_ranges 66 = Inr (66 \<in> acked two_ranges) \<and>
     (\<exists>n. AckFrame_Truncate two_ranges 12 = Inr (two_ranges\<lparr>AckRanges := take n (AckRanges two_ranges)\<rparr>) \<and> 0 < n \<and> n \<le> ranges_sent two_ranges \<and>
        ack_length two_ranges n \<le> 12 \<and> (n < ranges_sent two_ranges \<longrightarrow> 12 < ack_length two_ranges (Suc n)))"
  by (rule quic_ack_ranges [OF two_ranges_ok two_ranges_first])

text \<open>The check for a negative delay does not notice every overflow.\<close>

lemma ack_delay_overflow: "ack_delay 0x2000000000000000 AckDelayExponent = 0"
  by (simp add: ack_delay_def AckDelayExponent_def wrap64_def)

end
