(* ===== verification/FrameSorter.thy ===== *)
theory FrameSorter
  imports GoBytes "HOL-Library.AList" "HOL-Library.Multiset"
begin

text \<open>
  The reassembly of stream data, \<^verbatim>\<open>quicfork/frame_sorter.go\<close>. Frames arrive in any order, overlap and
  repeat; \<open>Push\<close> stores what is new and \<open>Pop\<close> hands out the stream from its start. Offsets are
  \<open>protocol.ByteCount\<close>, an \<open>int64\<close> whose values stay below \<open>MaxByteCount = 2 ^ 62 - 1\<close>, so they are HOL integers.
  The Go map of queued frames is an association list. The linked list of gaps is a HOL list; while
  \<open>push\<close> runs, its elements carry the position they had at the start of the call, which stands for the
  pointer the code keeps. A callback is an abstract value, and the calls made are returned in order. \<open>None\<close> is a panic,
  a nil dereference or a slice bound outside of the data.
\<close>

type_synonym ByteCount = int

definition MaxByteCount :: ByteCount where "MaxByteCount = 2 ^ 62 - 1"
definition MaxStreamFrameSorterGaps :: nat where "MaxStreamFrameSorterGaps = 1000"
definition MinStreamFrameBufferSize :: nat where "MinStreamFrameBufferSize = 128"

record byteInterval =
  ivStart :: ByteCount
  ivEnd :: ByteCount

record 'cb frameSorterEntry =
  eData :: bytes
  eDoneCb :: "'cb option"

type_synonym 'cb fqueue = "(ByteCount \<times> 'cb frameSorterEntry) list"

record 'cb frameSorter =
  queue :: "'cb fqueue"
  readPos :: ByteCount
  gaps :: "byteInterval list"

datatype sorter_error = DuplicateStreamData | TooManyGaps

definition newFrameSorter :: "'cb frameSorter" where
  "newFrameSorter = \<lparr>queue = [], readPos = 0, gaps = [\<lparr>ivStart = 0, ivEnd = MaxByteCount\<rparr>]\<rparr>"

section \<open>The search for the gaps\<close>

fun findStartGap :: "nat \<Rightarrow> byteInterval list \<Rightarrow> ByteCount \<Rightarrow> (nat \<times> bool) option" where
  "findStartGap k [] offset = None"
| "findStartGap k (gap # rest) offset =
     (if offset \<ge> ivStart gap \<and> offset \<le> ivEnd gap then Some (k, True)
      else if offset < ivStart gap then Some (k, False)
      else findStartGap (Suc k) rest offset)"

text \<open>The search starts at the start gap, number \<open>k\<close>. \<open>gap.Prev()\<close> of the first gap is nil.\<close>

fun findEndGap :: "nat \<Rightarrow> byteInterval list \<Rightarrow> ByteCount \<Rightarrow> (nat option \<times> bool) option" where
  "findEndGap k [] offset = None"
| "findEndGap k (gap # rest) offset =
     (if offset \<ge> ivStart gap \<and> offset < ivEnd gap then Some (Some k, True)
      else if offset < ivStart gap then Some (case k of 0 \<Rightarrow> None | Suc j \<Rightarrow> Some j, False)
      else findEndGap (Suc k) rest offset)"

section \<open>Removing queued frames\<close>

abbreviation cb_list :: "'cb option \<Rightarrow> 'cb list" where
  "cb_list c \<equiv> (case c of None \<Rightarrow> [] | Some f \<Rightarrow> [f])"

lemma length_delete_less: "map_of q k \<noteq> None \<Longrightarrow> length (AList.delete k q) < length q"
  by (induction q) (auto simp: AList.length_delete_le le_imp_less_Suc split: if_splits)

function deleteConsecutive :: "ByteCount \<Rightarrow> 'cb fqueue \<Rightarrow> 'cb fqueue \<times> 'cb list" where
  "deleteConsecutive pos q =
     (case map_of q pos of
        None \<Rightarrow> (q, [])
      | Some oldEntry \<Rightarrow>
          (let (q', calls) = deleteConsecutive (pos + int (length (eData oldEntry))) (AList.delete pos q)
           in (q', cb_list (eDoneCb oldEntry) @ calls)))"
  by pat_completeness auto
termination
  by (relation "measure (\<lambda>(pos, q). length q)") (auto intro: length_delete_less)

declare deleteConsecutive.simps [simp del]

text \<open>The loop that replaces shorter frames: it returns because the data is a duplicate, because the new frame has
  to be cut at \<open>pos\<close>, or because no frame starts at \<open>pos\<close>.\<close>

datatype 'cb replaced =
  RDuplicate
| RCut "'cb fqueue" ByteCount "'cb list"
| RDone "'cb fqueue" ByteCount bool "'cb list"

fun called_first :: "'cb list \<Rightarrow> 'cb replaced \<Rightarrow> 'cb replaced" where
  "called_first cs RDuplicate = RDuplicate"
| "called_first cs (RCut q pos calls) = RCut q pos (cs @ calls)"
| "called_first cs (RDone q pos has calls) = RDone q pos has (cs @ calls)"

function replace_loop :: "ByteCount \<Rightarrow> 'cb fqueue \<Rightarrow> ByteCount \<Rightarrow> bool \<Rightarrow> 'cb replaced" where
  "replace_loop end q pos hasReplacedAtLeastOne =
     (case map_of q pos of
        None \<Rightarrow> RDone q pos hasReplacedAtLeastOne []
      | Some oldEntry \<Rightarrow>
          (let oldEntryLen = int (length (eData oldEntry))
           in if end - pos > oldEntryLen \<or> (hasReplacedAtLeastOne \<and> end - pos = oldEntryLen) then
                called_first (cb_list (eDoneCb oldEntry))
                  (replace_loop end (AList.delete pos q) (pos + oldEntryLen) True)
              else if \<not> hasReplacedAtLeastOne then RDuplicate
              else RCut q pos []))"
  by pat_completeness auto
termination
  by (relation "measure (\<lambda>(end, q, pos, has). length q)") (auto intro: length_delete_less)

declare replace_loop.simps [simp del]

section \<open>The list of gaps during a push\<close>

type_synonym elements = "(nat \<times> byteInterval) list"

definition el_update :: "nat \<Rightarrow> (byteInterval \<Rightarrow> byteInterval) \<Rightarrow> elements \<Rightarrow> elements" where
  "el_update k f els = map (\<lambda>(i, g). (i, if i = k then f g else g)) els"

definition el_remove :: "nat \<Rightarrow> elements \<Rightarrow> elements" where
  "el_remove k els = filter (\<lambda>(i, g). i \<noteq> k) els"

fun el_insertAfter :: "nat \<times> byteInterval \<Rightarrow> nat \<Rightarrow> elements \<Rightarrow> elements" where
  "el_insertAfter e k [] = []"
| "el_insertAfter e k ((i, g) # els) = (if i = k then (i, g) # e # els else (i, g) # el_insertAfter e k els)"

text \<open>The loop over the gaps after the start gap, which follow it in the list.\<close>

fun gap_loop :: "ByteCount \<Rightarrow> elements \<Rightarrow> elements \<Rightarrow> 'cb fqueue \<Rightarrow> (elements \<times> 'cb fqueue \<times> 'cb list) option" where
  "gap_loop endGapStart [] els q = None"
| "gap_loop endGapStart ((i, gap) # following) els q =
     (if ivEnd gap < endGapStart then
        (let (q', calls) = deleteConsecutive (ivEnd gap) q
         in case gap_loop endGapStart following (el_remove i els) q' of
              None \<Rightarrow> None
            | Some (els', q'', calls') \<Rightarrow> Some (els', q'', calls @ calls'))
      else Some (els, q, []))"

definition slice_to :: "bytes \<Rightarrow> int \<Rightarrow> bytes option" where
  "slice_to dat n = (if 0 \<le> n \<and> n \<le> int (length dat) then Some (take (nat n) dat) else None)"

definition slice_from :: "bytes \<Rightarrow> int \<Rightarrow> bytes option" where
  "slice_from dat n = (if 0 \<le> n \<and> n \<le> int (length dat) then Some (drop (nat n) dat) else None)"

section \<open>Push\<close>

text \<open>The call in three parts: the search for the gaps, the loop that replaces queued frames, and the rest. The last part is
  split further along the code: cutting the frame at the start gap, the update of the start gap, the gaps in between, cutting the
  frame at the end gap, the update of the end gap, and storing the frame.\<close>

definition cut_front :: "bool \<Rightarrow> bool \<Rightarrow> byteInterval \<Rightarrow> bytes \<Rightarrow> ByteCount \<Rightarrow> bool \<Rightarrow> (bytes \<times> ByteCount \<times> bool) option" where
  "cut_front startsInGap hasReplaced startGap dat start wasCut =
     (if \<not> startsInGap \<and> \<not> hasReplaced then
        map_option (\<lambda>d. (d, ivStart startGap, True)) (slice_from dat (ivStart startGap - start))
      else Some (dat, start, wasCut))"

definition update_startGap :: "nat \<Rightarrow> byteInterval \<Rightarrow> bool \<Rightarrow> ByteCount \<Rightarrow> ByteCount \<Rightarrow> elements \<Rightarrow> elements \<times> bool" where
  "update_startGap k startGap hasReplaced start end els =
     (if start \<le> ivStart startGap then
        (if end \<ge> ivEnd startGap then (el_remove k els, False)
         else (el_update k (\<lambda>g. g\<lparr>ivStart := end\<rparr>) els, False))
      else if \<not> hasReplaced then (el_update k (\<lambda>g. g\<lparr>ivEnd := start\<rparr>) els, True)
      else (els, False))"

definition clear_between :: "bool \<Rightarrow> ByteCount \<Rightarrow> ByteCount \<Rightarrow> elements \<Rightarrow> elements \<Rightarrow> 'cb fqueue
    \<Rightarrow> (elements \<times> 'cb fqueue \<times> 'cb list) option" where
  "clear_between sameGap startGapEnd endGapStart following els q =
     (if sameGap then Some (els, q, [])
      else
        (let (q', calls) = deleteConsecutive startGapEnd q
         in case gap_loop endGapStart following els q' of
              None \<Rightarrow> None
            | Some (els', q'', calls') \<Rightarrow> Some (els', q'', calls @ calls')))"

definition cut_back :: "bool \<Rightarrow> ByteCount \<Rightarrow> bytes \<Rightarrow> ByteCount \<Rightarrow> ByteCount \<Rightarrow> bool \<Rightarrow> (bytes \<times> ByteCount \<times> bool) option" where
  "cut_back endsInGap endGapEnd dat start end wasCut =
     (if \<not> endsInGap \<and> start \<noteq> endGapEnd \<and> end > endGapEnd then
        map_option (\<lambda>d. (d, endGapEnd, True)) (slice_to dat (endGapEnd - start))
      else Some (dat, end, wasCut))"

definition update_endGap :: "nat \<Rightarrow> nat \<Rightarrow> ByteCount \<Rightarrow> ByteCount \<Rightarrow> bool \<Rightarrow> ByteCount \<Rightarrow> nat \<Rightarrow> elements \<Rightarrow> elements" where
  "update_endGap sg eg startGapEnd endGapEnd adjusted end fresh els =
     (if end = endGapEnd then (if sg \<noteq> eg then el_remove eg els else els)
      else if sg = eg \<and> adjusted then el_insertAfter (fresh, \<lparr>ivStart = end, ivEnd = startGapEnd\<rparr>) sg els
      else if sg \<noteq> eg then el_update eg (\<lambda>g. g\<lparr>ivStart := end\<rparr>) els
      else els)"

definition store_frame :: "bytes \<Rightarrow> ByteCount \<Rightarrow> bool \<Rightarrow> 'cb option \<Rightarrow> elements \<Rightarrow> 'cb fqueue \<Rightarrow> 'cb list \<Rightarrow> 'cb frameSorter
    \<Rightarrow> sorter_error option \<times> 'cb frameSorter \<times> 'cb list" where
  "store_frame dat start wasCut doneCb els q calls s =
     (let copied = (wasCut \<and> length dat < MinStreamFrameBufferSize);
          calls' = calls @ (if copied then cb_list doneCb else []);
          cb = (if copied then None else doneCb);
          s1 = s\<lparr>queue := q, gaps := map snd els\<rparr>
      in if length els > MaxStreamFrameSorterGaps then (Some TooManyGaps, s1, calls')
         else (None, s1\<lparr>queue := AList.update start \<lparr>eData = dat, eDoneCb = cb\<rparr> q\<rparr>, calls'))"

definition push_rest :: "'cb option \<Rightarrow> 'cb frameSorter \<Rightarrow> nat \<Rightarrow> bool \<Rightarrow> nat \<Rightarrow> bool \<Rightarrow> bytes \<Rightarrow> ByteCount \<Rightarrow> ByteCount \<Rightarrow> bool
    \<Rightarrow> bool \<Rightarrow> 'cb fqueue \<Rightarrow> 'cb list \<Rightarrow> (sorter_error option \<times> 'cb frameSorter \<times> 'cb list) option" where
  "push_rest doneCb s sg startsInGap eg endsInGap dat0 start0 end0 wasCut0 hasReplaced q calls =
     (let startGap = gaps s ! sg; endGap = gaps s ! eg; els0 = List.enumerate 0 (gaps s)
      in case cut_front startsInGap hasReplaced startGap dat0 start0 wasCut0 of
           None \<Rightarrow> None
         | Some (dat1, start, wasCut1) \<Rightarrow>
             (let (els1, adjusted) = update_startGap sg startGap hasReplaced start end0 els0
              in case clear_between (sg = eg) (ivEnd startGap) (ivStart endGap) (drop (Suc sg) els0) els1 q of
                   None \<Rightarrow> None
                 | Some (els2, q2, calls2) \<Rightarrow>
                     (case cut_back endsInGap (ivEnd endGap) dat1 start end0 wasCut1 of
                        None \<Rightarrow> None
                      | Some (dat2, end1, wasCut2) \<Rightarrow>
                          Some (store_frame dat2 start wasCut2 doneCb
                            (update_endGap sg eg (ivEnd startGap) (ivEnd endGap) adjusted end1 (length els0) els2)
                            q2 (calls @ calls2) s))))"

definition push_found :: "bytes \<Rightarrow> ByteCount \<Rightarrow> 'cb option \<Rightarrow> 'cb frameSorter \<Rightarrow> nat \<Rightarrow> bool \<Rightarrow> nat \<Rightarrow> bool
    \<Rightarrow> (sorter_error option \<times> 'cb frameSorter \<times> 'cb list) option" where
  "push_found dat start doneCb s sg startsInGap eg endsInGap =
     (let end = start + int (length dat)
      in case replace_loop end (queue s) start False of
           RDuplicate \<Rightarrow> Some (Some DuplicateStreamData, s, [])
         | RCut q pos calls \<Rightarrow>
             Option.bind (slice_to dat (pos - start)) (\<lambda>d.
               push_rest doneCb s sg startsInGap eg endsInGap d start pos True True q calls)
         | RDone q pos hasReplaced calls \<Rightarrow>
             push_rest doneCb s sg startsInGap eg endsInGap dat start end False hasReplaced q calls)"

definition push :: "bytes \<Rightarrow> ByteCount \<Rightarrow> 'cb option \<Rightarrow> 'cb frameSorter
    \<Rightarrow> (sorter_error option \<times> 'cb frameSorter \<times> 'cb list) option" where
  "push dat offset doneCb s =
     (if dat = [] then Some (Some DuplicateStreamData, s, [])
      else
        (let start = offset; end = offset + int (length dat)
         in case gaps s of
              [] \<Rightarrow> None
            | front # _ \<Rightarrow>
                if end \<le> ivStart front then Some (Some DuplicateStreamData, s, [])
                else
                  (case findStartGap 0 (gaps s) start of
                     None \<Rightarrow> None
                   | Some (sg, startsInGap) \<Rightarrow>
                       (case findEndGap sg (drop sg (gaps s)) end of
                          None \<Rightarrow> None
                        | Some (None, endsInGap) \<Rightarrow> None
                        | Some (Some eg, endsInGap) \<Rightarrow>
                            (let startGap = gaps s ! sg; endGap = gaps s ! eg
                             in if sg = eg \<and> end \<le> ivStart startGap \<or>
                                   sg \<noteq> eg \<and> ivEnd startGap \<ge> ivStart endGap \<and> end \<le> ivStart startGap
                                then Some (Some DuplicateStreamData, s, [])
                                else push_found dat start doneCb s sg startsInGap eg endsInGap)))))"

definition Push :: "bytes \<Rightarrow> ByteCount \<Rightarrow> 'cb option \<Rightarrow> 'cb frameSorter
    \<Rightarrow> (sorter_error option \<times> 'cb frameSorter \<times> 'cb list) option" where
  "Push dat offset doneCb s =
     map_option (\<lambda>(err, s', calls).
       if err = Some DuplicateStreamData then (None, s', calls @ cb_list doneCb) else (err, s', calls))
       (push dat offset doneCb s)"

section \<open>Pop and Peek\<close>

definition Pop :: "'cb frameSorter \<Rightarrow> ((ByteCount \<times> bytes \<times> 'cb option) \<times> 'cb frameSorter) option" where
  "Pop s =
     (case map_of (queue s) (readPos s) of
        None \<Rightarrow> Some ((readPos s, [], None), s)
      | Some entry \<Rightarrow>
          (let s' = s\<lparr>queue := AList.delete (readPos s) (queue s), readPos := readPos s + int (length (eData entry))\<rparr>
           in case gaps s of
                [] \<Rightarrow> None
              | front # _ \<Rightarrow> if ivEnd front \<le> readPos s' then None else Some ((readPos s, eData entry, eDoneCb entry), s')))"

definition HasMoreData :: "'cb frameSorter \<Rightarrow> bool" where
  "HasMoreData s = (queue s \<noteq> [])"

partial_function (option) peek_check :: "'cb fqueue \<Rightarrow> ByteCount \<Rightarrow> int \<Rightarrow> bool option" where
  "peek_check q pos remaining =
     (if remaining > 0 then
        (case map_of q pos of
           None \<Rightarrow> Some False
         | Some entry \<Rightarrow>
             if remaining \<le> int (length (eData entry)) then Some True
             else peek_check q (pos + int (length (eData entry))) (remaining - int (length (eData entry))))
      else Some True)"

partial_function (option) peek_copy :: "'cb fqueue \<Rightarrow> ByteCount \<Rightarrow> nat \<Rightarrow> bytes option" where
  "peek_copy q pos left =
     (if 0 < left then
        (let dat = (case map_of q pos of None \<Rightarrow> [] | Some entry \<Rightarrow> eData entry); copied = take left dat
         in Option.bind (peek_copy q (pos + int (length dat)) (left - length copied)) (\<lambda>bs. Some (copied @ bs)))
      else Some [])"

text \<open>\<open>Peek\<close> into a buffer of \<open>n\<close> bytes: \<open>Some None\<close> is \<open>errTooLittleData\<close>, the outer \<open>None\<close> a loop that does not end.\<close>

definition sorter_Peek :: "'cb frameSorter \<Rightarrow> ByteCount \<Rightarrow> nat \<Rightarrow> bytes option option" where
  "sorter_Peek s offset n =
     (if n = 0 then Some (Some [])
      else Option.bind (peek_check (queue s) offset (int n)) (\<lambda>enough.
        if enough then Option.bind (peek_copy (queue s) offset n) (\<lambda>bs. Some (Some bs)) else Some None))"

section \<open>The invariant\<close>

abbreviation endof :: "ByteCount \<Rightarrow> 'cb frameSorterEntry \<Rightarrow> ByteCount" where
  "endof p e \<equiv> p + int (length (eData e))"

definition gap_set :: "byteInterval list \<Rightarrow> ByteCount set" where
  "gap_set gs = (\<Union>g\<in>set gs. {ivStart g..<ivEnd g})"

definition gaps_ok :: "byteInterval list \<Rightarrow> bool" where
  "gaps_ok gs \<longleftrightarrow> gs \<noteq> [] \<and> (\<forall>g\<in>set gs. 0 \<le> ivStart g \<and> ivStart g < ivEnd g) \<and>
     sorted_wrt (\<lambda>a b. ivEnd a < ivStart b) gs \<and> ivEnd (last gs) = MaxByteCount"

text \<open>The bytes of the stream \<open>f\<close> from \<open>a\<close> on.\<close>

definition part :: "(ByteCount \<Rightarrow> byte) \<Rightarrow> ByteCount \<Rightarrow> nat \<Rightarrow> bytes" where
  "part f a n = map (\<lambda>i. f (a + int i)) [0..<n]"

definition apart :: "(ByteCount \<rightharpoonup> 'cb frameSorterEntry) \<Rightarrow> bool" where
  "apart m \<longleftrightarrow> (\<forall>p e. m p = Some e \<longrightarrow> eData e \<noteq> []) \<and>
     (\<forall>p e p' e'. m p = Some e \<longrightarrow> m p' = Some e' \<longrightarrow> p < p' \<longrightarrow> endof p e \<le> p')"

definition covered :: "(ByteCount \<rightharpoonup> 'cb frameSorterEntry) \<Rightarrow> ByteCount set" where
  "covered m = {x. \<exists>p e. m p = Some e \<and> p \<le> x \<and> x < endof p e}"

definition queue_ok :: "(ByteCount \<Rightarrow> byte) \<Rightarrow> ByteCount \<Rightarrow> ByteCount set \<Rightarrow> 'cb fqueue \<Rightarrow> bool" where
  "queue_ok f r G q \<longleftrightarrow> distinct (map fst q) \<and> apart (map_of q) \<and>
     (\<forall>p e. map_of q p = Some e \<longrightarrow> eData e = part f p (length (eData e))) \<and>
     covered (map_of q) = {r..<MaxByteCount} - G"

definition sorter_ok :: "(ByteCount \<Rightarrow> byte) \<Rightarrow> 'cb frameSorter \<Rightarrow> bool" where
  "sorter_ok f s \<longleftrightarrow> gaps_ok (gaps s) \<and> 0 \<le> readPos s \<and> readPos s \<le> ivStart (hd (gaps s)) \<and>
     queue_ok f (readPos s) (gap_set (gaps s)) (queue s)"

section \<open>Removing consecutive frames\<close>

text \<open>\<open>[p, e)\<close> is tiled by frames.\<close>

definition tiled :: "(ByteCount \<rightharpoonup> 'cb frameSorterEntry) \<Rightarrow> ByteCount \<Rightarrow> ByteCount \<Rightarrow> bool" where
  "tiled m p e \<longleftrightarrow> p \<le> e \<and> (\<forall>x. p \<le> x \<longrightarrow> x < e \<longrightarrow> (\<exists>k d. m k = Some d \<and> p \<le> k \<and> k \<le> x \<and> x < endof k d \<and> endof k d \<le> e))"

definition without :: "ByteCount \<Rightarrow> ByteCount \<Rightarrow> (ByteCount \<rightharpoonup> 'v) \<Rightarrow> (ByteCount \<rightharpoonup> 'v)" where
  "without a b m = (\<lambda>k. if a \<le> k \<and> k < b then None else m k)"

lemma apartD:
  assumes "apart m" "m p = Some e"
  shows "p < endof p e" and "m p' = Some e' \<Longrightarrow> p < p' \<Longrightarrow> endof p e \<le> p'"
    and "m k = Some d \<Longrightarrow> k \<le> p \<Longrightarrow> p < endof k d \<Longrightarrow> k = p"
proof -
  show "p < endof p e" using assms by (simp add: apart_def)
  show n: "m p' = Some e' \<Longrightarrow> p < p' \<Longrightarrow> endof p e \<le> p'" using assms by (simp add: apart_def)
  show "m k = Some d \<Longrightarrow> k \<le> p \<Longrightarrow> p < endof k d \<Longrightarrow> k = p"
    using assms unfolding apart_def by (metis linorder_not_less order_le_less)
qed

lemma apart_delete: "apart m \<Longrightarrow> apart (m(p := None))"
  unfolding apart_def by (auto split: if_splits)

lemma tiled_first:
  assumes "tiled m p e" "p < e" obtains d where "m p = Some d" "endof p d \<le> e"
proof -
  obtain k d where "m k = Some d" "p \<le> k" "k \<le> p" "endof k d \<le> e" using assms unfolding tiled_def by force
  then show ?thesis using that by simp
qed

lemma tiled_step:
  assumes "apart m" "m p = Some d" "tiled m p e" "p < e"
  shows "tiled (m(p := None)) (endof p d) e"
  unfolding tiled_def
proof (intro conjI allI impI)
  show "endof p d \<le> e" using tiled_first [OF assms(3,4)] assms(2) by auto
  fix x assume x: "endof p d \<le> x" "x < e"
  have p: "p < endof p d" using apartD(1) [OF assms(1,2)] .
  obtain k d' where k: "m k = Some d'" "p \<le> k" "k \<le> x" "x < endof k d'" "endof k d' \<le> e"
  proof -
    have "p \<le> x" using p x(1) by simp
    then show ?thesis using that assms(3) x(2) unfolding tiled_def by blast
  qed
  then have "k \<noteq> p" using assms(2) x(1) by auto
  then have "endof p d \<le> k" using apartD(2) [OF assms(1,2) k(1)] k(2) by simp
  then show "\<exists>k d'. (m(p := None)) k = Some d' \<and> endof p d \<le> k \<and> k \<le> x \<and> x < endof k d' \<and> endof k d' \<le> e"
    using k \<open>k \<noteq> p\<close> by auto
qed

lemma without_step:
  assumes "apart m" "m p = Some d" "endof p d \<le> e"
  shows "without (endof p d) e (m(p := None)) = without p e m"
proof
  fix k
  have "m k = None" if "p < k" "k < endof p d"
    using apartD(2) [OF assms(1,2), of k] that by (cases "m k") auto
  then show "without (endof p d) e (m(p := None)) k = without p e m k"
    using assms(3) apartD(1) [OF assms(1,2)] by (auto simp: without_def)
qed

lemma deleteConsecutive_tiled:
  assumes "apart (map_of q)" "tiled (map_of q) p e" "map_of q e = None"
  shows "map_of (fst (deleteConsecutive p q)) = without p e (map_of q)"
  using assms
proof (induction p q rule: deleteConsecutive.induct)
  case (1 p q)
  show ?case
  proof (cases "map_of q p")
    case None
    have "p = e" using tiled_first [OF 1(3)] None 1(3) by (auto simp: tiled_def)
    then have "without p e (map_of q) = map_of q" by (auto simp: without_def fun_eq_iff)
    then show ?thesis using None by (simp add: deleteConsecutive.simps [of p q])
  next
    case (Some d)
    then have "p \<noteq> e" using 1(4) by auto
    then have l: "p < e" using 1(3) by (simp add: tiled_def)
    have m: "map_of (AList.delete p q) = (map_of q)(p := None)" by (rule AList.delete_conv')
    have "map_of (fst (deleteConsecutive (endof p d) (AList.delete p q))) = without (endof p d) e ((map_of q)(p := None))"
      by (rule 1(1) [OF Some, unfolded m, OF apart_delete [OF 1(2)] tiled_step [OF 1(2) Some 1(3) l]]) (simp add: 1(4))
    also have "\<dots> = without p e (map_of q)"
      using tiled_first [OF 1(3) l] Some by (intro without_step [OF 1(2) Some]) auto
    finally show ?thesis using Some by (simp add: deleteConsecutive.simps [of p] case_prod_beta Let_def)
  qed
qed

lemma deleteConsecutive_distinct: "distinct (map fst q) \<Longrightarrow> distinct (map fst (fst (deleteConsecutive p q)))"
proof (induction p q rule: deleteConsecutive.induct)
  case (1 p q)
  then show ?case
    by (cases "map_of q p") (auto simp: deleteConsecutive.simps [of p q] case_prod_beta Let_def AList.distinct_delete)
qed

text \<open>What the replacing loop has done when it ends.\<close>

definition replace_post :: "ByteCount \<Rightarrow> 'cb fqueue \<Rightarrow> ByteCount \<Rightarrow> bool \<Rightarrow> 'cb replaced \<Rightarrow> bool" where
  "replace_post end q pos has r \<longleftrightarrow>
     (case r of
        RDuplicate \<Rightarrow> \<not> has \<and> (\<exists>d. map_of q pos = Some d \<and> end \<le> endof pos d)
      | RCut q' p calls \<Rightarrow> tiled (map_of q) pos p \<and> p \<le> end \<and> (has \<or> pos < p) \<and> (\<exists>d. map_of q p = Some d \<and> end < endof p d) \<and>
          map_of q' = without pos p (map_of q) \<and> distinct (map fst q')
      | RDone q' p has' calls \<Rightarrow> tiled (map_of q) pos p \<and> p \<le> end \<and> has' = (has \<or> pos < p) \<and> map_of q p = None \<and>
          map_of q' = without pos p (map_of q) \<and> distinct (map fst q'))"

lemma tiled_Cons:
  assumes "apart m" "m p = Some d" "tiled (m(p := None)) (endof p d) e" shows "tiled m p e"
  unfolding tiled_def
proof (intro conjI allI impI)
  show "p \<le> e" using assms apartD(1) [OF assms(1,2)] by (simp add: tiled_def)
  fix x assume x: "p \<le> x" "x < e"
  show "\<exists>k d'. m k = Some d' \<and> p \<le> k \<and> k \<le> x \<and> x < endof k d' \<and> endof k d' \<le> e"
  proof (cases "x < endof p d")
    case True
    moreover have "endof p d \<le> e" using assms(3) by (simp add: tiled_def)
    ultimately show ?thesis using x assms(2) by blast
  next
    case False
    then obtain k d' where "(m(p := None)) k = Some d'" "endof p d \<le> k" "k \<le> x" "x < endof k d'" "endof k d' \<le> e"
      using assms(3) x(2) unfolding tiled_def by (metis linorder_not_less)
    then show ?thesis using apartD(1) [OF assms(1,2)] by (intro exI [of _ k] exI [of _ d']) (auto split: if_splits)
  qed
qed

lemma tiled_refl: "tiled m p p"
  by (simp add: tiled_def)

lemma without_refl: "without p p m = m"
  by (auto simp: without_def fun_eq_iff)

lemma replace_loop_post:
  assumes "apart (map_of q)" "distinct (map fst q)" "pos \<le> end"
  shows "replace_post end q pos has (replace_loop end q pos has)"
  using assms
proof (induction "end" q pos has rule: replace_loop.induct)
  case (1 "end" q pos has)
  show ?case
  proof (cases "map_of q pos")
    case None
    then show ?thesis
      using 1(3,4) by (simp add: replace_loop.simps [of "end" q pos] replace_post_def tiled_refl without_refl)
  next
    case (Some d)
    let ?go = "end - pos > int (length (eData d)) \<or> (has \<and> end - pos = int (length (eData d)))"
    show ?thesis
    proof (cases ?go)
      case False
      then show ?thesis
        using Some 1(3,4)
        by (auto simp: replace_loop.simps [of "end" q pos] replace_post_def tiled_refl without_refl Let_def)
    next
      case True
      have l: "endof pos d \<le> end" "pos < endof pos d" using True apartD(1) [OF 1(2) Some] by auto
      have m: "map_of (AList.delete pos q) = (map_of q)(pos := None)" by (rule AList.delete_conv')
      let ?r = "replace_loop end (AList.delete pos q) (endof pos d) True"
      have ih: "replace_post end (AList.delete pos q) (endof pos d) True ?r"
        by (rule 1(1) [OF Some refl True, unfolded m, OF apart_delete [OF 1(2)] AList.distinct_delete [OF 1(3)] l(1)])
      have e: "replace_loop end q pos has = called_first (cb_list (eDoneCb d)) ?r"
        using Some True by (simp add: replace_loop.simps [of "end" q pos] Let_def)
      have t: "tiled (map_of q) pos p" if "tiled ((map_of q)(pos := None)) (endof pos d) p" for p
        by (rule tiled_Cons [OF 1(2) Some that])
      have w: "without (endof pos d) p ((map_of q)(pos := None)) = without pos p (map_of q)"
        if "tiled ((map_of q)(pos := None)) (endof pos d) p" for p
        by (rule without_step [OF 1(2) Some]) (use that in \<open>simp add: tiled_def\<close>)
      have p: "pos < p" if "tiled ((map_of q)(pos := None)) (endof pos d) p" for p
        using order.strict_trans2 [OF l(2)] that unfolding tiled_def by blast
      show ?thesis
        using ih t w p unfolding e replace_post_def m by (cases ?r) (auto split: if_splits)
    qed
  qed
qed

lemma tiled_covered: "tiled m s p \<Longrightarrow> {s..<p} \<subseteq> covered m"
  unfolding tiled_def covered_def by force

lemma entry_covered: "m p = Some d \<Longrightarrow> {p..<endof p d} \<subseteq> covered m"
  unfolding covered_def by force

lemma tiled_stop:
  assumes "apart m" "tiled m s p" "s < p" "m p = None" shows "p \<notin> covered m"
proof
  assume "p \<in> covered m"
  then obtain k d where k: "m k = Some d" "k \<le> p" "p < endof k d" unfolding covered_def by blast
  then have "k < p" using assms(4) by (cases "k = p") auto
  have "s \<le> p - 1" "p - 1 < p" using assms(3) by simp_all
  then obtain k' d' where k': "m k' = Some d'" "k' \<le> p - 1" "p - 1 < endof k' d'" "endof k' d' \<le> p"
    using assms(2) unfolding tiled_def by blast
  have "k = k'"
    using apartD(2) [OF assms(1) k(1) k'(1)] apartD(2) [OF assms(1) k'(1) k(1)] k k' \<open>k < p\<close> by linarith
  then show False using k k' by simp
qed

lemma tiledI:
  assumes "apart m" "p \<le> e" "{p..<e} \<subseteq> covered m" "e \<notin> covered m" "\<And>k d. m k = Some d \<Longrightarrow> k < p \<Longrightarrow> endof k d \<le> p"
  shows "tiled m p e" "m e = None"
proof -
  show "tiled m p e"
    unfolding tiled_def
  proof (intro conjI allI impI)
    fix x assume x: "p \<le> x" "x < e"
    then have "x \<in> covered m" using assms(3) by auto
    then obtain k d where k: "m k = Some d" "k \<le> x" "x < endof k d" unfolding covered_def by blast
    have "p \<le> k" using assms(5) [OF k(1)] k(3) x(1) by linarith
    moreover have "endof k d \<le> e"
    proof (rule ccontr)
      assume "\<not> endof k d \<le> e"
      then have "e \<in> {k..<endof k d}" using k(2) x(2) by simp
      then show False using entry_covered [of m k d, OF k(1)] assms(4) by blast
    qed
    ultimately show "\<exists>k d. m k = Some d \<and> p \<le> k \<and> k \<le> x \<and> x < endof k d \<and> endof k d \<le> e" using k by blast
  qed (rule assms(2))
  show "m e = None"
  proof (cases "m e")
    case (Some d)
    then have "e \<in> {e..<endof e d}" using apartD(1) [OF assms(1) Some] by simp
    then show ?thesis using entry_covered [of m e d, OF Some] assms(4) by blast
  qed simp
qed

section \<open>Storing the new frame\<close>

lemma length_part [simp]: "length (part f a n) = n"
  by (simp add: part_def)

lemma take_part: "take k (part f a n) = part f a (min k n)"
  by (rule nth_equalityI) (auto simp: part_def)

lemma drop_part: "drop k (part f a n) = part f (a + int k) (n - k)"
  by (rule nth_equalityI) (auto simp: part_def add.assoc)

lemma store_ok:
  assumes "queue_ok f r G q" "r \<le> a" "a < b" "b \<le> MaxByteCount" "distinct (map fst q1)" "map_of q1 = without a b (map_of q)"
    and "\<And>k d. map_of q k = Some d \<Longrightarrow> k < a \<Longrightarrow> endof k d \<le> a" and "\<And>k d. map_of q k = Some d \<Longrightarrow> k < b \<Longrightarrow> endof k d \<le> b"
    and "dat = part f a (nat (b - a))"
  shows "queue_ok f r (G - {a..<b}) (AList.update a \<lparr>eData = dat, eDoneCb = cb\<rparr> q1)"
proof -
  let ?m = "map_of q" and ?e = "\<lparr>eData = dat, eDoneCb = cb\<rparr>"
  let ?m' = "(without a b ?m)(a \<mapsto> ?e)"
  have q: "apart ?m" "covered ?m = {r..<MaxByteCount} - G"
    and c: "\<And>p e. ?m p = Some e \<Longrightarrow> eData e = part f p (length (eData e))"
    using assms(1) unfolding queue_ok_def by blast+
  have len: "endof a ?e = b" using assms(3,9) by simp
  have m': "?m' p = Some e \<longleftrightarrow> p = a \<and> e = ?e \<or> p \<noteq> a \<and> \<not> (a \<le> p \<and> p < b) \<and> ?m p = Some e" for p e
    by (auto simp: without_def)
  have "apart ?m'"
    unfolding apart_def
  proof (intro conjI allI impI)
    fix p e assume "?m' p = Some e"
    moreover have "dat \<noteq> []" using len assms(3) by auto
    ultimately show "eData e \<noteq> []" using q(1) unfolding m' apart_def by auto
  next
    fix p e p' e' assume h: "?m' p = Some e" "?m' p' = Some e'" "p < p'"
    show "endof p e \<le> p'"
    proof (cases "p = a")
      case True
      then show ?thesis using h len unfolding m' by auto
    next
      case False
      then have p: "?m p = Some e" "p < a \<or> b \<le> p" using h(1) unfolding m' by auto
      show ?thesis
      proof (cases "p' = a")
        case True
        then show ?thesis using assms(7) [OF p(1)] h(3) by simp
      next
        case False
        then have "?m p' = Some e'" using h(2) unfolding m' by simp
        then show ?thesis using apartD(2) [OF q(1) p(1)] h(3) by blast
      qed
    qed
  qed
  moreover have "covered ?m' = {r..<MaxByteCount} - (G - {a..<b})"
  proof -
    have "x \<in> covered ?m' \<longleftrightarrow> x \<in> covered ?m \<or> a \<le> x \<and> x < b" for x
    proof
      assume "x \<in> covered ?m'"
      then obtain p e where p: "?m' p = Some e" "p \<le> x" "x < endof p e" unfolding covered_def by blast
      then show "x \<in> covered ?m \<or> a \<le> x \<and> x < b" using len unfolding m' covered_def by auto
    next
      assume h: "x \<in> covered ?m \<or> a \<le> x \<and> x < b"
      show "x \<in> covered ?m'"
      proof (cases "a \<le> x \<and> x < b")
        case True
        then show ?thesis using len m' [of a ?e] unfolding covered_def by blast
      next
        case False
        then obtain p e where p: "?m p = Some e" "p \<le> x" "x < endof p e" using h unfolding covered_def by blast
        then have "\<not> (a \<le> p \<and> p < b)" using False assms(8) [OF p(1)] by linarith
        then have "?m' p = Some e" using p(1) assms(3) unfolding m' by auto
        then show ?thesis using p unfolding covered_def by blast
      qed
    qed
    then show ?thesis using q(2) assms(2,4) by auto
  qed
  moreover have "eData e = part f p (length (eData e))" if "?m' p = Some e" for p e
    using that c assms(3,9) unfolding m' by auto
  ultimately show ?thesis
    using assms(5,6) by (simp add: queue_ok_def AList.distinct_update AList.update_conv')
qed

section \<open>The gaps\<close>

lemma gaps_split:
  assumes "gaps_ok (A @ g # B)"
  shows "\<And>z. z \<in> set A \<Longrightarrow> ivEnd z < ivStart g" "\<And>z. z \<in> set B \<Longrightarrow> ivEnd g < ivStart z" "0 \<le> ivStart g" "ivStart g < ivEnd g"
    "\<And>z. z \<in> set A \<union> set B \<Longrightarrow> ivStart z < ivEnd z" "ivEnd g \<le> MaxByteCount"
proof -
  show "ivEnd z < ivStart g" if "z \<in> set A" for z using assms that by (auto simp: gaps_ok_def sorted_wrt_append)
  show b: "ivEnd g < ivStart z" if "z \<in> set B" for z using assms that by (auto simp: gaps_ok_def sorted_wrt_append)
  show "0 \<le> ivStart g" "ivStart g < ivEnd g" using assms by (auto simp: gaps_ok_def)
  show n: "ivStart z < ivEnd z" if "z \<in> set A \<union> set B" for z using assms that by (auto simp: gaps_ok_def)
  show "ivEnd g \<le> MaxByteCount"
  proof (cases "B = []")
    case False
    then have "last B \<in> set B" "ivEnd (last B) = MaxByteCount" using assms by (auto simp: gaps_ok_def)
    then show ?thesis using b n by fastforce
  qed (use assms in \<open>simp add: gaps_ok_def\<close>)
qed

lemma gap_set_append [simp]: "gap_set (A @ B) = gap_set A \<union> gap_set B" and gap_set_Cons [simp]: "gap_set (g # B) = {ivStart g..<ivEnd g} \<union> gap_set B"
  and gap_set_Nil [simp]: "gap_set [] = {}"
  by (auto simp: gap_set_def)

lemma gap_set_before: "(\<And>z. z \<in> set A \<Longrightarrow> ivEnd z \<le> x) \<Longrightarrow> x \<notin> gap_set A"
  by (force simp: gap_set_def)

lemma gap_set_after: "(\<And>z. z \<in> set B \<Longrightarrow> x < ivStart z) \<Longrightarrow> x \<notin> gap_set B"
  by (force simp: gap_set_def)

lemma findStartGap_split:
  assumes "gs \<noteq> []" "offset \<le> ivEnd (last gs)"
  obtains A g B b where "gs = A @ g # B" "findStartGap k gs offset = Some (k + length A, b)" "\<And>z. z \<in> set A \<Longrightarrow> ivEnd z < offset"
    "if b then ivStart g \<le> offset \<and> offset \<le> ivEnd g else offset < ivStart g"
  using assms
proof (induction gs arbitrary: k thesis)
  case (Cons g gs)
  consider "ivStart g \<le> offset \<and> offset \<le> ivEnd g" | "offset < ivStart g" | "ivEnd g < offset" "\<not> offset < ivStart g" by linarith
  then show ?case
  proof cases
    case 1 then show ?thesis using Cons.prems(1) [of "[]" g gs True] by simp
  next
    case 2 then show ?thesis using Cons.prems(1) [of "[]" g gs False] by simp
  next
    case 3
    then have "gs \<noteq> []" "offset \<le> ivEnd (last gs)" using Cons.prems(3) by (auto split: if_splits)
    then obtain A h B b where i: "gs = A @ h # B" "findStartGap (Suc k) gs offset = Some (Suc k + length A, b)"
      "\<And>z. z \<in> set A \<Longrightarrow> ivEnd z < offset" "if b then ivStart h \<le> offset \<and> offset \<le> ivEnd h else offset < ivStart h"
      using Cons.IH [of "Suc k"] by metis
    then show ?thesis using Cons.prems(1) [of "g # A" h B b] 3 by auto
  qed
qed simp

lemma findEndGap_split:
  assumes "gs \<noteq> []" "offset < ivEnd (last gs)"
  obtains A h B where "gs = A @ h # B" "\<And>z. z \<in> set A \<Longrightarrow> ivEnd z \<le> offset"
    "ivStart h \<le> offset" "offset < ivEnd h" "findEndGap k gs offset = Some (Some (k + length A), True)"
  | A h B where "gs = A @ h # B" "\<And>z. z \<in> set A \<Longrightarrow> ivEnd z \<le> offset"
    "offset < ivStart h" "findEndGap k gs offset = Some (case k + length A of 0 \<Rightarrow> None | Suc j \<Rightarrow> Some j, False)"
  using assms
proof (induction gs arbitrary: k thesis)
  case (Cons g gs)
  consider "ivStart g \<le> offset \<and> offset < ivEnd g" | "offset < ivStart g" | "ivEnd g \<le> offset" "\<not> offset < ivStart g" by linarith
  then show ?case
  proof cases
    case 1 then show ?thesis using Cons.prems(1) [of "[]" g gs] by simp
  next
    case 2 then show ?thesis using Cons.prems(2) [of "[]" g gs] by simp
  next
    case 3
    then have "gs \<noteq> []" "offset < ivEnd (last gs)" using Cons.prems(4) by (auto split: if_splits)
    then show ?thesis
    proof (rule Cons.IH [of "Suc k", rotated 2])
      fix A h B assume "gs = A @ h # B" "\<And>z. z \<in> set A \<Longrightarrow> ivEnd z \<le> offset" "ivStart h \<le> offset" "offset < ivEnd h"
        "findEndGap (Suc k) gs offset = Some (Some (Suc k + length A), True)"
      then show ?thesis using Cons.prems(1) [of "g # A" h B] 3 by auto
    next
      fix A h B assume "gs = A @ h # B" "\<And>z. z \<in> set A \<Longrightarrow> ivEnd z \<le> offset" "offset < ivStart h"
        "findEndGap (Suc k) gs offset = Some (case Suc k + length A of 0 \<Rightarrow> None | Suc j \<Rightarrow> Some j, False)"
      then show ?thesis using Cons.prems(2) [of "g # A" h B] 3 by auto
    qed
  qed
qed simp

lemma el_at:
  assumes "k \<notin> fst ` set X" "k \<notin> fst ` set Y"
  shows "el_update k f (X @ (k, g) # Y) = X @ (k, f g) # Y" "el_remove k (X @ (k, g) # Y) = X @ Y"
    "el_insertAfter e k (X @ (k, g) # Y) = X @ (k, g) # e # Y"
proof -
  have "el_update k f Z = Z" "el_remove k Z = Z" if "k \<notin> fst ` set Z" for Z
    using that unfolding el_update_def el_remove_def by (force intro!: map_idI filter_True)+
  then show "el_update k f (X @ (k, g) # Y) = X @ (k, f g) # Y" "el_remove k (X @ (k, g) # Y) = X @ Y"
    using assms by (simp_all add: el_update_def el_remove_def)
  show "el_insertAfter e k (X @ (k, g) # Y) = X @ (k, g) # e # Y"
    using assms(1) by (induction X) auto
qed

lemma fst_enumerate: "fst ` set (List.enumerate n xs) = {n..<n + length xs}"
  by (metis list.set_map map_fst_enumerate set_upt)

lemma snd_enumerate: "map snd (List.enumerate n xs) = xs"
  by simp

text \<open>Between two neighbouring gaps the stream is tiled by queued frames.\<close>

lemma between_tiled:
  assumes "queue_ok f r (gap_set gs) q" "gaps_ok gs" "r \<le> ivStart (hd gs)" "gs = A @ g # n # B"
  shows "tiled (map_of q) (ivEnd g) (ivStart n)" "map_of q (ivStart n) = None"
proof -
  have c: "apart (map_of q)" "covered (map_of q) = {r..<MaxByteCount} - gap_set gs" using assms(1) by (simp_all add: queue_ok_def)
  note g = gaps_split [of A g "n # B"] and n = gaps_split [of "A @ [g]" n B]
  have ok: "gaps_ok (A @ g # n # B)" "gaps_ok ((A @ [g]) @ n # B)" using assms(2,4) by simp_all
  have r: "r \<le> ivStart g" using assms(3,4) g(1,5) [OF ok(1)] by (cases A) force+
  have "{ivEnd g..<ivStart n} \<subseteq> covered (map_of q)"
  proof
    fix x assume x: "x \<in> {ivEnd g..<ivStart n}"
    have "x \<notin> gap_set A" by (rule gap_set_before) (use g(1,4) [OF ok(1)] x in fastforce)
    moreover have "x \<notin> gap_set B" by (rule gap_set_after) (use n(2,4) [OF ok(2)] x in fastforce)
    ultimately show "x \<in> covered (map_of q)"
      unfolding c(2) assms(4) using x r g(4) [OF ok(1)] n(4,6) [OF ok(2)] by auto
  qed
  moreover have "ivStart n \<notin> covered (map_of q)" unfolding c(2) assms(4) using n(4) [OF ok(2)] by auto
  moreover have "endof k d \<le> ivEnd g" if k: "map_of q k = Some d" "k < ivEnd g" for k d
  proof (rule ccontr)
    assume "\<not> endof k d \<le> ivEnd g"
    then have "ivEnd g - 1 \<in> {k..<endof k d}" using k(2) by simp
    then have "ivEnd g - 1 \<in> covered (map_of q)" using entry_covered [of "map_of q" k d, OF k(1)] by blast
    then show False unfolding c(2) assms(4) using g(4) [OF ok(1)] by auto
  qed
  moreover have "ivEnd g \<le> ivStart n" using g(2) [OF ok(1), of n] by simp
  ultimately show "tiled (map_of q) (ivEnd g) (ivStart n)" "map_of q (ivStart n) = None"
    using tiledI [OF c(1), of "ivEnd g" "ivStart n"] by blast+
qed

lemma no_key_in_gap:
  assumes "queue_ok f r G q" "k \<in> G" shows "map_of q k = None"
proof (cases "map_of q k")
  case (Some d)
  then have "k \<in> {k..<endof k d}" using assms(1) apartD(1) unfolding queue_ok_def by fastforce
  then have "k \<in> covered (map_of q)" using entry_covered [of "map_of q", OF Some] by blast
  then show ?thesis using assms unfolding queue_ok_def by blast
qed

lemma apart_without: "apart m \<Longrightarrow> apart (without a b m)"
  unfolding apart_def without_def by (auto split: if_splits)

lemma tiled_without:
  assumes "tiled m p e" "b \<le> p" shows "tiled (without a b m) p e"
proof -
  have "without a b m k = m k" if "p \<le> k" for k using that assms(2) by (simp add: without_def)
  then show ?thesis using assms(1) unfolding tiled_def by metis
qed

text \<open>Deleting the frames after a gap extends the emptied range to the next gap.\<close>

lemma delete_after_gap:
  assumes "queue_ok f r (gap_set gs) q" "gaps_ok gs" "r \<le> ivStart (hd gs)" "gs = A @ g # n # B"
    and "map_of q' = without a (ivStart g) (map_of q)" "a \<le> ivStart g"
  shows "map_of (fst (deleteConsecutive (ivEnd g) q')) = without a (ivStart n) (map_of q)"
proof -
  note t = between_tiled [OF assms(1-4)]
  have g: "ivStart g < ivEnd g" "ivEnd g < ivStart n" using gaps_split(2,4) [of A g "n # B"] assms(2,4) by auto
  have "map_of (fst (deleteConsecutive (ivEnd g) q')) = without (ivEnd g) (ivStart n) (without a (ivStart g) (map_of q))"
    using deleteConsecutive_tiled [of q' "ivEnd g" "ivStart n"] tiled_without [OF t(1), of "ivStart g" a] t(2) g assms(1)
    by (simp add: assms(5) apart_without queue_ok_def) (simp add: without_def)
  also have "\<dots> = without a (ivStart n) (map_of q)"
  proof
    fix k
    have "map_of q k = None" if "ivStart g \<le> k" "k < ivEnd g"
      by (rule no_key_in_gap [OF assms(1)]) (use that assms(4) in auto)
    then show "without (ivEnd g) (ivStart n) (without a (ivStart g) (map_of q)) k = without a (ivStart n) (map_of q) k"
      using g assms(6) by (auto simp: without_def)
  qed
  finally show ?thesis .
qed

lemma gap_loop_clear:
  assumes "queue_ok f r (gap_set gs) q" "gaps_ok gs" "r \<le> ivStart (hd gs)" "gs = A @ map snd M @ h # B"
    and "map_of q' = without a (ivStart (hd (map snd M @ [h]))) (map_of q)" "a \<le> ivStart (hd (map snd M @ [h]))" "distinct (map fst q')"
  shows "\<exists>q'' calls. gap_loop (ivStart h) (M @ (l, h) # Y) els q' = Some (filter (\<lambda>e. fst e \<notin> fst ` set M) els, q'', calls) \<and>
    map_of q'' = without a (ivStart h) (map_of q) \<and> distinct (map fst q'')"
  using assms(4-7)
proof (induction M arbitrary: A els q')
  case Nil
  have "ivStart h < ivEnd h" using gaps_split(4) [of A h B] assms(2) Nil(1) by simp
  then show ?case using Nil by simp
next
  case (Cons m M)
  obtain i g where m: "m = (i, g)" by (cases m)
  let ?n = "hd (map snd M @ [h])"
  obtain B' where gs: "gs = A @ g # ?n # B'" using Cons.prems(1) m by (cases M) auto
  have g: "ivEnd g < ivStart h" using gaps_split(2) [of A g "map snd M @ h # B"] assms(2) Cons.prems(1) m by simp
  have gn: "ivStart g < ivEnd g" "ivEnd g < ivStart ?n" using gaps_split(2,4) [of A g "?n # B'"] assms(2) gs by auto
  let ?d = "deleteConsecutive (ivEnd g) q'"
  have d: "map_of (fst ?d) = without a (ivStart ?n) (map_of q)"
    by (rule delete_after_gap [OF assms(1-3) gs]) (use Cons.prems(2,3) m in auto)
  have "\<exists>q'' calls. gap_loop (ivStart h) (M @ (l, h) # Y) (el_remove i els) (fst ?d) =
      Some (filter (\<lambda>e. fst e \<notin> fst ` set M) (el_remove i els), q'', calls) \<and>
      map_of q'' = without a (ivStart h) (map_of q) \<and> distinct (map fst q'')"
    by (rule Cons.IH [of "A @ [g]", OF _ d])
      (use Cons.prems m gn deleteConsecutive_distinct in auto)
  then obtain q'' calls where "gap_loop (ivStart h) (M @ (l, h) # Y) (el_remove i els) (fst ?d) =
      Some (filter (\<lambda>e. fst e \<notin> fst ` set M) (el_remove i els), q'', calls)"
    "map_of q'' = without a (ivStart h) (map_of q)" "distinct (map fst q'')" by blast
  then show ?case using g m
    by (auto simp: case_prod_beta Let_def el_remove_def intro!: arg_cong [of _ _ "\<lambda>P. filter P els"])
qed

section \<open>A push stores one frame\<close>

definition clean :: "(ByteCount \<rightharpoonup> 'cb frameSorterEntry) \<Rightarrow> ByteCount \<Rightarrow> bool" where
  "clean m x \<longleftrightarrow> (\<forall>k d. m k = Some d \<longrightarrow> k < x \<longrightarrow> endof k d \<le> x)"

lemma clean_gap:
  assumes "queue_ok f r G q" "x \<in> G \<or> x - 1 \<in> G" shows "clean (map_of q) x"
  unfolding clean_def
proof (intro allI impI)
  fix k d assume k: "map_of q k = Some d" "k < x"
  show "endof k d \<le> x"
  proof (rule ccontr)
    assume "\<not> endof k d \<le> x"
    then have "x \<in> {k..<endof k d}" "x - 1 \<in> {k..<endof k d}" using k(2) by auto
    then have "x \<in> covered (map_of q)" "x - 1 \<in> covered (map_of q)" using entry_covered [of "map_of q", OF k(1)] by blast+
    then show False using assms unfolding queue_ok_def by blast
  qed
qed

lemma clean_key: "apart m \<Longrightarrow> m x = Some d \<Longrightarrow> clean m x"
  unfolding clean_def apart_def by blast

definition stored_ok :: "(ByteCount \<Rightarrow> byte) \<Rightarrow> 'cb frameSorter \<Rightarrow> ByteCount \<Rightarrow> ByteCount \<Rightarrow> bytes \<Rightarrow> elements \<Rightarrow> 'cb fqueue \<Rightarrow> bool" where
  "stored_ok f s a b dat els q \<longleftrightarrow> a < b \<and> readPos s \<le> a \<and> b \<le> MaxByteCount \<and> dat = part f a (nat (b - a)) \<and>
     gaps_ok (map snd els) \<and> gap_set (map snd els) = gap_set (gaps s) - {a..<b} \<and>
     distinct (map fst q) \<and> map_of q = without a b (map_of (queue s)) \<and> clean (map_of (queue s)) a \<and> clean (map_of (queue s)) b"

text \<open>The callbacks of the queued frames.\<close>

definition cbs :: "'cb fqueue \<Rightarrow> 'cb multiset" where
  "cbs q = mset (concat (map (\<lambda>(k, e). cb_list (eDoneCb e)) q))"

lemma cbs_delete: "distinct (map fst q) \<Longrightarrow> map_of q k = Some e \<Longrightarrow> mset (cb_list (eDoneCb e)) + cbs (AList.delete k q) = cbs q"
proof (induction q)
  case (Cons x q)
  have "AList.delete k q = q" if "k = fst x" using Cons.prems(1) that by (auto intro: AList.delete_idem simp: image_iff)
  then show ?case using Cons by (cases x) (auto simp: cbs_def split: if_splits)
qed simp

lemma cbs_update: "map_of q k = None \<Longrightarrow> cbs (AList.update k e q) = cbs q + mset (cb_list (eDoneCb e))"
  by (induction q) (auto simp: cbs_def split: if_splits)

lemma deleteConsecutive_cbs: "distinct (map fst q) \<Longrightarrow> mset (snd (deleteConsecutive p q)) + cbs (fst (deleteConsecutive p q)) = cbs q"
proof (induction p q rule: deleteConsecutive.induct)
  case (1 p q)
  show ?case
  proof (cases "map_of q p")
    case (Some e)
    have "mset (snd (deleteConsecutive (endof p e) (AList.delete p q))) + cbs (fst (deleteConsecutive (endof p e) (AList.delete p q))) =
        cbs (AList.delete p q)"
      by (rule 1(1) [OF Some]) (simp add: AList.distinct_delete 1(2))
    then show ?thesis using cbs_delete [OF 1(2) Some] Some
      by (simp add: deleteConsecutive.simps [of p q] case_prod_beta add.assoc)
  qed (simp add: deleteConsecutive.simps [of p q])
qed

lemma gap_loop_cbs:
  "distinct (map fst q) \<Longrightarrow> gap_loop x following els q = Some (els', q', calls) \<Longrightarrow> mset calls + cbs q' = cbs q"
proof (induction x following els q arbitrary: els' q' calls rule: gap_loop.induct)
  case (2 x i gap following els q)
  show ?case
  proof (cases "ivEnd gap < x")
    case True
    let ?d = "deleteConsecutive (ivEnd gap) q"
    obtain els2 calls2 where "gap_loop x following (el_remove i els) (fst ?d) = Some (els2, q', calls2)" "calls = snd ?d @ calls2"
      using 2(3) True by (auto simp: case_prod_beta split: option.splits)
    moreover have "mset calls2 + cbs q' = cbs (fst ?d)"
      by (rule 2(1) [OF True refl prod.collapse]) (use calculation 2(2) in \<open>auto simp: deleteConsecutive_distinct\<close>)
    ultimately show ?thesis using deleteConsecutive_cbs [OF 2(2), of "ivEnd gap"] by (simp add: add.assoc)
  qed (use 2(3) in simp)
qed simp

fun loop_balanced :: "'cb multiset \<Rightarrow> 'cb replaced \<Rightarrow> bool" where
  "loop_balanced M RDuplicate \<longleftrightarrow> True"
| "loop_balanced M (RCut q p calls) \<longleftrightarrow> mset calls + cbs q = M"
| "loop_balanced M (RDone q p has calls) \<longleftrightarrow> mset calls + cbs q = M"

lemma loop_balanced_first: "loop_balanced M r \<Longrightarrow> loop_balanced (mset cs + M) (called_first cs r)"
  by (cases r) (auto simp: add.assoc)

lemma replace_loop_cbs: "distinct (map fst q) \<Longrightarrow> loop_balanced (cbs q) (replace_loop end q p has)"
proof (induction "end" q p has rule: replace_loop.induct)
  case (1 "end" q p has)
  show ?case
  proof (cases "map_of q p")
    case (Some e)
    have "loop_balanced (cbs (AList.delete p q)) (replace_loop end (AList.delete p q) (endof p e) True)"
      if "end - p > int (length (eData e)) \<or> (has \<and> end - p = int (length (eData e)))"
      by (rule 1(1) [OF Some refl that]) (simp add: AList.distinct_delete 1(2))
    from loop_balanced_first [OF this, of "cb_list (eDoneCb e)"] show ?thesis
      using Some by (simp add: replace_loop.simps [of "end" q p] cbs_delete [OF 1(2) Some] Let_def)
  qed (simp add: replace_loop.simps [of "end" q p])
qed

lemma gap_set_ge:
  assumes "gaps_ok gs" "x \<in> gap_set gs" shows "ivStart (hd gs) \<le> x"
proof -
  obtain g B where gs: "gs = g # B" using assms(1) by (cases gs) (auto simp: gaps_ok_def)
  obtain z where z: "z \<in> set gs" "ivStart z \<le> x" using assms(2) by (auto simp: gap_set_def)
  have "ivStart g \<le> ivStart z" using z(1) gaps_split(2,4) [of "[]" g B] assms(1) by (fastforce simp: gs)
  then show ?thesis using z(2) by (simp add: gs)
qed

lemma hd_in_gap_set: "gaps_ok gs \<Longrightarrow> ivStart (hd gs) \<in> gap_set gs"
  by (cases gs) (auto simp: gaps_ok_def)

lemma store_frame_ok:
  assumes "sorter_ok f s" "stored_ok f s a b dat els q" "store_frame dat a wasCut cb els q calls s = (err, s', calls')"
  shows "err = None \<and> sorter_ok f s' \<and> gap_set (gaps s') = gap_set (gaps s) - {a..<b} \<and> readPos s' = readPos s \<and>
      mset calls' + cbs (queue s') = mset calls + cbs q + mset (cb_list cb)
    \<or> err = Some TooManyGaps"
proof (cases "length els > MaxStreamFrameSorterGaps")
  case True
  then show ?thesis using assms(3) by (auto simp: store_frame_def Let_def)
next
  case False
  have s: "gaps_ok (gaps s)" "0 \<le> readPos s" "readPos s \<le> ivStart (hd (gaps s))" "queue_ok f (readPos s) (gap_set (gaps s)) (queue s)"
    using assms(1) by (simp_all add: sorter_ok_def)
  note st = assms(2) [unfolded stored_ok_def clean_def]
  define c where "c = (if wasCut \<and> length dat < MinStreamFrameBufferSize then None else cb)"
  have s': "err = None" "s' = s\<lparr>queue := AList.update a \<lparr>eData = dat, eDoneCb = c\<rparr> q, gaps := map snd els\<rparr>"
    using False assms(3) by (auto simp: store_frame_def Let_def c_def)
  have "queue_ok f (readPos s) (gap_set (gaps s) - {a..<b}) (AList.update a \<lparr>eData = dat, eDoneCb = c\<rparr> q)"
    by (rule store_ok [OF s(4)]) (use st in blast)+
  moreover have "readPos s \<le> ivStart (hd (map snd els))"
    using hd_in_gap_set [of "map snd els"] gap_set_ge [OF s(1)] st s(3) by fastforce
  moreover have "map_of q a = None" using st by (simp add: without_def)
  then have "mset calls' + cbs (queue s') = mset calls + cbs q + mset (cb_list cb)"
    using s' False assms(3) by (auto simp: cbs_update c_def store_frame_def Let_def)
  ultimately show ?thesis using st s s' by (simp add: sorter_ok_def)
qed

lemma gaps_ok_replace:
  assumes "gaps_ok (A @ Z @ B)" "Z \<noteq> []" "sorted_wrt (\<lambda>a b. ivEnd a < ivStart b) X"
    and "\<And>x. x \<in> set X \<Longrightarrow> ivStart (hd Z) \<le> ivStart x \<and> ivStart x < ivEnd x \<and> ivEnd x \<le> ivEnd (last Z)"
    and "B = [] \<Longrightarrow> X \<noteq> [] \<and> ivEnd (last X) = ivEnd (last Z)"
  shows "gaps_ok (A @ X @ B)"
proof -
  have z: "hd Z \<in> set Z" "last Z \<in> set Z" using assms(2) by simp_all
  have A: "ivEnd y < ivStart (hd Z)" if "y \<in> set A" for y using assms(1) z(1) that by (auto simp: gaps_ok_def sorted_wrt_append)
  have B: "ivEnd (last Z) < ivStart y" if "y \<in> set B" for y using assms(1) z(2) that by (auto simp: gaps_ok_def sorted_wrt_append)
  have AB: "ivEnd x < ivStart y" if "x \<in> set A" "y \<in> set B" for x y using assms(1) that by (auto simp: gaps_ok_def sorted_wrt_append)
  have ok: "0 \<le> ivStart y \<and> ivStart y < ivEnd y" if "y \<in> set A \<union> set Z \<union> set B" for y using assms(1) that by (auto simp: gaps_ok_def)
  have "0 \<le> ivStart y \<and> ivStart y < ivEnd y" if "y \<in> set (A @ X @ B)" for y
    using ok [of y] ok [of "hd Z"] assms(4) [of y] z(1) that by auto
  moreover have "sorted_wrt (\<lambda>a b. ivEnd a < ivStart b) (A @ X @ B)"
  proof -
    have "sorted_wrt (\<lambda>a b. ivEnd a < ivStart b) A" "sorted_wrt (\<lambda>a b. ivEnd a < ivStart b) B"
      using assms(1) by (simp_all add: sorted_wrt_append gaps_ok_def)
    moreover have "ivEnd x < ivStart y" if "x \<in> set A" "y \<in> set X" for x y
      using A [OF that(1)] assms(4) [OF that(2)] by simp
    moreover have "ivEnd x < ivStart y" if "x \<in> set X" "y \<in> set B" for x y
      using B [OF that(2)] assms(4) [OF that(1)] by simp
    ultimately show ?thesis using assms(3) AB by (auto simp: sorted_wrt_append)
  qed
  moreover have "A @ X @ B \<noteq> [] \<and> ivEnd (last (A @ X @ B)) = MaxByteCount"
    using assms(1,2,5) by (cases "B = []") (auto simp: gaps_ok_def)
  ultimately show ?thesis by (simp add: gaps_ok_def)
qed

lemma gap_set_minus:
  "(\<And>z. z \<in> set A \<Longrightarrow> ivEnd z \<le> a) \<Longrightarrow> gap_set A - {a..<b} = gap_set A"
  "(\<And>z. z \<in> set B \<Longrightarrow> b \<le> ivStart z) \<Longrightarrow> gap_set B - {a..<b} = gap_set B"
  by (force simp: gap_set_def)+

lemma slices:
  assumes "dat = part f s (nat (e - s))"
  shows "s \<le> a \<Longrightarrow> a \<le> e \<Longrightarrow> slice_from dat (a - s) = Some (part f a (nat (e - a)))"
    "s \<le> b \<Longrightarrow> b \<le> e \<Longrightarrow> slice_to dat (b - s) = Some (part f s (nat (b - s)))"
proof -
  assume "s \<le> a" "a \<le> e"
  then have "nat (e - s) - nat (a - s) = nat (e - a)" "s + int (nat (a - s)) = a" by auto
  then show "slice_from dat (a - s) = Some (part f a (nat (e - a)))"
    using \<open>s \<le> a\<close> \<open>a \<le> e\<close> by (simp add: slice_from_def assms drop_part)
next
  assume "s \<le> b" "b \<le> e"
  then show "slice_to dat (b - s) = Some (part f s (nat (b - s)))"
    by (simp add: slice_to_def assms take_part min_def)
qed

text \<open>The data after the cuts of \<open>push\<close>: it runs from \<open>a\<close>, the start or the start of the gap, to \<open>b\<close>.\<close>

lemma cut_front_part:
  assumes "dat = part f start (nat (end - start))" "\<not> startsInGap \<Longrightarrow> start \<le> ivStart g \<and> ivStart g \<le> end"
  shows "\<exists>cut. cut_front startsInGap has g dat start wasCut =
    Some (part f (if startsInGap \<or> has then start else ivStart g) (nat (end - (if startsInGap \<or> has then start else ivStart g))),
      if startsInGap \<or> has then start else ivStart g, cut)"
  using slices(1) [OF assms(1), of "ivStart g"] assms by (auto simp: cut_front_def)

lemma cut_back_part:
  assumes "dat = part f a (nat (end - a))" "endsInGap \<longleftrightarrow> end < e" "a < e"
  shows "\<exists>cut. cut_back endsInGap e dat a end wasCut = Some (part f a (nat (min end e - a)), min end e, cut)"
  using slices(2) [OF assms(1), of e] assms by (auto simp: cut_back_def min_def)

lemma push_rest_same:
  assumes s: "sorter_ok f s" and gs: "gaps s = A @ g # B"
    and dat: "dat = part f start (nat (end - start))"
    and A: "\<forall>z\<in>set A. ivEnd z < start" and B: "\<forall>z\<in>set B. end < ivStart z"
    and pos: "start < ivEnd g" "ivStart g < end" "start < end" "end < MaxByteCount"
    and ins: "startsInGap \<longleftrightarrow> ivStart g \<le> start" "endsInGap \<longleftrightarrow> end < ivEnd g"
    and q: "map_of q = (if has then without start (ivStart g) (map_of (queue s)) else map_of (queue s))" "distinct (map fst q)"
    and has: "has \<longrightarrow> start < ivStart g \<and> readPos s \<le> start \<and> map_of (queue s) start \<noteq> None"
  shows "\<exists>a b cut els calls'. push_rest cb s (length A) startsInGap (length A) endsInGap dat start end False has q calls =
      Some (store_frame (part f a (nat (b - a))) a cut cb els q calls' s) \<and>
    stored_ok f s a b (part f a (nat (b - a))) els q \<and> gap_set (gaps s) - {a..<b} = gap_set (gaps s) - {start..<end} \<and>
    mset calls' + cbs q = mset calls + cbs q"
proof -
  have ok: "gaps_ok (A @ g # B)" "readPos s \<le> ivStart (hd (gaps s))" "queue_ok f (readPos s) (gap_set (gaps s)) (queue s)"
    using s gs by (simp_all add: sorter_ok_def)
  note g = gaps_split [OF ok(1)]
  define a where "a = (if startsInGap \<or> has then start else ivStart g)"
  define b where "b = min end (ivEnd g)"
  have r: "readPos s \<le> ivStart g" using ok(2) g(1,5) gs by (cases A) force+
  have ab: "a < b" "readPos s \<le> a" "b \<le> MaxByteCount" "a < ivEnd g" "a \<le> end" "start \<le> a" "b \<le> end"
    using pos ins has r g(4) by (auto simp: a_def b_def)
  let ?k = "length A"
  let ?X = "List.enumerate 0 A" and ?Y = "List.enumerate (Suc ?k) B"
  have els: "List.enumerate 0 (gaps s) = ?X @ (?k, g) # ?Y" by (simp add: gs enumerate_append_eq)
  have k: "?k \<notin> fst ` set ?X" "?k \<notin> fst ` set ?Y" by (simp_all add: fst_enumerate)
  obtain c1 where c1: "cut_front startsInGap has g dat start False = Some (part f a (nat (end - a)), a, c1)"
    using cut_front_part [OF dat, of startsInGap g has False] ins(1) pos unfolding a_def by auto
  obtain c2 where c2: "cut_back endsInGap (ivEnd g) (part f a (nat (end - a))) a end c1 = Some (part f a (nat (b - a)), b, c2)"
    using cut_back_part [of "part f a (nat (end - a))" f a "end" endsInGap "ivEnd g" c1] ins(2) ab(4) unfolding b_def by blast
  define W where "W = (if a \<le> ivStart g then (if ivEnd g \<le> end then [] else [(?k, g\<lparr>ivStart := end\<rparr>)])
    else (?k, g\<lparr>ivEnd := a\<rparr>) # (if ivEnd g \<le> end then [] else [(length (gaps s), \<lparr>ivStart = end, ivEnd = ivEnd g\<rparr>)]))"
  have na: "\<not> a \<le> ivStart g \<Longrightarrow> \<not> has" using has ins by (auto simp: a_def)
  have "push_rest cb s ?k startsInGap ?k endsInGap dat start end False has q calls =
      Some (store_frame (part f a (nat (b - a))) a c2 cb (?X @ W @ ?Y) q (calls @ []) s)"
    using na ab(4)
    by (simp add: push_rest_def gs nth_append c1 c2 els [unfolded gs] update_startGap_def el_at [OF k] clear_between_def update_endGap_def W_def b_def)
  moreover have "stored_ok f s a b (part f a (nat (b - a))) (?X @ W @ ?Y) q"
  proof -
    have snds: "map snd (?X @ W @ ?Y) = A @ map snd W @ B" by simp
    have "gaps_ok (A @ map snd W @ B)"
      by (rule gaps_ok_replace [of A "[g]" B]) (use ok(1) g(4) ab pos in \<open>auto simp: W_def gaps_ok_def split: if_splits\<close>)
    moreover have "gap_set (map snd (?X @ W @ ?Y)) = gap_set (gaps s) - {a..<b}"
    proof -
      have "{ivStart g..<ivEnd g} - {a..<b} = gap_set (map snd W)"
        using ab g(4) pos by (auto simp: W_def b_def)
      moreover have "gap_set A - {a..<b} = gap_set A" by (rule gap_set_minus(1)) (use A ab(6) in force)
      moreover have "gap_set B - {a..<b} = gap_set B" by (rule gap_set_minus(2)) (use B ab(7) in force)
      ultimately show ?thesis unfolding snds gs by (simp add: Un_Diff Un_assoc)
    qed
    moreover have "map_of q = without a b (map_of (queue s))"
    proof
      fix x
      have "map_of (queue s) x = None" if "ivStart g \<le> x" "x < ivEnd g"
        by (rule no_key_in_gap [OF ok(3)]) (use that gs in auto)
      then show "map_of q x = without a b (map_of (queue s)) x"
        using q(1) has ins pos g(4) by (auto simp: without_def a_def b_def)
    qed
    moreover have "clean (map_of (queue s)) a"
    proof (cases has)
      case True
      then show ?thesis using has ok(3) by (auto simp: a_def queue_ok_def intro: clean_key)
    next
      case False
      then show ?thesis using ins ab(4) by (intro clean_gap [OF ok(3)]) (auto simp: a_def gs)
    qed
    moreover have "clean (map_of (queue s)) b"
      by (rule clean_gap [OF ok(3)]) (use pos g(4) in \<open>auto simp: b_def gs min_def\<close>)
    ultimately show ?thesis using ab q(2) by (simp add: stored_ok_def)
  qed
  moreover have "gap_set (gaps s) - {a..<b} = gap_set (gaps s) - {start..<end}"
  proof -
    have "x \<notin> gap_set (gaps s)" if "start \<le> x" "x < end" "\<not> (a \<le> x \<and> x < b)" for x
    proof -
      have "x \<notin> gap_set A" by (rule gap_set_before) (use A that in force)
      moreover have "x \<notin> gap_set B" by (rule gap_set_after) (use B that in force)
      moreover have "x \<notin> {ivStart g..<ivEnd g}" using that by (auto simp: a_def b_def split: if_splits)
      ultimately show ?thesis by (simp add: gs)
    qed
    then show ?thesis using ab(6,7) by auto
  qed
  moreover have "mset (calls @ []) + cbs q = mset calls + cbs q" by simp
  ultimately show ?thesis by blast
qed

lemma filter_other_ids: "fst ` set Z \<inter> I = {} \<Longrightarrow> filter (\<lambda>e. fst e \<notin> I) Z = Z"
  by (auto intro!: filter_True)

lemma push_rest_apart:
  assumes s: "sorter_ok f s" and gs: "gaps s = A @ g # M @ h # B"
    and dat: "dat = part f start (nat (end - start))"
    and A: "\<forall>z\<in>set A. ivEnd z < start" and B: "\<forall>z\<in>set B. end < ivStart z"
    and pos: "start \<le> ivEnd g" "ivStart h \<le> end" "end < MaxByteCount"
    and ins: "startsInGap \<longleftrightarrow> ivStart g \<le> start" "endsInGap \<longleftrightarrow> end < ivEnd h"
    and q: "distinct (map fst q)"
      "map_of q = (if has then without start (if start < ivStart g then ivStart g else ivStart (hd (M @ [h]))) (map_of (queue s)) else map_of (queue s))"
    and has: "has \<longrightarrow> (start < ivStart g \<or> start = ivEnd g) \<and> readPos s \<le> start \<and> map_of (queue s) start \<noteq> None"
      "\<not> has \<longrightarrow> start < ivEnd g"
    and eg: "eg = Suc (length A + length M)"
  shows "\<exists>a b cut els q' calls'. push_rest cb s (length A) startsInGap eg endsInGap dat start end False has q calls =
      Some (store_frame (part f a (nat (b - a))) a cut cb els q' calls' s) \<and>
    stored_ok f s a b (part f a (nat (b - a))) els q' \<and> gap_set (gaps s) - {a..<b} = gap_set (gaps s) - {start..<end} \<and>
    mset calls' + cbs q' = mset calls + cbs q"
proof -
  let ?m = "map_of (queue s)" and ?n = "hd (M @ [h])" and ?k = "length A"
  have ok: "gaps_ok (gaps s)" "readPos s \<le> ivStart (hd (gaps s))" "queue_ok f (readPos s) (gap_set (gaps s)) (queue s)"
    using s by (simp_all add: sorter_ok_def)
  note g = gaps_split [of A g "M @ h # B", folded gs, OF ok(1)] and h = gaps_split [of "A @ g # M" h B, simplified, folded gs, OF ok(1)]
  obtain B' where gn: "gaps s = A @ g # ?n # B'" using gs by (cases M) auto
  have nh: "ivStart ?n \<le> ivStart h" "ivEnd g < ivStart ?n" "ivEnd g < ivStart h"
    using h(1) [of ?n] h(5) [of ?n] g(2) [of ?n] g(2) [of h] by (cases M; force)+
  define a where "a = (if startsInGap \<or> has then start else ivStart g)"
  define a' where "a' = (if has then start else ivStart g)"
  define b where "b = min end (ivEnd h)"
  have r: "readPos s \<le> ivStart g" using ok(2) g(1,5) gs by (cases A) force+
  have ab: "a < b" "readPos s \<le> a" "b \<le> MaxByteCount" "a \<le> ivEnd g" "a \<le> end" "start \<le> a" "b \<le> end" "a < ivEnd h"
    using pos ins has r g(4) h(4) nh by (auto simp: a_def b_def)
  let ?X = "List.enumerate 0 A" and ?M = "List.enumerate (Suc ?k) M" and ?Y = "List.enumerate (Suc eg) B"
  have els: "List.enumerate 0 (gaps s) = ?X @ (?k, g) # ?M @ (eg, h) # ?Y" by (simp add: gs enumerate_append_eq eg)
  define V where "V = (if a \<le> ivStart g then [] else [(?k, g\<lparr>ivEnd := a\<rparr>)])"
  define W where "W = (if b = ivEnd h then [] else [(eg, h\<lparr>ivStart := b\<rparr>)])"
  have ids: "?k \<notin> fst ` set ?X" "?k \<notin> fst ` set (?M @ (eg, h) # ?Y)" "eg \<notin> fst ` set (?X @ V)" "eg \<notin> fst ` set ?Y"
    by (auto simp: fst_enumerate eg V_def image_Un)
  obtain c1 where c1: "cut_front startsInGap has g dat start False = Some (part f a (nat (end - a)), a, c1)"
    using cut_front_part [OF dat, of startsInGap g has False] ins(1) pos nh g(4) unfolding a_def by auto
  obtain c2 where c2: "cut_back endsInGap (ivEnd h) (part f a (nat (end - a))) a end c1 = Some (part f a (nat (b - a)), b, c2)"
    using cut_back_part [of "part f a (nat (end - a))" f a "end" endsInGap "ivEnd h" c1] ins(2) ab(8) unfolding b_def by blast
  have st: "update_startGap ?k g has a end (List.enumerate 0 (gaps s)) = (?X @ V @ ?M @ (eg, h) # ?Y, \<not> a \<le> ivStart g \<and> \<not> has)"
  proof -
    have "g\<lparr>ivEnd := a\<rparr> = g" if "has" "\<not> a \<le> ivStart g" using has(1) that g(4) by (auto simp: a_def)
    then show ?thesis
      using nh pos unfolding els update_startGap_def el_at [OF ids(1,2)] V_def by auto
  qed
  let ?d = "deleteConsecutive (ivEnd g) q"
  have d: "map_of (fst ?d) = without a' (ivStart ?n) ?m"
  proof (cases "has \<and> \<not> start < ivStart g")
    case True
    then have e: "start = ivEnd g" "map_of q = without (ivEnd g) (ivStart ?n) ?m" using has(1) q(2) by auto
    then have "map_of q (ivEnd g) = None" using nh by (simp add: without_def)
    then show ?thesis using True e by (simp add: a'_def deleteConsecutive.simps [of "ivEnd g" q])
  next
    case False
    show ?thesis
      by (rule delete_after_gap [OF ok(3,1,2) gn]) (use False q(2) in \<open>auto simp: a'_def without_refl\<close>)
  qed
  have "\<exists>q2 calls2. gap_loop (ivStart h) (?M @ (eg, h) # ?Y) (?X @ V @ ?M @ (eg, h) # ?Y) (fst ?d) =
      Some (filter (\<lambda>e. fst e \<notin> fst ` set ?M) (?X @ V @ ?M @ (eg, h) # ?Y), q2, calls2) \<and>
      map_of q2 = without a' (ivStart h) ?m \<and> distinct (map fst q2)"
    by (rule gap_loop_clear [OF ok(3,1,2), of "A @ [g]"])
      (use gs d nh g(4) has q(1) deleteConsecutive_distinct in \<open>auto simp: a'_def\<close>)
  then obtain q2 calls2 where lp: "gap_loop (ivStart h) (?M @ (eg, h) # ?Y) (?X @ V @ ?M @ (eg, h) # ?Y) (fst ?d) =
      Some (filter (\<lambda>e. fst e \<notin> fst ` set ?M) (?X @ V @ ?M @ (eg, h) # ?Y), q2, calls2)"
    "map_of q2 = without a' (ivStart h) ?m" "distinct (map fst q2)" by blast
  have fl: "filter (\<lambda>e. fst e \<notin> fst ` set ?M) (?X @ V @ ?M @ (eg, h) # ?Y) = (?X @ V) @ (eg, h) # ?Y"
  proof -
    have "filter (\<lambda>e. fst e \<notin> fst ` set ?M) ?X = ?X" "filter (\<lambda>e. fst e \<notin> fst ` set ?M) ?Y = ?Y"
      by (rule filter_other_ids; auto simp: fst_enumerate eg)+
    moreover have "filter (\<lambda>e. fst e \<notin> fst ` set ?M) ?M = []" by (auto simp: filter_empty_conv)
    ultimately show ?thesis by (simp add: V_def fst_enumerate eg)
  qed
  have "push_rest cb s ?k startsInGap eg endsInGap dat start end False has q calls =
      Some (store_frame (part f a (nat (b - a))) a c2 cb (?X @ V @ W @ ?Y) q2 (calls @ snd ?d @ calls2) s)"
  proof -
    have n: "gaps s ! ?k = g" "gaps s ! eg = h" "?k \<noteq> eg" by (simp_all add: gs eg nth_append)
    have fol: "drop (Suc ?k) (List.enumerate 0 (gaps s)) = ?M @ (eg, h) # ?Y" unfolding els by simp
    have cb: "clear_between (?k = eg) (ivEnd g) (ivStart h) (?M @ (eg, h) # ?Y) (?X @ V @ ?M @ (eg, h) # ?Y) q =
        Some ((?X @ V) @ (eg, h) # ?Y, q2, snd ?d @ calls2)"
      using lp(1) n(3) unfolding fl by (simp add: clear_between_def case_prod_beta Let_def)
    have ue: "update_endGap ?k eg (ivEnd g) (ivEnd h) adj b fresh ((?X @ V) @ (eg, h) # ?Y) = ?X @ V @ W @ ?Y" for adj fresh
      using n(3) unfolding update_endGap_def el_at [OF ids(3,4)] W_def by simp
    show ?thesis
      unfolding push_rest_def n Let_def c1 option.case prod.case st fol cb c2 ue ..
  qed
  moreover have "stored_ok f s a b (part f a (nat (b - a))) (?X @ V @ W @ ?Y) q2"
  proof -
    have snds: "map snd (?X @ V @ W @ ?Y) = A @ (map snd V @ map snd W) @ B" by simp
    have "gaps_ok (A @ (map snd V @ map snd W) @ B)"
      by (rule gaps_ok_replace [of A "g # M @ [h]" B])
        (use ok(1) gs g(4) h(4) nh ab pos in \<open>auto simp: V_def W_def b_def gaps_ok_def split: if_splits\<close>)
    moreover have "gap_set (map snd (?X @ V @ W @ ?Y)) = gap_set (gaps s) - {a..<b}"
    proof -
      have GV: "{ivStart g..<ivEnd g} - {a..<b} = gap_set (map snd V)" using ab g(4) nh pos h(4) by (auto simp: V_def b_def)
      have GW: "{ivStart h..<ivEnd h} - {a..<b} = gap_set (map snd W)" using ab h(4) nh pos by (auto simp: W_def b_def)
      have GM: "gap_set M - {a..<b} = {}"
      proof -
        have "{ivStart z..<ivEnd z} \<subseteq> {a..<b}" if "z \<in> set M" for z
          using g(2) [of z] h(1) [of z] that ab(4) pos(2) h(4) by (auto simp: b_def)
        then show ?thesis unfolding gap_set_def by blast
      qed
      have GA: "gap_set A - {a..<b} = gap_set A" by (rule gap_set_minus(1)) (use A ab(6) in force)
      have GB: "gap_set B - {a..<b} = gap_set B" by (rule gap_set_minus(2)) (use B ab(7) in force)
      show ?thesis unfolding snds gs gap_set_append gap_set_Cons Un_Diff GV GW GM GA GB by blast
    qed
    moreover have "map_of q2 = without a b ?m"
    proof
      fix x
      have "?m x = None" if "ivStart g \<le> x \<and> x < ivEnd g \<or> ivStart h \<le> x \<and> x < ivEnd h"
        by (rule no_key_in_gap [OF ok(3)]) (use that gs in auto)
      then show "map_of q2 x = without a b ?m x"
        using lp(2) has ins pos g(4) h(4) nh by (auto simp: without_def a_def a'_def b_def)
    qed
    moreover have "clean ?m a"
    proof (cases has)
      case True
      then show ?thesis using has ok(3) by (auto simp: a_def queue_ok_def intro: clean_key)
    next
      case False
      then show ?thesis using ins g(4) has(2) by (intro clean_gap [OF ok(3)]) (auto simp: a_def gs)
    qed
    moreover have "clean ?m b"
      by (rule clean_gap [OF ok(3)]) (use pos h(4) in \<open>auto simp: b_def gs min_def\<close>)
    ultimately show ?thesis using ab lp(3) by (simp add: stored_ok_def)
  qed
  moreover have "gap_set (gaps s) - {a..<b} = gap_set (gaps s) - {start..<end}"
  proof -
    have "x \<notin> gap_set (gaps s)" if "start \<le> x" "x < end" "\<not> (a \<le> x \<and> x < b)" for x
    proof -
      have "x \<notin> gap_set A" by (rule gap_set_before) (use A that in force)
      moreover have "x \<notin> gap_set B" by (rule gap_set_after) (use B that in force)
      moreover have x: "x < ivStart g \<or> ivEnd h \<le> x" using that by (auto simp: a_def b_def split: if_splits)
      moreover have "x \<notin> gap_set M" using x
      proof
        assume "x < ivStart g"
        then show ?thesis using g(2,4) by (intro gap_set_after) force
      next
        assume "ivEnd h \<le> x"
        then show ?thesis using h(1,4) by (intro gap_set_before) force
      qed
      ultimately show ?thesis using g(4) h(4) nh by (auto simp: gs)
    qed
    then show ?thesis using ab(6,7) by auto
  qed
  moreover have "mset (calls @ snd ?d @ calls2) + cbs q2 = mset calls + cbs q"
    using gap_loop_cbs [OF _ lp(1)] deleteConsecutive_cbs [OF q(1), of "ivEnd g"] deleteConsecutive_distinct [OF q(1)]
    by (simp add: add.assoc)
  ultimately show ?thesis by blast
qed

text \<open>A frame that starts right after a gap and ends before the next one replaces queued frames or is a duplicate; the
  gaps stay as they are.\<close>

lemma push_rest_extend:
  assumes s: "sorter_ok f s" and gs: "gaps s = A @ g # B" and B: "\<forall>z\<in>set B. end < ivStart z"
    and p: "ivEnd g < p" "p \<le> end" "end < MaxByteCount"
    and m: "map_of (queue s) (ivEnd g) \<noteq> None" "map_of (queue s) p \<noteq> None"
    and q: "map_of q = without (ivEnd g) p (map_of (queue s))" "distinct (map fst q)"
    and dat: "dat = part f (ivEnd g) (nat (p - ivEnd g))"
  shows "\<exists>cut els. push_rest cb s (length A) True (length A) False dat (ivEnd g) p True True q calls =
      Some (store_frame dat (ivEnd g) cut cb els q calls s) \<and> stored_ok f s (ivEnd g) p dat els q \<and>
    gap_set (gaps s) - {ivEnd g..<p} = gap_set (gaps s) - {ivEnd g..<end}"
proof -
  have ok: "gaps_ok (A @ g # B)" "readPos s \<le> ivStart (hd (gaps s))" "queue_ok f (readPos s) (gap_set (gaps s)) (queue s)"
    using s gs by (simp_all add: sorter_ok_def)
  note g = gaps_split [OF ok(1)]
  have r: "readPos s \<le> ivStart g" using ok(2) g(1,5) gs by (cases A) force+
  have "push_rest cb s (length A) True (length A) False dat (ivEnd g) p True True q calls =
      Some (store_frame dat (ivEnd g) True cb (List.enumerate 0 (gaps s)) q (calls @ []) s)"
    using g(4) p by (simp add: push_rest_def gs nth_append cut_front_def update_startGap_def clear_between_def cut_back_def update_endGap_def)
  moreover have n: "x \<notin> gap_set (gaps s)" if "ivEnd g \<le> x" "x < end" for x
  proof -
    have "x \<notin> gap_set A" by (rule gap_set_before) (use g(1,4) that in force)
    moreover have "x \<notin> gap_set B" by (rule gap_set_after) (use B that in force)
    ultimately show ?thesis using that by (simp add: gs)
  qed
  moreover have "stored_ok f s (ivEnd g) p dat (List.enumerate 0 (gaps s)) q"
  proof -
    have "clean (map_of (queue s)) (ivEnd g)" "clean (map_of (queue s)) p"
      using m ok(3) by (auto simp: queue_ok_def intro: clean_key)
    moreover have "gap_set (gaps s) - {ivEnd g..<p} = gap_set (gaps s)" using n p by force
    ultimately show ?thesis using p q dat ok(1) g(4) r by (simp add: stored_ok_def gs)
  qed
  moreover have "gap_set (gaps s) - {ivEnd g..<p} = gap_set (gaps s) - {ivEnd g..<end}" using n p by force
  ultimately show ?thesis by auto
qed

text \<open>Where the replacing loop stops: at the next gap, which starts at \<open>x\<close>, or inside the frames before it.\<close>

lemma loop_stops:
  assumes "queue_ok f r G q" "start < end" "end < MaxByteCount" "start < x" "x \<in> G" "{start..<x} \<inter> G = {}"
  shows "replace_loop end q start False = RDone q' p True calls \<Longrightarrow>
      p = x \<and> x \<le> end \<and> map_of q' = without start x (map_of q) \<and> distinct (map fst q') \<and> map_of q start \<noteq> None \<and> r \<le> start"
    and "replace_loop end q start False = RDone q' p False calls \<Longrightarrow> q' = q \<and> map_of q start = None"
    and "replace_loop end q start False = RCut q' p calls \<Longrightarrow>
      end < x \<and> start < p \<and> p \<le> end \<and> map_of q' = without start p (map_of q) \<and> distinct (map fst q') \<and>
      map_of q start \<noteq> None \<and> map_of q p \<noteq> None \<and> r \<le> start"
proof -
  let ?m = "map_of q"
  have ok: "apart ?m" "distinct (map fst q)" "covered ?m = {r..<MaxByteCount} - G" using assms(1) by (simp_all add: queue_ok_def)
  note post = replace_loop_post [OF ok(1,2), of start "end" False]
  have key: "?m start \<noteq> None" "r \<le> start" if h: "tiled ?m start p" "start < p" for p
  proof -
    obtain d where d: "?m start = Some d" using tiled_first [OF h] by blast
    then show "?m start \<noteq> None" by simp
    have "start \<in> {start..<endof start d}" using apartD(1) [OF ok(1) d] by simp
    then have "start \<in> covered ?m" using entry_covered [of ?m, OF d] by blast
    then show "r \<le> start" using ok(3) by auto
  qed
  show "p = x \<and> x \<le> end \<and> map_of q' = without start x ?m \<and> distinct (map fst q') \<and> ?m start \<noteq> None \<and> r \<le> start"
    if l: "replace_loop end q start False = RDone q' p True calls"
  proof -
    have t: "tiled ?m start p" "p \<le> end" "start < p" "?m p = None" "map_of q' = without start p ?m" "distinct (map fst q')"
      using post assms(2) unfolding l replace_post_def by auto
    have "p \<in> G" using tiled_stop [OF ok(1) t(1,3,4)] key(2) [OF t(1,3)] ok(3) t(2,3) assms(3) by auto
    then have "p \<notin> {start..<x}" using assms(6) by blast
    then have "x \<le> p" using t(3) by simp
    moreover have "x \<notin> {start..<p}" using tiled_covered [OF t(1)] ok(3) assms(5) by auto
    then have "p \<le> x" using assms(4) by simp
    ultimately have "p = x" by simp
    then show ?thesis using t key [OF t(1,3)] by simp
  qed
  show "q' = q \<and> ?m start = None" if l: "replace_loop end q start False = RDone q' p False calls"
  proof -
    have "?m start = None" using post assms(2) unfolding l replace_post_def by (auto simp: tiled_def)
    then show ?thesis using l by (simp add: replace_loop.simps [of "end" q start])
  qed
  show "end < x \<and> start < p \<and> p \<le> end \<and> map_of q' = without start p ?m \<and> distinct (map fst q') \<and> ?m start \<noteq> None \<and> ?m p \<noteq> None \<and> r \<le> start"
    if l: "replace_loop end q start False = RCut q' p calls"
  proof -
    obtain d where t: "tiled ?m start p" "p \<le> end" "start < p" "?m p = Some d" "end < endof p d" "map_of q' = without start p ?m" "distinct (map fst q')"
      using post assms(2) unfolding l replace_post_def by auto
    have "x \<notin> {start..<p}" using tiled_covered [OF t(1)] ok(3) assms(5) by auto
    moreover have "x \<notin> {p..<endof p d}" using entry_covered [of ?m, OF t(4)] ok(3) assms(5) by auto
    ultimately have "end < x" using assms(4) t(5) by simp
    then show ?thesis using t key [OF t(1,3)] by simp
  qed
qed

section \<open>The outcome of a push\<close>

definition push_outcome :: "(ByteCount \<Rightarrow> byte) \<Rightarrow> 'cb frameSorter \<Rightarrow> 'cb option \<Rightarrow> ByteCount \<Rightarrow> ByteCount
    \<Rightarrow> (sorter_error option \<times> 'cb frameSorter \<times> 'cb list) option \<Rightarrow> bool" where
  "push_outcome f s cb a e r \<longleftrightarrow>
     (\<exists>err s' calls. r = Some (err, s', calls) \<and>
        (err = None \<and> sorter_ok f s' \<and> gap_set (gaps s') = gap_set (gaps s) - {a..<e} \<and> readPos s' = readPos s \<and>
           mset calls + cbs (queue s') = cbs (queue s) + mset (cb_list cb) \<or>
         err = Some DuplicateStreamData \<and> s' = s \<and> calls = [] \<and> {a..<e} \<inter> gap_set (gaps s) = {} \<or>
         err = Some TooManyGaps))"

lemma stored_outcome:
  assumes "sorter_ok f s" "\<exists>a b cut els q calls. r = Some (store_frame (part f a (nat (b - a))) a cut cb els q calls s) \<and>
      stored_ok f s a b (part f a (nat (b - a))) els q \<and> gap_set (gaps s) - {a..<b} = gap_set (gaps s) - {start..<end} \<and>
      mset calls + cbs q = cbs (queue s)"
  shows "push_outcome f s cb start end r"
proof -
  obtain a b cut els q calls where r: "r = Some (store_frame (part f a (nat (b - a))) a cut cb els q calls s)"
    "stored_ok f s a b (part f a (nat (b - a))) els q" "gap_set (gaps s) - {a..<b} = gap_set (gaps s) - {start..<end}"
    "mset calls + cbs q = cbs (queue s)" using assms(2) by blast
  obtain err s' calls' where st: "store_frame (part f a (nat (b - a))) a cut cb els q calls s = (err, s', calls')" by (metis prod_cases3)
  show ?thesis using store_frame_ok [OF assms(1) r(2) st] r(1,3,4) st unfolding push_outcome_def by auto
qed

lemma duplicate_outcome:
  "{a..<e} \<inter> gap_set (gaps s) = {} \<Longrightarrow> push_outcome f s cb a e (Some (Some DuplicateStreamData, s, []))"
  by (simp add: push_outcome_def)

lemma loop_duplicate:
  assumes "queue_ok f r G q" "start < end" "replace_loop end q start False = RDuplicate"
  shows "{start..<end} \<inter> G = {}" "map_of q start \<noteq> None"
proof -
  have ok: "apart (map_of q)" "distinct (map fst q)" "covered (map_of q) = {r..<MaxByteCount} - G" using assms(1) by (simp_all add: queue_ok_def)
  obtain d where d: "map_of q start = Some d" "end \<le> endof start d"
    using replace_loop_post [OF ok(1,2), of start "end" False] assms(2) unfolding assms(3) replace_post_def by auto
  have "{start..<end} \<subseteq> {start..<endof start d}" using d(2) by auto
  then have "{start..<end} \<subseteq> covered (map_of q)" using entry_covered [of "map_of q", OF d(1)] by blast
  then show "{start..<end} \<inter> G = {}" using ok(3) by blast
  show "map_of q start \<noteq> None" using d(1) by simp
qed

lemma loop_in_gap:
  assumes "map_of q start = None" shows "replace_loop end q start False = RDone q start False []"
  using assms by (simp add: replace_loop.simps [of "end" q start])

lemma key_after_gap:
  assumes "queue_ok f r (gap_set gs) q" "gaps_ok gs" "r \<le> ivStart (hd gs)" "gs = A @ g # n # B"
  shows "map_of q (ivEnd g) \<noteq> None" "ivEnd g < ivStart n" "ivStart n \<in> gap_set gs" "{ivEnd g..<ivStart n} \<inter> gap_set gs = {}"
proof -
  note t = between_tiled(1) [OF assms]
  show l: "ivEnd g < ivStart n" using gaps_split(2) [of A g "n # B"] assms(2,4) by simp
  then show "map_of q (ivEnd g) \<noteq> None" using tiled_first [OF t] by auto
  show "ivStart n \<in> gap_set gs" using gaps_split(4) [of "A @ [g]" n B] assms(2,4) by simp
  have "covered (map_of q) \<inter> gap_set gs = {}" using assms(1) by (auto simp: queue_ok_def)
  then show "{ivEnd g..<ivStart n} \<inter> gap_set gs = {}" using tiled_covered [OF t] by blast
qed

lemma before_gap_free:
  assumes "gaps_ok (A @ g # B)" "\<And>z. z \<in> set A \<Longrightarrow> ivEnd z < start" shows "{start..<ivStart g} \<inter> gap_set (A @ g # B) = {}"
proof -
  have "x \<notin> gap_set (A @ g # B)" if x: "start \<le> x" "x < ivStart g" for x
  proof -
    have "x \<notin> gap_set A" by (rule gap_set_before) (use assms(2) x in force)
    moreover have "x \<notin> gap_set B" by (rule gap_set_after) (use gaps_split(2,4) [OF assms(1)] x in force)
    ultimately show ?thesis using x by simp
  qed
  then show ?thesis by auto
qed

lemma push_found_same:
  assumes s: "sorter_ok f s" and gs: "gaps s = A @ g # B" and "dat = part f start n" "0 < n" and e: "end = start + int n"
    and A: "\<forall>z\<in>set A. ivEnd z < start" and B: "\<forall>z\<in>set B. end < ivStart z"
    and pos: "start \<le> ivEnd g" "ivStart g < end" "end < MaxByteCount"
    and ins: "startsInGap \<longleftrightarrow> ivStart g \<le> start" "endsInGap \<longleftrightarrow> end < ivEnd g"
  shows "push_outcome f s cb start end (push_found dat start cb s (length A) startsInGap (length A) endsInGap)"
proof -
  let ?q = "queue s" and ?k = "length A"
  have ok: "gaps_ok (gaps s)" "readPos s \<le> ivStart (hd (gaps s))" "queue_ok f (readPos s) (gap_set (gaps s)) ?q"
    using s by (simp_all add: sorter_ok_def)
  have ds: "distinct (map fst ?q)" using ok(3) by (simp add: queue_ok_def)
  have l: "start < end" "int (length dat) = end - start" "dat = part f start (nat (end - start))" using assms(3,4) e by simp_all
  have g: "ivStart g < ivEnd g" using gaps_split(4) [of A g B] ok(1) gs by simp
  have same: "push_outcome f s cb start end (push_rest cb s ?k startsInGap ?k endsInGap dat start end False has q calls)"
    if "start < ivEnd g" "map_of q = (if has then without start (ivStart g) (map_of ?q) else map_of ?q)" "distinct (map fst q)"
      "has \<longrightarrow> start < ivStart g \<and> readPos s \<le> start \<and> map_of ?q start \<noteq> None" "mset calls + cbs q = cbs ?q" for q has calls
    by (rule stored_outcome [OF s])
      (use push_rest_same [OF s gs l(3) A B that(1) pos(2) l(1) pos(3) ins that(2-4), of cb calls, unfolded that(5)] in blast)
  have bal: "loop_balanced (cbs ?q) (replace_loop end ?q start False)" by (rule replace_loop_cbs [OF ds])
  have dup: ?thesis if "replace_loop end ?q start False = RDuplicate"
    using loop_duplicate(1) [OF ok(3) l(1) that] that l(2) duplicate_outcome by (simp add: push_found_def)
  have fin: ?thesis if "replace_loop end ?q start False = RDone q p has calls"
    "push_outcome f s cb start end (push_rest cb s ?k startsInGap ?k endsInGap dat start end False has q calls)" for q p has calls
    using that l(2) by (simp add: push_found_def)
  consider "start < ivStart g" | "ivStart g \<le> start" "start < ivEnd g" | "start = ivEnd g" using pos(1) by linarith
  then show ?thesis
  proof cases
    case 1
    have gg: "ivStart g \<in> gap_set (gaps s)" "{start..<ivStart g} \<inter> gap_set (gaps s) = {}"
      using g before_gap_free [of A g B start] ok(1) A by (auto simp: gs)
    note st = loop_stops [OF ok(3) l(1) pos(3) 1 gg]
    have sg: "start < ivEnd g" using 1 g by simp
    show ?thesis
    proof (cases "replace_loop end ?q start False")
      case RDuplicate
      then show ?thesis by (rule dup)
    next
      case (RCut q p calls)
      then show ?thesis using st(3) pos(2) by fastforce
    next
      case (RDone q p has calls)
      have "map_of q = (if has then without start (ivStart g) (map_of ?q) else map_of ?q) \<and> distinct (map fst q) \<and>
          (has \<longrightarrow> start < ivStart g \<and> readPos s \<le> start \<and> map_of ?q start \<noteq> None)"
        using st(1) [of q p calls] st(2) [of q p calls] RDone 1 ds by (cases has) auto
      moreover have "mset calls + cbs q = cbs ?q" using bal RDone by simp
      ultimately show ?thesis using same [OF sg, of q has calls] by (intro fin [OF RDone]) blast
    qed
  next
    case 2
    have "map_of ?q start = None" by (rule no_key_in_gap [OF ok(3)]) (use 2 in \<open>simp add: gs\<close>)
    then show ?thesis using same [OF 2(2), of ?q False "[]"] ds by (intro fin [OF loop_in_gap]) simp_all
  next
    case 3
    have "B \<noteq> []" using ok(1) pos(3) l(1) 3 by (auto simp: gs gaps_ok_def)
    then obtain n' B' where B': "B = n' # B'" by (cases B) auto
    note ka = key_after_gap [OF ok(3,1,2) gs [unfolded B']]
    note st = loop_stops [OF ok(3) l(1) pos(3), unfolded 3, OF ka(2,3,4)]
    have en: "end < ivStart n'" using B B' by simp
    show ?thesis
    proof (cases "replace_loop end ?q start False")
      case RDuplicate
      then show ?thesis by (rule dup)
    next
      case (RDone q p has calls)
      then show ?thesis using st(1) [of q p calls] st(2) [of q p calls] ka(1) en 3 by (cases has) auto
    next
      case (RCut q p calls)
      note t = st(3) [OF RCut [unfolded 3]]
      have sl: "slice_to dat (p - start) = Some (part f (ivEnd g) (nat (p - ivEnd g)))"
        using slices(2) [OF l(3), of p] t 3 by simp
      have ns: "startsInGap" "\<not> endsInGap" using ins 3 l(1) g by auto
      have pp: "ivEnd g < p" "p \<le> end" "map_of q = without (ivEnd g) p (map_of ?q)" "distinct (map fst q)"
        "map_of ?q (ivEnd g) \<noteq> None" "map_of ?q p \<noteq> None" using t by simp_all
      have "mset calls + cbs q = cbs ?q" using bal RCut by simp
      then have "push_outcome f s cb start end (push_rest cb s ?k True ?k False (part f (ivEnd g) (nat (p - ivEnd g))) (ivEnd g) p True True q calls)"
        using push_rest_extend [OF s gs B pp(1,2) pos(3) pp(5,6,3,4) refl, of cb calls] unfolding 3
        by (intro stored_outcome [OF s]) blast
      then show ?thesis using RCut e l(2) sl ns 3 by (simp add: push_found_def)
    qed
  qed
qed

lemma push_found_apart:
  assumes s: "sorter_ok f s" and gs: "gaps s = A @ g # M @ h # B" and "dat = part f start n" "0 < n" and e: "end = start + int n"
    and A: "\<forall>z\<in>set A. ivEnd z < start" and B: "\<forall>z\<in>set B. end < ivStart z"
    and pos: "start \<le> ivEnd g" "ivStart h \<le> end" "end < MaxByteCount"
    and ins: "startsInGap \<longleftrightarrow> ivStart g \<le> start" "endsInGap \<longleftrightarrow> end < ivEnd h" and eg: "eg = Suc (length A + length M)"
  shows "push_outcome f s cb start end (push_found dat start cb s (length A) startsInGap eg endsInGap)"
proof -
  let ?q = "queue s" and ?k = "length A" and ?n = "hd (M @ [h])"
  let ?x = "if start < ivStart g then ivStart g else ivStart ?n"
  have ok: "gaps_ok (gaps s)" "readPos s \<le> ivStart (hd (gaps s))" "queue_ok f (readPos s) (gap_set (gaps s)) ?q"
    using s by (simp_all add: sorter_ok_def)
  have ds: "distinct (map fst ?q)" using ok(3) by (simp add: queue_ok_def)
  have l: "start < end" "int (length dat) = end - start" "dat = part f start (nat (end - start))" using assms(3,4) e by simp_all
  note g = gaps_split [of A g "M @ h # B", folded gs, OF ok(1)] and h = gaps_split [of "A @ g # M" h B, simplified, folded gs, OF ok(1)]
  obtain B' where gn: "gaps s = A @ g # ?n # B'" using gs by (cases M) auto
  have nh: "ivStart ?n \<le> ivStart h" "ivEnd g < ivStart ?n"
    using h(1) [of ?n] h(5) [of ?n] g(2) [of ?n] g(2) [of h] by (cases M; force)+
  have rest: "push_outcome f s cb start end (push_rest cb s ?k startsInGap eg endsInGap dat start end False has q calls)"
    if "distinct (map fst q)" "map_of q = (if has then without start ?x (map_of ?q) else map_of ?q)"
      "has \<longrightarrow> (start < ivStart g \<or> start = ivEnd g) \<and> readPos s \<le> start \<and> map_of ?q start \<noteq> None"
      "\<not> has \<longrightarrow> start < ivEnd g" "mset calls + cbs q = cbs ?q" for q has calls
    by (rule stored_outcome [OF s]) (use push_rest_apart [OF s gs l(3) A B pos ins that(1-4) eg, of cb calls, unfolded that(5)] in blast)
  have bal: "loop_balanced (cbs ?q) (replace_loop end ?q start False)" by (rule replace_loop_cbs [OF ds])
  have fin: ?thesis if "replace_loop end ?q start False = RDone q p has calls"
    "push_outcome f s cb start end (push_rest cb s ?k startsInGap eg endsInGap dat start end False has q calls)" for q p has calls
    using that l(2) by (simp add: push_found_def)
  show ?thesis
  proof (cases "ivStart g \<le> start \<and> start < ivEnd g")
    case True
    then have "map_of ?q start = None" by (intro no_key_in_gap [OF ok(3)]) (simp add: gs)
    then show ?thesis using rest [of ?q False "[]"] ds True by (intro fin [OF loop_in_gap]) simp_all
  next
    case False
    have x: "start < ?x" "?x \<le> end" "?x \<in> gap_set (gaps s)" "{start..<?x} \<inter> gap_set (gaps s) = {}"
    proof -
      have c: "start < ivStart g \<or> start = ivEnd g" using False pos(1) by auto
      note ka = key_after_gap [OF ok(3,1,2) gn]
      have b: "{start..<ivStart g} \<inter> gap_set (gaps s) = {}" unfolding gs
        by (rule before_gap_free) (use ok(1) gs A in auto)
      show "start < ?x" "?x \<le> end" using c nh g(4) pos by auto
      show "?x \<in> gap_set (gaps s)" using g(4) ka(3) by (simp add: gs)
      show "{start..<?x} \<inter> gap_set (gaps s) = {}" using c b ka(4) by (cases "start < ivStart g") auto
    qed
    note st = loop_stops [OF ok(3) l(1) pos(3) x(1,3,4)]
    show ?thesis
    proof (cases "replace_loop end ?q start False")
      case RDuplicate
      then show ?thesis
        using loop_duplicate(1) [OF ok(3) l(1) RDuplicate] l(2) duplicate_outcome by (simp add: push_found_def)
    next
      case (RCut q p calls)
      then show ?thesis using st(3) x(2) by fastforce
    next
      case (RDone q p has calls)
      have c: "start < ivStart g \<or> start = ivEnd g" using False pos(1) by auto
      have nk: "map_of ?q start \<noteq> None" if "start = ivEnd g" using key_after_gap(1) [OF ok(3,1,2) gn] that by simp
      have "distinct (map fst q) \<and> map_of q = (if has then without start ?x (map_of ?q) else map_of ?q) \<and>
          (has \<longrightarrow> (start < ivStart g \<or> start = ivEnd g) \<and> readPos s \<le> start \<and> map_of ?q start \<noteq> None) \<and> (\<not> has \<longrightarrow> start < ivEnd g)"
      proof (cases has)
        case True
        then have "replace_loop end ?q start False = RDone q p True calls" using RDone by simp
        from st(1) [OF this] show ?thesis using c True by auto
      next
        case False
        then have "replace_loop end ?q start False = RDone q p False calls" using RDone by simp
        from st(2) [OF this] show ?thesis using c False ds nk g(4) by auto
      qed
      moreover have "mset calls + cbs q = cbs ?q" using bal RDone by simp
      ultimately show ?thesis using rest [of q has calls] by (intro fin [OF RDone]) blast
    qed
  qed
qed

theorem push_ok:
  assumes s: "sorter_ok f s" and d: "dat = part f start n" and e: "end = start + int n" "end < MaxByteCount"
  shows "push_outcome f s cb start end (push dat start cb s)"
proof -
  have ok: "gaps_ok (gaps s)" using s by (simp add: sorter_ok_def)
  show ?thesis
  proof (cases "n = 0 \<or> end \<le> ivStart (hd (gaps s))")
    case True
    have "{start..<end} \<inter> gap_set (gaps s) = {}" using True gap_set_ge [OF ok] e by fastforce
    moreover have "push dat start cb s = Some (Some DuplicateStreamData, s, [])"
      using True ok d e by (cases "gaps s") (auto simp: push_def gaps_ok_def part_def)
    ultimately show ?thesis by (simp add: duplicate_outcome)
  next
    case False
    then have n: "0 < n" "start < end" "\<not> end \<le> ivStart (hd (gaps s))" "dat \<noteq> []" "int (length dat) = int n" using e d by (auto simp: part_def)
    have la: "gaps s \<noteq> []" "ivEnd (last (gaps s)) = MaxByteCount" using ok by (auto simp: gaps_ok_def)
    obtain A g B b where gs: "gaps s = A @ g # B" and fs: "findStartGap 0 (gaps s) start = Some (0 + length A, b)"
      and A: "\<And>z. z \<in> set A \<Longrightarrow> ivEnd z < start" and b: "if b then ivStart g \<le> start \<and> start \<le> ivEnd g else start < ivStart g"
      by (rule findStartGap_split [of "gaps s" start 0]) (use la e n in auto)
    note g = gaps_split [of A g B, folded gs, OF ok]
    have sg: "start \<le> ivEnd g" "b \<longleftrightarrow> ivStart g \<le> start" using b g(4) by (auto split: if_splits)
    have A': "\<forall>z\<in>set A. ivEnd z < start" using A by blast
    have free: "{start..<ivStart g} \<inter> gap_set (gaps s) = {}" unfolding gs by (rule before_gap_free) (use ok gs A in auto)
    have dup: "push_outcome f s cb start end (Some (Some DuplicateStreamData, s, []))" if "end \<le> ivStart g"
      by (rule duplicate_outcome) (use free that in fastforce)
    note same = push_found_same [OF s gs d n(1) e(1) A' _ sg(1) _ e(2) sg(2)]
    have p: "push dat start cb s = (case findEndGap (length A) (g # B) end of
          None \<Rightarrow> None | Some (None, endsInGap) \<Rightarrow> None
        | Some (Some eg, endsInGap) \<Rightarrow>
            if length A = eg \<and> end \<le> ivStart g \<or> length A \<noteq> eg \<and> ivEnd g \<ge> ivStart (gaps s ! eg) \<and> end \<le> ivStart g
            then Some (Some DuplicateStreamData, s, []) else push_found dat start cb s (length A) b eg endsInGap)"
    proof -
      have "gaps s ! length A = g" "drop (length A) (gaps s) = g # B" "start + int (length dat) = end" using gs n(5) e(1) by simp_all
      then show ?thesis using n(3,4) fs la(1) unfolding push_def Let_def
        by (simp add: list.case_eq_if split del: if_split del: findEndGap.simps cong: option.case_cong prod.case_cong)
    qed
    show ?thesis
    proof (rule findEndGap_split [of "g # B" "end" "length A"])
      show "g # B \<noteq> []" "end < ivEnd (last (g # B))" using la e(2) gs by auto
    next
      fix A2 h B2
      assume h: "g # B = A2 @ h # B2" "ivStart h \<le> end" "end < ivEnd h"
        and fe: "findEndGap (length A) (g # B) end = Some (Some (length A + length A2), True)"
      have B2: "\<forall>z\<in>set B2. end < ivStart z" using gaps_split(2) [of "A @ A2" h B2] ok gs h by force
      show ?thesis
      proof (cases A2)
        case Nil
        then show ?thesis using p fe h dup same [of True cb] B2 by auto
      next
        case (Cons a M)
        then have M: "gaps s = A @ g # M @ h # B2" "length A2 = Suc (length M)" using h(1) gs by auto
        have lt: "\<not> ivStart h \<le> ivEnd g" using g(2) [of h] h(1) Cons by auto
        have nth: "gaps s ! (length A + length A2) = h" using M by (simp add: nth_append)
        show ?thesis
          using push_found_apart [OF s M(1) d n(1) e(1) A' B2 sg(1) h(2) e(2) sg(2) _ refl, of True cb] h(3) p fe lt nth M(2) by simp
      qed
    next
      fix A2 h B2
      assume h: "g # B = A2 @ h # B2" "\<And>z. z \<in> set A2 \<Longrightarrow> ivEnd z \<le> end" "end < ivStart h"
        and fe: "findEndGap (length A) (g # B) end = Some (case length A + length A2 of 0 \<Rightarrow> None | Suc j \<Rightarrow> Some j, False)"
      have B2: "\<forall>z\<in>set (h # B2). end < ivStart z"
        using gaps_split(2,4) [of "A @ A2" h B2] ok gs h by force
      show ?thesis
      proof (cases A2 rule: rev_cases)
        case Nil
        then have e': "end < ivStart g" using h by simp
        then have "A \<noteq> []" using n(3) gs by auto
        then obtain j where j: "length A = Suc j" by (cases A) auto
        have "A ! j \<in> set A" using j by simp
        then have "ivStart (gaps s ! j) \<le> ivEnd g"
          using g(1) [of "A ! j"] g(5) [of "A ! j"] g(4) j by (simp add: gs nth_append)
        then show ?thesis using p fe e' dup j Nil by simp
      next
        case (snoc M h')
        show ?thesis
        proof (cases M)
          case Nil
          then have g': "g = h'" "B = h # B2" "length A2 = 1" "ivEnd g \<le> end" using snoc h by auto
          then show ?thesis using p fe same [of False cb] B2 g(4) by simp
        next
          case (Cons a M')
          then have M: "gaps s = A @ g # M' @ h' # h # B2" "length A2 = Suc (Suc (length M'))" "a = g" using snoc h(1) gs by auto
          have h': "ivStart h' < ivEnd h'" "ivEnd h' \<le> end" "ivEnd g < ivStart h'"
            using g(5) [of h'] g(2) [of h'] h(2) [of h'] M(1) gs snoc by auto
          have nth: "gaps s ! Suc (length A + length M') = h'" using M by (simp add: nth_append)
          have hs: "ivStart h' \<le> end" using h' by simp
          show ?thesis
            using push_found_apart [OF s M(1) d n(1) e(1) A' B2 sg(1) hs e(2) sg(2) _ refl, of False cb] p fe h' nth M(2) by simp
        qed
      qed
    qed
  qed
qed

section \<open>Pop\<close>

lemma Push_ok:
  assumes "sorter_ok f s" "dat = part f off (length dat)" "off + int (length dat) < MaxByteCount"
  shows "\<exists>err s' calls. Push dat off cb s = Some (err, s', calls) \<and>
     (err = None \<and> sorter_ok f s' \<and> gap_set (gaps s') = gap_set (gaps s) - {off..<off + int (length dat)} \<and> readPos s' = readPos s \<and>
        mset calls + cbs (queue s') = cbs (queue s) + mset (cb_list cb) \<or>
      err = Some TooManyGaps)"
proof -
  obtain err s' calls where p: "push dat off cb s = Some (err, s', calls)"
    and o: "err = None \<and> sorter_ok f s' \<and> gap_set (gaps s') = gap_set (gaps s) - {off..<off + int (length dat)} \<and> readPos s' = readPos s \<and>
        mset calls + cbs (queue s') = cbs (queue s) + mset (cb_list cb) \<or>
      err = Some DuplicateStreamData \<and> s' = s \<and> calls = [] \<and> {off..<off + int (length dat)} \<inter> gap_set (gaps s) = {} \<or>
      err = Some TooManyGaps"
    using push_ok [OF assms(1,2) refl assms(3), of cb] unfolding push_outcome_def by blast
  from o show ?thesis
  proof (elim disjE)
    assume d: "err = Some DuplicateStreamData \<and> s' = s \<and> calls = [] \<and> {off..<off + int (length dat)} \<inter> gap_set (gaps s) = {}"
    then have "gap_set (gaps s) - {off..<off + int (length dat)} = gap_set (gaps s)" by blast
    then show ?thesis using p d assms(1) by (simp add: Push_def add.commute)
  qed (use p in \<open>auto simp: Push_def\<close>)
qed

lemma Pop_ok:
  assumes s: "sorter_ok f s"
  shows "\<exists>dat cb s'. Pop s = Some ((readPos s, dat, cb), s') \<and> sorter_ok f s' \<and> dat = part f (readPos s) (length dat) \<and>
     readPos s' = readPos s + int (length dat) \<and> gaps s' = gaps s \<and> (dat = [] \<longleftrightarrow> readPos s \<in> gap_set (gaps s)) \<and>
     cbs (queue s') + mset (cb_list cb) = cbs (queue s)"
proof -
  let ?r = "readPos s" and ?m = "map_of (queue s)" and ?G = "gap_set (gaps s)"
  have ok: "gaps_ok (gaps s)" "0 \<le> ?r" "?r \<le> ivStart (hd (gaps s))" "queue_ok f ?r ?G (queue s)" using s by (simp_all add: sorter_ok_def)
  have q: "distinct (map fst (queue s))" "apart ?m" "covered ?m = {?r..<MaxByteCount} - ?G"
    "\<And>p e. ?m p = Some e \<Longrightarrow> eData e = part f p (length (eData e))" using ok(4) by (simp_all add: queue_ok_def)
  obtain front B where gs: "gaps s = front # B" using ok(1) by (cases "gaps s") (auto simp: gaps_ok_def)
  have "gaps_ok ([] @ front # B)" using ok(1) gs by simp
  note fr = gaps_split [OF this]
  show ?thesis
  proof (cases "?m ?r")
    case None
    have "?r \<notin> covered ?m"
    proof
      assume "?r \<in> covered ?m"
      then obtain p e where e: "?m p = Some e" "p \<le> ?r" "?r < endof p e" by (auto simp: covered_def)
      then have "p \<in> {p..<endof p e}" by auto
      then have "p \<in> covered ?m" using entry_covered [of ?m, OF e(1)] by blast
      then have "p = ?r" using q(3) e(2) by auto
      then show False using e None by simp
    qed
    then have "?r \<in> ?G" using q(3) fr ok(3) gs by auto
    then show ?thesis using None s by (simp add: Pop_def part_def)
  next
    case (Some e)
    have en: "eData e \<noteq> []" "{?r..<endof ?r e} \<subseteq> covered ?m" "{?r..<endof ?r e} \<inter> ?G = {}"
      using apartD(1) [OF q(2) Some] entry_covered [of ?m, OF Some] q(3) by auto
    have "ivStart front \<in> ?G" using fr(4) by (simp add: gs)
    then have "ivStart front \<notin> {?r..<endof ?r e}" using en(3) by blast
    then have le: "endof ?r e \<le> ivStart front" using ok(3) gs by simp
    let ?q = "AList.delete ?r (queue s)"
    have m': "map_of ?q p = (if p = ?r then None else ?m p)" for p by (simp add: AList.delete_conv')
    have "queue_ok f (endof ?r e) ?G ?q"
    proof -
      have "apart (map_of ?q)" using q(2) unfolding apart_def m' by simp
      moreover have "covered (map_of ?q) = covered ?m - {?r..<endof ?r e}"
      proof -
        have dis: "x \<notin> {?r..<endof ?r e}" if "?m p = Some d" "p \<noteq> ?r" "p \<le> x" "x < endof p d" for p d x
        proof (cases "p < ?r")
          case True
          then show ?thesis using apartD(2) [OF q(2) that(1) Some True] that by simp
        next
          case False
          then have "?r < p" using that(2) by simp
          from apartD(2) [OF q(2) Some that(1) this] show ?thesis using that by simp
        qed
        have "x \<in> covered (map_of ?q) \<longleftrightarrow> x \<in> covered ?m - {?r..<endof ?r e}" for x
        proof
          assume "x \<in> covered (map_of ?q)"
          then obtain p d where "?m p = Some d" "p \<noteq> ?r" "p \<le> x" "x < endof p d" by (auto simp: covered_def m' split: if_splits)
          then show "x \<in> covered ?m - {?r..<endof ?r e}" using dis by (auto simp: covered_def)
        next
          assume "x \<in> covered ?m - {?r..<endof ?r e}"
          then obtain p d where "?m p = Some d" "p \<le> x" "x < endof p d" "x \<notin> {?r..<endof ?r e}" by (auto simp: covered_def)
          then show "x \<in> covered (map_of ?q)" using Some by (cases "p = ?r") (auto simp: covered_def m')
        qed
        then show ?thesis by blast
      qed
      moreover have "{?r..<MaxByteCount} - ?G - {?r..<endof ?r e} = {endof ?r e..<MaxByteCount} - ?G"
        using le fr(4,6) by auto
      ultimately show ?thesis using q(1,3,4) by (simp add: queue_ok_def AList.distinct_delete m' split: if_splits)
    qed
    moreover have "?r \<notin> ?G"
    proof -
      have "?r \<in> {?r..<endof ?r e}" using en(1) by simp
      then show ?thesis using en(3) by blast
    qed
    ultimately show ?thesis
      using Some gs ok le fr(4) en(1) q(4) [OF Some] cbs_delete [OF q(1) Some]
      by (auto simp: Pop_def sorter_ok_def add.commute)
  qed
qed

section \<open>Runs of the sorter\<close>

text \<open>The receiver of a stream pushes frames as they arrive and pops what is in order. A run stops at an error, which closes
  the connection. Collected are the bytes handed out and the callbacks that were called or handed out with their bytes.\<close>

datatype 'cb sorter_op = PushOp bytes ByteCount "'cb option" | PopOp

fun run_sorter :: "'cb sorter_op list \<Rightarrow> 'cb frameSorter \<Rightarrow> (sorter_error option \<times> bytes \<times> 'cb list \<times> 'cb frameSorter) option" where
  "run_sorter [] s = Some (None, [], [], s)"
| "run_sorter (PushOp dat off cb # ops) s =
     (case Push dat off cb s of
        None \<Rightarrow> None
      | Some (Some err, s', calls) \<Rightarrow> Some (Some err, [], calls, s')
      | Some (None, s', calls) \<Rightarrow> map_option (\<lambda>(err, out, calls', s''). (err, out, calls @ calls', s'')) (run_sorter ops s'))"
| "run_sorter (PopOp # ops) s =
     (case Pop s of
        None \<Rightarrow> None
      | Some ((off, dat, cb), s') \<Rightarrow>
          map_option (\<lambda>(err, out, calls', s''). (err, dat @ out, cb_list cb @ calls', s'')) (run_sorter ops s'))"

text \<open>The frames of the run carry parts of the stream \<open>f\<close>, as a peer that follows the protocol sends them.\<close>

fun op_of :: "(ByteCount \<Rightarrow> byte) \<Rightarrow> 'cb sorter_op \<Rightarrow> bool" where
  "op_of f (PushOp dat off cb) \<longleftrightarrow> dat = part f off (length dat) \<and> off + int (length dat) < MaxByteCount"
| "op_of f PopOp \<longleftrightarrow> True"

fun received :: "'cb sorter_op list \<Rightarrow> ByteCount set" where
  "received [] = {}"
| "received (PushOp dat off cb # ops) = {off..<off + int (length dat)} \<union> received ops"
| "received (PopOp # ops) = received ops"

fun given_cbs :: "'cb sorter_op list \<Rightarrow> 'cb list" where
  "given_cbs [] = []"
| "given_cbs (PushOp dat off cb # ops) = cb_list cb @ given_cbs ops"
| "given_cbs (PopOp # ops) = given_cbs ops"

lemma part_append: "part f a m @ part f (a + int m) n = part f a (m + n)"
  by (rule nth_equalityI) (auto simp: part_def nth_append)

lemma run_ok:
  assumes "sorter_ok f s" "list_all (op_of f) ops"
  shows "\<exists>err out calls s'. run_sorter ops s = Some (err, out, calls, s') \<and> out = part f (readPos s) (length out) \<and>
     (err = Some TooManyGaps \<or>
      err = None \<and> sorter_ok f s' \<and> readPos s' = readPos s + int (length out) \<and> gap_set (gaps s') = gap_set (gaps s) - received ops \<and>
        mset calls + cbs (queue s') = cbs (queue s) + mset (given_cbs ops))"
  using assms
proof (induction ops s rule: run_sorter.induct)
  case (1 s)
  then show ?case by (simp add: part_def)
next
  case (2 dat off cb ops s)
  from 2 have op: "dat = part f off (length dat)" "off + int (length dat) < MaxByteCount" by simp_all
  obtain err s1 calls1 where p: "Push dat off cb s = Some (err, s1, calls1)"
    "err = None \<and> sorter_ok f s1 \<and> gap_set (gaps s1) = gap_set (gaps s) - {off..<off + int (length dat)} \<and> readPos s1 = readPos s \<and>
        mset calls1 + cbs (queue s1) = cbs (queue s) + mset (cb_list cb) \<or> err = Some TooManyGaps"
    using Push_ok [OF 2(2) op, of cb] by blast
  from p(2) show ?case
  proof
    assume e: "err = None \<and> sorter_ok f s1 \<and> gap_set (gaps s1) = gap_set (gaps s) - {off..<off + int (length dat)} \<and> readPos s1 = readPos s \<and>
        mset calls1 + cbs (queue s1) = cbs (queue s) + mset (cb_list cb)"
    obtain err' out calls s' where r: "run_sorter ops s1 = Some (err', out, calls, s')" "out = part f (readPos s) (length out)"
      "err' = Some TooManyGaps \<or> err' = None \<and> sorter_ok f s' \<and> readPos s' = readPos s + int (length out) \<and>
        gap_set (gaps s') = gap_set (gaps s1) - received ops \<and> mset calls + cbs (queue s') = cbs (queue s1) + mset (given_cbs ops)"
    proof -
      have "Push dat off cb s = Some (None, s1, calls1)" using p(1) e by simp
      note ih = 2(1) [OF this refl refl refl]
      show ?thesis using ih e 2(3) that by auto
    qed
    have "mset (calls1 @ calls) + cbs (queue s') = cbs (queue s) + mset (given_cbs (PushOp dat off cb # ops))"
      if "mset calls + cbs (queue s') = cbs (queue s1) + mset (given_cbs ops)"
      using that e by (simp add: add.assoc)
    then show ?thesis using p(1) r e by auto
  next
    assume "err = Some TooManyGaps"
    then show ?thesis using p(1) by (simp add: part_def)
  qed
next
  case (3 ops s)
  obtain dat cb s1 where p: "Pop s = Some ((readPos s, dat, cb), s1)" "sorter_ok f s1" "dat = part f (readPos s) (length dat)"
     "readPos s1 = readPos s + int (length dat)" "gaps s1 = gaps s" "cbs (queue s1) + mset (cb_list cb) = cbs (queue s)"
    using Pop_ok [OF 3(2)] by blast
  obtain err out calls s' where r: "run_sorter ops s1 = Some (err, out, calls, s')" "out = part f (readPos s1) (length out)"
    "err = Some TooManyGaps \<or> err = None \<and> sorter_ok f s' \<and> readPos s' = readPos s1 + int (length out) \<and>
      gap_set (gaps s') = gap_set (gaps s1) - received ops \<and> mset calls + cbs (queue s') = cbs (queue s1) + mset (given_cbs ops)"
    using 3(1) [OF p(1) refl refl refl p(2)] 3(3) by auto
  have "dat @ out = part f (readPos s) (length (dat @ out))"
    using part_append [of f "readPos s" "length dat" "length out"] p(3,4) r(2) by simp
  moreover have "mset (cb_list cb @ calls) + cbs (queue s') = cbs (queue s) + mset (given_cbs ops)"
    if "mset calls + cbs (queue s') = cbs (queue s1) + mset (given_cbs ops)"
    using that p(6) by (simp add: add.assoc) (metis add.assoc add.commute)
  ultimately show ?case using p r by auto
qed

lemma new_sorter_ok: "sorter_ok f newFrameSorter" "gap_set (gaps newFrameSorter) = {0..<MaxByteCount}" "readPos newFrameSorter = 0"
  by (auto simp: newFrameSorter_def sorter_ok_def gaps_ok_def queue_ok_def apart_def covered_def MaxByteCount_def)

lemma run_append:
  "run_sorter (ops @ ops') s =
     (case run_sorter ops s of
        Some (None, out, calls, s1) \<Rightarrow> map_option (\<lambda>(err, out', calls', s'). (err, out @ out', calls @ calls', s')) (run_sorter ops' s1)
      | r \<Rightarrow> r)"
  by (induction ops s rule: run_sorter.induct)
    (auto simp: option.map_comp o_def case_prod_beta option.map_id split: option.splits intro!: option.map_cong)

lemma pops_deliver:
  assumes "sorter_ok f s" "{readPos s..<t} \<inter> gap_set (gaps s) = {}" "t \<le> readPos s + int n"
  shows "\<exists>out calls s'. run_sorter (replicate n PopOp) s = Some (None, out, calls, s') \<and> t \<le> readPos s'"
  using assms
proof (induction n arbitrary: s)
  case (Suc n)
  obtain dat cb s1 where p: "Pop s = Some ((readPos s, dat, cb), s1)" "sorter_ok f s1"
     "readPos s1 = readPos s + int (length dat)" "gaps s1 = gaps s" "dat = [] \<longleftrightarrow> readPos s \<in> gap_set (gaps s)"
    using Pop_ok [OF Suc(2)] by blast
  have d: "dat \<noteq> []" if "readPos s < t"
  proof -
    have "readPos s \<in> {readPos s..<t}" using that by simp
    then show ?thesis using p(5) Suc(3) by blast
  qed
  have "{readPos s1..<t} \<subseteq> {readPos s..<t}" using p(3) by auto
  then have free: "{readPos s1..<t} \<inter> gap_set (gaps s1) = {}" using Suc(3) unfolding p(4) by blast
  have "t \<le> readPos s1 + int n" 
    using d p(3) Suc(4) by (cases "readPos s < t"; cases dat) simp_all
  then show ?case using Suc(1) [OF p(2) free] p(1) by auto
qed auto


definition counting :: "ByteCount \<Rightarrow> byte" where "counting i = word_of_int i"

definition shuffled :: "nat sorter_op list" where
  "shuffled = [PushOp [4, 5] 4 (Some 1), PopOp, PushOp [1, 2, 3, 4] 1 (Some 2), PushOp [0, 1, 2] 0 (Some 3), PopOp, PopOp]"

lemma shuffled_of: "list_all (op_of counting) shuffled"
  by (simp add: shuffled_def part_def counting_def upt_rec MaxByteCount_def)


text \<open>C9: Nothing that arrived is held back. When frames of a stream were pushed without an error and together carry its first
  \<open>n\<close> bytes, then \<open>n\<close> further pops suffice to hand out at least these, whatever the order of arrival was.\<close>

theorem frame_sorter_delivers:
  assumes "list_all (op_of f) ops" "run_sorter ops newFrameSorter = Some (None, out, calls, s)" "{0..<int n} \<subseteq> received ops"
  shows "\<exists>out' calls' s'. run_sorter (ops @ replicate n PopOp) newFrameSorter = Some (None, out', calls', s') \<and>
     take n out' = part f 0 n"
proof -
  have s: "sorter_ok f s" "readPos s = int (length out)" "gap_set (gaps s) = {0..<MaxByteCount} - received ops"
    using run_ok [OF new_sorter_ok(1) assms(1)] assms(2) by (auto simp: new_sorter_ok)
  have "{readPos s..<int n} \<inter> gap_set (gaps s) = {}" using s(2,3) assms(3) by force
  then obtain out2 calls2 s' where p: "run_sorter (replicate n PopOp) s = Some (None, out2, calls2, s')" "int n \<le> readPos s'"
    using pops_deliver [OF s(1), of "int n" n] s(2) by auto
  have r: "run_sorter (ops @ replicate n PopOp) newFrameSorter = Some (None, out @ out2, calls @ calls2, s')"
    using assms(2) p(1) by (simp add: run_append)
  have "list_all (op_of f) (ops @ replicate n PopOp)" using assms(1) by (auto simp: list_all_iff)
  from run_ok [OF new_sorter_ok(1) this] r have o: "out @ out2 = part f 0 (length (out @ out2))" "readPos s' = int (length (out @ out2))"
    by (auto simp: new_sorter_ok)
  then have "n \<le> length (out @ out2)" using p(2) by simp
  then have "take n (out @ out2) = part f 0 n" 
    using take_part [of n f 0 "length (out @ out2)"] o(1) by (simp add: min_def)
  then show ?thesis using r by auto
qed

lemma shuffled_run:
  "run_sorter (take 4 shuffled) newFrameSorter =
     Some (None, [], [2, 3],
       \<lparr>queue = [(4, \<lparr>eData = [4, 5], eDoneCb = Some 1\<rparr>), (1, \<lparr>eData = [1, 2, 3], eDoneCb = None\<rparr>), (0, \<lparr>eData = [0], eDoneCb = None\<rparr>)],
        readPos = 0, gaps = [\<lparr>ivStart = 6, ivEnd = MaxByteCount\<rparr>]\<rparr>)"
  by (simp add: shuffled_def newFrameSorter_def Push_def push_def push_found_def push_rest_def store_frame_def Pop_def
    replace_loop.simps deleteConsecutive.simps cut_front_def cut_back_def update_startGap_def update_endGap_def clear_between_def
    el_update_def el_remove_def slice_from_def slice_to_def MinStreamFrameBufferSize_def MaxStreamFrameSorterGaps_def MaxByteCount_def)

theorem frame_sorter_delivers_witness:
  "\<exists>out calls s. run_sorter (take 4 shuffled @ replicate 6 PopOp) newFrameSorter = Some (None, out, calls, s) \<and>
     take 6 out = part counting 0 6"
  by (rule frame_sorter_delivers [OF _ shuffled_run]) (use shuffled_of in \<open>auto simp: shuffled_def\<close>)

section \<open>Peek\<close>

text \<open>Peeking ends, and it copies the bytes of the stream or reports that too little data is there.\<close>

lemma peek_check_copy:
  assumes "queue_ok f r G q" "0 < n"
  shows "\<exists>b. peek_check q p (int n) = Some b \<and> (b \<longrightarrow> peek_copy q p n = Some (part f p n))"
  using assms(2)
proof (induction n arbitrary: p rule: less_induct)
  case (less n)
  show ?case
  proof (cases "map_of q p")
    case None
    then show ?thesis using less(2) by (intro exI [of _ False]) (simp add: peek_check.simps [of q p])
  next
    case (Some e)
    have e: "eData e \<noteq> []" "eData e = part f p (length (eData e))"
      using assms(1) Some by (auto simp: queue_ok_def apart_def)
    have dr: "take n (eData e) = part f p (min n (length (eData e)))"
      using e(2) take_part [of n f p "length (eData e)"] by simp
    show ?thesis
    proof (cases "n \<le> length (eData e)")
      case True
      then show ?thesis using Some less(2) dr
        by (intro exI [of _ True]) (simp add: peek_check.simps [of q p] peek_copy.simps [of q p n] peek_copy.simps [of q _ 0] min_def)
    next
      case False
      let ?k = "length (eData e)"
      obtain b where b: "peek_check q (p + int ?k) (int (n - ?k)) = Some b"
        "b \<longrightarrow> peek_copy q (p + int ?k) (n - ?k) = Some (part f (p + int ?k) (n - ?k))"
        using less(1) [of "n - ?k" "p + int ?k"] less(2) False e(1) by auto
      have "peek_check q p (int n) = Some b"
        using b(1) Some less(2) False by (subst peek_check.simps) (simp add: of_nat_diff)
      moreover have "peek_copy q p n = Some (part f p n)" if b
        using b(2) that Some less(2) False dr part_append [of f p ?k "n - ?k"]
        by (subst peek_copy.simps) (simp add: Let_def min_def flip: e(2))
      ultimately show ?thesis by blast
    qed
  qed
qed

lemma sorter_Peek_ok:
  assumes "sorter_ok f s" shows "sorter_Peek s p n \<in> {Some None, Some (Some (part f p n))}"
proof (cases "n = 0")
  case False
  obtain b where "peek_check (queue s) p (int n) = Some b" "b \<longrightarrow> peek_copy (queue s) p n = Some (part f p n)"
    using peek_check_copy [of f _ _ "queue s" n p] assms False by (auto simp: sorter_ok_def)
  then show ?thesis using False by (cases b) (auto simp: sorter_Peek_def)
qed (simp add: sorter_Peek_def part_def)

section \<open>The end of the stream\<close>

text \<open>The last gap is open at \<open>MaxByteCount\<close>, so the search for the gap at the end of a frame finds none
  when the frame ends exactly there. The parser of STREAM frames refuses only frames that end behind it,
  so nothing but the limits of flow control keeps such a frame from the sorter.\<close>

lemma push_at_limit_panics:
  assumes "gaps_ok (gaps s)" and "dat \<noteq> []" and "offset + int (length dat) = MaxByteCount"
  shows "push dat offset doneCb s = None"
proof -
  have gap: "ivStart g < ivEnd g \<and> ivEnd g \<le> MaxByteCount" if "g \<in> set (gaps s)" for g
    using assms(1) gaps_split(4,6) by (metis split_list [OF that])
  have none: "findEndGap k gs MaxByteCount = None" if "\<forall>g\<in>set gs. ivStart g < MaxByteCount \<and> ivEnd g \<le> MaxByteCount" for k gs
    using that by (induction gs arbitrary: k) auto
  have "findEndGap k (drop k (gaps s)) MaxByteCount = None" for k
    using gap by (intro none) (fastforce dest: in_set_dropD)
  moreover have "\<not> MaxByteCount \<le> ivStart (hd (gaps s))" if "gaps s \<noteq> []"
    using gap [of "hd (gaps s)"] that by simp
  ultimately show ?thesis
    using assms(2,3) by (cases "gaps s") (auto simp: push_def Let_def split: option.splits)
qed

end
