(* ===== verification/QuicFrames.thy ===== *)
theory QuicFrames
  imports QuicAck FrameSorter
begin

text \<open>
  The frames of QUIC, \<^verbatim>\<open>quicfork/internal/wire\<close>: the parser, the writer and the announced length of every
  frame, the frame parser of \<^verbatim>\<open>frame_parser.go\<close>, the permitted encryption levels of \<^verbatim>\<open>frame_type.go\<close>, the
  splitting of STREAM and CRYPTO frames, and the loop of \<open>handleFrames\<close> (\<^verbatim>\<open>connection.go\<close>) that takes a packet
  apart. A writer takes the slice it appends to. The interface \<open>Frame\<close> is the datatype of the structs that
  implement it; a struct with operations of its own is a record. A connection ID is its list of bytes.
\<close>

type_synonym StreamID = int
type_synonym StreamNum = int
type_synonym FrameType = u64

datatype StreamType = StreamTypeUni | StreamTypeBidi

definition MaxStreamCount :: StreamNum where "MaxStreamCount = 2 ^ 60"
definition MaxPacketBufferSize :: nat where "MaxPacketBufferSize = 1452"
definition MaxConnIDLen :: nat where "MaxConnIDLen = 20"
definition DefaultAckDelayExponent :: nat where "DefaultAckDelayExponent = 3"

definition ParseConnectionID :: "bytes \<Rightarrow> wire_error + bytes" where
  "ParseConnectionID b = (if length b > MaxConnIDLen then Inl WPanic else Inr b)"

section \<open>Frame types\<close>

definition FrameTypePing :: FrameType where "FrameTypePing = 0x1"
definition FrameTypeResetStream :: FrameType where "FrameTypeResetStream = 0x4"
definition FrameTypeStopSending :: FrameType where "FrameTypeStopSending = 0x5"
definition FrameTypeCrypto :: FrameType where "FrameTypeCrypto = 0x6"
definition FrameTypeNewToken :: FrameType where "FrameTypeNewToken = 0x7"
definition FrameTypeMaxData :: FrameType where "FrameTypeMaxData = 0x10"
definition FrameTypeMaxStreamData :: FrameType where "FrameTypeMaxStreamData = 0x11"
definition FrameTypeBidiMaxStreams :: FrameType where "FrameTypeBidiMaxStreams = 0x12"
definition FrameTypeUniMaxStreams :: FrameType where "FrameTypeUniMaxStreams = 0x13"
definition FrameTypeDataBlocked :: FrameType where "FrameTypeDataBlocked = 0x14"
definition FrameTypeStreamDataBlocked :: FrameType where "FrameTypeStreamDataBlocked = 0x15"
definition FrameTypeBidiStreamBlocked :: FrameType where "FrameTypeBidiStreamBlocked = 0x16"
definition FrameTypeUniStreamBlocked :: FrameType where "FrameTypeUniStreamBlocked = 0x17"
definition FrameTypeNewConnectionID :: FrameType where "FrameTypeNewConnectionID = 0x18"
definition FrameTypeRetireConnectionID :: FrameType where "FrameTypeRetireConnectionID = 0x19"
definition FrameTypePathChallenge :: FrameType where "FrameTypePathChallenge = 0x1a"
definition FrameTypePathResponse :: FrameType where "FrameTypePathResponse = 0x1b"
definition FrameTypeConnectionClose :: FrameType where "FrameTypeConnectionClose = 0x1c"
definition FrameTypeApplicationClose :: FrameType where "FrameTypeApplicationClose = 0x1d"
definition FrameTypeHandshakeDone :: FrameType where "FrameTypeHandshakeDone = 0x1e"
definition FrameTypeResetStreamAt :: FrameType where "FrameTypeResetStreamAt = 0x24"
definition FrameTypeAckFrequency :: FrameType where "FrameTypeAckFrequency = 0xaf"
definition FrameTypeImmediateAck :: FrameType where "FrameTypeImmediateAck = 0x1f"
definition FrameTypeDatagramNoLength :: FrameType where "FrameTypeDatagramNoLength = 0x30"
definition FrameTypeDatagramWithLength :: FrameType where "FrameTypeDatagramWithLength = 0x31"

lemmas frame_type_defs = FrameTypePing_def FrameTypeResetStream_def FrameTypeStopSending_def FrameTypeCrypto_def FrameTypeNewToken_def
  FrameTypeMaxData_def FrameTypeMaxStreamData_def FrameTypeBidiMaxStreams_def FrameTypeUniMaxStreams_def FrameTypeDataBlocked_def
  FrameTypeStreamDataBlocked_def FrameTypeBidiStreamBlocked_def FrameTypeUniStreamBlocked_def FrameTypeNewConnectionID_def
  FrameTypeRetireConnectionID_def FrameTypePathChallenge_def FrameTypePathResponse_def FrameTypeConnectionClose_def
  FrameTypeApplicationClose_def FrameTypeHandshakeDone_def FrameTypeResetStreamAt_def FrameTypeAckFrequency_def FrameTypeImmediateAck_def
  FrameTypeDatagramNoLength_def FrameTypeDatagramWithLength_def FrameTypeAck_def FrameTypeAckECN_def

datatype EncryptionLevel = EncryptionInitial | EncryptionHandshake | Encryption0RTT | Encryption1RTT

definition IsStreamFrameType :: "FrameType \<Rightarrow> bool" where "IsStreamFrameType t \<longleftrightarrow> t \<ge> 0x8 \<and> t \<le> 0xf"
definition isValidRFC9000 :: "FrameType \<Rightarrow> bool" where "isValidRFC9000 t \<longleftrightarrow> t \<le> 0x1e"
definition IsAckFrameType :: "FrameType \<Rightarrow> bool" where "IsAckFrameType t \<longleftrightarrow> t = FrameTypeAck \<or> t = FrameTypeAckECN"
definition IsDatagramFrameType :: "FrameType \<Rightarrow> bool" where
  "IsDatagramFrameType t \<longleftrightarrow> t = FrameTypeDatagramNoLength \<or> t = FrameTypeDatagramWithLength"

fun isAllowedAtEncLevel :: "FrameType \<Rightarrow> EncryptionLevel \<Rightarrow> bool" where
  "isAllowedAtEncLevel t Encryption0RTT \<longleftrightarrow>
     t \<notin> {FrameTypeCrypto, FrameTypeAck, FrameTypeAckECN, FrameTypeConnectionClose, FrameTypeNewToken, FrameTypePathResponse, FrameTypeRetireConnectionID}"
| "isAllowedAtEncLevel t Encryption1RTT \<longleftrightarrow> True"
| "isAllowedAtEncLevel t encLevel \<longleftrightarrow>
     t \<in> {FrameTypeCrypto, FrameTypeAck, FrameTypeAckECN, FrameTypeConnectionClose, FrameTypePing}"

definition IsProbingFrameType :: "FrameType \<Rightarrow> bool" where
  "IsProbingFrameType t \<longleftrightarrow> t \<in> {FrameTypePathChallenge, FrameTypePathResponse, FrameTypeNewConnectionID}"

section \<open>The frames\<close>

record StreamFrame =
  sfStreamID :: StreamID
  sfOffset :: ByteCount
  sfData :: bytes
  sfFin :: bool
  sfDataLenPresent :: bool

record CryptoFrame =
  cfOffset :: ByteCount
  cfData :: bytes

record DatagramFrame =
  dgDataLenPresent :: bool
  dgData :: bytes

text \<open>The fields stand in the order of the structs: \<open>ResetStreamFrame\<close> has the stream, the error code, the final and the
  reliable size, \<open>ConnectionCloseFrame\<close> the application flag, the error code, the frame type and the reason,
  \<open>NewConnectionIDFrame\<close> the sequence number, the retired prefix, the connection ID and the reset token,
  \<open>AckFrequencyFrame\<close> the sequence number, the threshold, the delay and the reordering threshold.\<close>

datatype Frame =
    PingFrame
  | AckF AckFrame
  | ResetStreamFrame StreamID u64 ByteCount ByteCount
  | StopSendingFrame StreamID u64
  | CryptoF CryptoFrame
  | NewTokenFrame bytes
  | StreamF StreamFrame
  | MaxDataFrame ByteCount
  | MaxStreamDataFrame StreamID ByteCount
  | MaxStreamsFrame StreamType StreamNum
  | DataBlockedFrame ByteCount
  | StreamDataBlockedFrame StreamID ByteCount
  | StreamsBlockedFrame StreamType StreamNum
  | NewConnectionIDFrame u64 u64 bytes bytes
  | RetireConnectionIDFrame u64
  | PathChallengeFrame bytes
  | PathResponseFrame bytes
  | ConnectionCloseFrame bool u64 u64 bytes
  | HandshakeDoneFrame
  | DatagramF DatagramFrame
  | AckFrequencyFrame u64 u64 nanos PacketNumber
  | ImmediateAckFrame

section \<open>Parsers\<close>

text \<open>A parser gives the frame and the number of bytes it used; \<open>b0\<close> is the slice it was given.\<close>

definition parseResetStreamFrame :: "bytes \<Rightarrow> bool \<Rightarrow> wire_error + (Frame \<times> nat)" where
  "parseResetStreamFrame b0 isResetStreamAt =
     rbind (next_varint b0) (\<lambda>(streamID, b).
     rbind (next_varint b) (\<lambda>(errorCode, b).
     rbind (next_varint b) (\<lambda>(finalSize, b).
     rbind (if isResetStreamAt then next_varint b else Inr (0, b)) (\<lambda>(reliableSize, b).
       if reliableSize > finalSize then Inl (ReliableSizeTooLarge reliableSize finalSize)
       else Inr (ResetStreamFrame (i64 streamID) errorCode (i64 finalSize) (i64 reliableSize), length b0 - length b)))))"

definition parseStopSendingFrame :: "bytes \<Rightarrow> wire_error + (Frame \<times> nat)" where
  "parseStopSendingFrame b0 =
     rbind (next_varint b0) (\<lambda>(streamID, b).
     rbind (next_varint b) (\<lambda>(errorCode, b).
       Inr (StopSendingFrame (i64 streamID) errorCode, length b0 - length b)))"

definition parseCryptoFrame :: "bytes \<Rightarrow> wire_error + (Frame \<times> nat)" where
  "parseCryptoFrame b0 =
     rbind (next_varint b0) (\<lambda>(offset, b).
     rbind (next_varint b) (\<lambda>(dataLen, b).
       if unat dataLen > length b then Inl (WIO EOF)
       else Inr (CryptoF \<lparr>cfOffset = i64 offset, cfData = take (unat dataLen) b\<rparr>, length b0 - length b + unat dataLen)))"

definition parseNewTokenFrame :: "bytes \<Rightarrow> wire_error + (Frame \<times> nat)" where
  "parseNewTokenFrame b0 =
     rbind (next_varint b0) (\<lambda>(tokenLen, b).
       if tokenLen = 0 then Inl EmptyToken
       else if length b < unat tokenLen then Inl (WIO EOF)
       else Inr (NewTokenFrame (take (unat tokenLen) b), length b0 - length b + unat tokenLen))"

definition parseMaxDataFrame :: "bytes \<Rightarrow> wire_error + (Frame \<times> nat)" where
  "parseMaxDataFrame b0 = rbind (next_varint b0) (\<lambda>(byteOffset, b). Inr (MaxDataFrame (i64 byteOffset), length b0 - length b))"

definition parseMaxStreamDataFrame :: "bytes \<Rightarrow> wire_error + (Frame \<times> nat)" where
  "parseMaxStreamDataFrame b0 =
     rbind (next_varint b0) (\<lambda>(sid, b).
     rbind (next_varint b) (\<lambda>(offset, b).
       Inr (MaxStreamDataFrame (i64 sid) (i64 offset), length b0 - length b)))"

definition parseMaxStreamsFrame :: "bytes \<Rightarrow> FrameType \<Rightarrow> wire_error + (Frame \<times> nat)" where
  "parseMaxStreamsFrame b0 typ =
     (let stype = (if typ = FrameTypeBidiMaxStreams then StreamTypeBidi else StreamTypeUni)
      in rbind (next_varint b0) (\<lambda>(streamID, b).
           if i64 streamID > MaxStreamCount then Inl (StreamCountExceeded (i64 streamID))
           else Inr (MaxStreamsFrame stype (i64 streamID), length b0 - length b)))"

definition parseDataBlockedFrame :: "bytes \<Rightarrow> wire_error + (Frame \<times> nat)" where
  "parseDataBlockedFrame b0 = rbind (next_varint b0) (\<lambda>(offset, b). Inr (DataBlockedFrame (i64 offset), length b0 - length b))"

definition parseStreamDataBlockedFrame :: "bytes \<Rightarrow> wire_error + (Frame \<times> nat)" where
  "parseStreamDataBlockedFrame b0 =
     rbind (next_varint b0) (\<lambda>(sid, b).
     rbind (next_varint b) (\<lambda>(offset, b).
       Inr (StreamDataBlockedFrame (i64 sid) (i64 offset), length b0 - length b)))"

definition parseStreamsBlockedFrame :: "bytes \<Rightarrow> FrameType \<Rightarrow> wire_error + (Frame \<times> nat)" where
  "parseStreamsBlockedFrame b0 typ =
     (let stype = (if typ = FrameTypeBidiStreamBlocked then StreamTypeBidi else StreamTypeUni)
      in rbind (next_varint b0) (\<lambda>(streamLimit, b).
           if i64 streamLimit > MaxStreamCount then Inl (StreamCountExceeded (i64 streamLimit))
           else Inr (StreamsBlockedFrame stype (i64 streamLimit), length b0 - length b)))"

definition parseNewConnectionIDFrame :: "bytes \<Rightarrow> wire_error + (Frame \<times> nat)" where
  "parseNewConnectionIDFrame b0 =
     rbind (next_varint b0) (\<lambda>(seq, b).
     rbind (next_varint b) (\<lambda>(ret, b).
       if ret > seq then Inl (RetirePriorToTooLarge ret seq)
       else
         (case b of
            [] \<Rightarrow> Inl (WIO EOF)
          | c # b \<Rightarrow>
              (let connIDLen = unat c
               in if connIDLen = 0 then Inl ZeroLenConnectionID
                  else if connIDLen > MaxConnIDLen then Inl InvalidConnectionIDLen
                  else if length b < connIDLen then Inl (WIO EOF)
                  else rbind (ParseConnectionID (take connIDLen b)) (\<lambda>cid.
                    let b = drop connIDLen b
                    in if length b < 16 then Inl (WIO EOF)
                       else Inr (NewConnectionIDFrame seq ret cid (take 16 b), length b0 - length b + 16))))))"

definition parseRetireConnectionIDFrame :: "bytes \<Rightarrow> wire_error + (Frame \<times> nat)" where
  "parseRetireConnectionIDFrame b0 = rbind (next_varint b0) (\<lambda>(seq, b). Inr (RetireConnectionIDFrame seq, length b0 - length b))"

definition parsePathChallengeFrame :: "bytes \<Rightarrow> wire_error + (Frame \<times> nat)" where
  "parsePathChallengeFrame b = (if length b < 8 then Inl (WIO EOF) else Inr (PathChallengeFrame (take 8 b), 8))"

definition parsePathResponseFrame :: "bytes \<Rightarrow> wire_error + (Frame \<times> nat)" where
  "parsePathResponseFrame b = (if length b < 8 then Inl (WIO EOF) else Inr (PathResponseFrame (take 8 b), 8))"

definition parseConnectionCloseFrame :: "bytes \<Rightarrow> FrameType \<Rightarrow> wire_error + (Frame \<times> nat)" where
  "parseConnectionCloseFrame b0 typ =
     (let isApplicationError = (typ = FrameTypeApplicationClose)
      in rbind (next_varint b0) (\<lambda>(ec, b).
         rbind (if isApplicationError then Inr (0, b) else next_varint b) (\<lambda>(ft, b).
         rbind (next_varint b) (\<lambda>(reasonPhraseLen, b).
           if i64 reasonPhraseLen > int (length b) then Inl (WIO EOF)
           else Inr (ConnectionCloseFrame isApplicationError ec ft (take (unat reasonPhraseLen) b),
                     length b0 - length b + unat reasonPhraseLen)))))"

definition parseAckFrequencyFrame :: "bytes \<Rightarrow> wire_error + (Frame \<times> nat)" where
  "parseAckFrequencyFrame b0 =
     rbind (next_varint b0) (\<lambda>(seq, b).
     rbind (next_varint b) (\<lambda>(aeth, b).
     rbind (next_varint b) (\<lambda>(mad, b).
       let maxAckDelay = (let d = wrap64 (i64 mad * 1000) in if d < 0 then 2 ^ 63 - 1 else d)
       in rbind (next_varint b) (\<lambda>(rth, b).
            Inr (AckFrequencyFrame seq aeth maxAckDelay (i64 rth), length b0 - length b)))))"

definition parseDatagramFrame :: "bytes \<Rightarrow> FrameType \<Rightarrow> wire_error + (Frame \<times> nat)" where
  "parseDatagramFrame b0 typ =
     (let dataLenPresent = (typ AND 0x1 > 0)
      in rbind (if dataLenPresent then
                  rbind (next_varint b0) (\<lambda>(len, b). if unat len > length b then Inl (WIO EOF) else Inr (unat len, b))
                else Inr (length b0, b0)) (\<lambda>(len, b).
           Inr (DatagramF \<lparr>dgDataLenPresent = dataLenPresent, dgData = take len b\<rparr>, length b0 - length b + len)))"

text \<open>A frame with 128 bytes of data or more gets a buffer of the pool, which has the size of the largest packet.\<close>

definition ParseStreamFrame :: "bytes \<Rightarrow> FrameType \<Rightarrow> wire_error + (Frame \<times> nat)" where
  "ParseStreamFrame b0 typ =
     (let hasOffset = (typ AND 0x4 > 0); fin = (typ AND 0x1 > 0); hasDataLen = (typ AND 0x2 > 0)
      in rbind (next_varint b0) (\<lambda>(streamID, b).
         rbind (if hasOffset then next_varint b else Inr (0, b)) (\<lambda>(offset, b).
         rbind (if hasDataLen then
                  rbind (next_varint b) (\<lambda>(dataLen, b). if unat dataLen > length b then Inl (WIO EOF) else Inr (unat dataLen, b))
                else Inr (length b, b)) (\<lambda>(dataLen, b).
           if \<not> dataLen < MinStreamFrameBufferSize \<and> dataLen > MaxPacketBufferSize then Inl (WIO EOF)
           else
             (let frame = \<lparr>sfStreamID = i64 streamID, sfOffset = i64 offset, sfData = take dataLen b, sfFin = fin, sfDataLenPresent = hasDataLen\<rparr>
              in if sfOffset frame + int (length (sfData frame)) > MaxByteCount then Inl StreamOffsetOverflow
                 else Inr (StreamF frame, length b0 - length b + dataLen))))))"

section \<open>The frame parser\<close>

record FrameParser =
  ackDelayExponent :: nat
  supportsDatagrams :: bool
  supportsResetStreamAt :: bool
  supportsAckFrequency :: bool

definition NewFrameParser :: "bool \<Rightarrow> bool \<Rightarrow> bool \<Rightarrow> FrameParser" where
  "NewFrameParser dg rsa af =
     \<lparr>ackDelayExponent = 0, supportsDatagrams = dg, supportsResetStreamAt = rsa, supportsAckFrequency = af\<rparr>"

definition SetAckDelayExponent :: "nat \<Rightarrow> FrameParser \<Rightarrow> FrameParser" where
  "SetAckDelayExponent e p = p\<lparr>ackDelayExponent := e\<rparr>"

text \<open>The errors of the frame parser: \<open>io.EOF\<close> at the end of the packet, or a transport error with the code
  \<open>FrameEncodingError\<close>, the frame type where it is known, and the cause.\<close>

datatype parse_error = AtEnd | FrameEncodingError "FrameType option" wire_error | NotAllowed FrameType EncryptionLevel

definition type_valid :: "FrameParser \<Rightarrow> FrameType \<Rightarrow> bool" where
  "type_valid p ft \<longleftrightarrow> isValidRFC9000 ft \<or> (supportsDatagrams p \<and> IsDatagramFrameType ft) \<or>
     (supportsResetStreamAt p \<and> ft = FrameTypeResetStreamAt) \<or>
     (supportsAckFrequency p \<and> (ft = FrameTypeAckFrequency \<or> ft = FrameTypeImmediateAck))"

lemma next_varint_shorter: "next_varint b = Inr (v, r) \<Longrightarrow> length r < length b"
  by (auto simp: next_varint_def varint_Parse_def rbind_eq_Inr Let_def split: if_splits)

text \<open>The code reports the plain error of \<open>Parse\<close> here; \<open>parsed\<close> counts the bytes used.\<close>

function ParseType :: "FrameParser \<Rightarrow> bytes \<Rightarrow> EncryptionLevel \<Rightarrow> nat \<Rightarrow> parse_error + (FrameType \<times> nat)" where
  "ParseType p b encLevel parsed =
     (if b = [] then Inl AtEnd
      else
        (case varint_Parse b of
           Inl (VarintIO e) \<Rightarrow> Inl (FrameEncodingError None (WIO e))
         | Inl VarintPanic \<Rightarrow> Inl (FrameEncodingError None WPanic)
         | Inr (typ, l) \<Rightarrow>
             if typ = 0 then ParseType p (drop l b) encLevel (parsed + l)
             else if \<not> type_valid p typ then Inl (FrameEncodingError (Some typ) UnknownFrameType)
             else if \<not> isAllowedAtEncLevel typ encLevel then Inl (NotAllowed typ encLevel)
             else Inr (typ, parsed + l)))"
  by pat_completeness auto
termination
  by (relation "measure (\<lambda>(p, b, e, n). length b)") (auto simp: varint_Parse_def Let_def split: if_splits)

declare ParseType.simps [simp del]

definition ParseLessCommonFrame :: "FrameType \<Rightarrow> bytes \<Rightarrow> wire_error + (Frame \<times> nat)" where
  "ParseLessCommonFrame frameType b =
     (if frameType = FrameTypePing then Inr (PingFrame, 0)
      else if frameType = FrameTypeResetStream then parseResetStreamFrame b False
      else if frameType = FrameTypeStopSending then parseStopSendingFrame b
      else if frameType = FrameTypeCrypto then parseCryptoFrame b
      else if frameType = FrameTypeNewToken then parseNewTokenFrame b
      else if frameType = FrameTypeMaxData then parseMaxDataFrame b
      else if frameType = FrameTypeMaxStreamData then parseMaxStreamDataFrame b
      else if frameType = FrameTypeBidiMaxStreams \<or> frameType = FrameTypeUniMaxStreams then parseMaxStreamsFrame b frameType
      else if frameType = FrameTypeDataBlocked then parseDataBlockedFrame b
      else if frameType = FrameTypeStreamDataBlocked then parseStreamDataBlockedFrame b
      else if frameType = FrameTypeBidiStreamBlocked \<or> frameType = FrameTypeUniStreamBlocked then parseStreamsBlockedFrame b frameType
      else if frameType = FrameTypeNewConnectionID then parseNewConnectionIDFrame b
      else if frameType = FrameTypeRetireConnectionID then parseRetireConnectionIDFrame b
      else if frameType = FrameTypePathChallenge then parsePathChallengeFrame b
      else if frameType = FrameTypePathResponse then parsePathResponseFrame b
      else if frameType = FrameTypeConnectionClose \<or> frameType = FrameTypeApplicationClose then parseConnectionCloseFrame b frameType
      else if frameType = FrameTypeHandshakeDone then Inr (HandshakeDoneFrame, 0)
      else if frameType = FrameTypeResetStreamAt then parseResetStreamFrame b True
      else if frameType = FrameTypeAckFrequency then parseAckFrequencyFrame b
      else if frameType = FrameTypeImmediateAck then Inr (ImmediateAckFrame, 0)
      else Inl UnknownFrameType)"

definition ParseAckFrame :: "FrameParser \<Rightarrow> FrameType \<Rightarrow> bytes \<Rightarrow> EncryptionLevel \<Rightarrow> wire_error + (Frame \<times> nat)" where
  "ParseAckFrame p frameType b encLevel =
     (let ade = (if encLevel \<noteq> Encryption1RTT then DefaultAckDelayExponent else ackDelayExponent p);
          empty = \<lparr>AckRanges = [], DelayTime = 0, ECT0 = 0, ECT1 = 0, ECNCE = 0\<rparr>
      in rbind (parseAckFrame (AckFrame_Reset empty) b frameType ade) (\<lambda>(f, l). Inr (AckF f, l)))"

text \<open>One turn of the loop of \<open>handleFrames\<close>: the type, then the parser of that type; and the loop, which collects the frames
  that the code logs and handles one by one.\<close>

definition parse_frame :: "FrameParser \<Rightarrow> EncryptionLevel \<Rightarrow> FrameType \<Rightarrow> bytes \<Rightarrow> wire_error + (Frame \<times> nat)" where
  "parse_frame p encLevel frameType b =
     (if IsStreamFrameType frameType then ParseStreamFrame b frameType
      else if IsAckFrameType frameType then ParseAckFrame p frameType b encLevel
      else if IsDatagramFrameType frameType then parseDatagramFrame b frameType
      else ParseLessCommonFrame frameType b)"

lemma ParseType_used: "ParseType p b e n = Inr (t, m) \<Longrightarrow> n < m \<and> b \<noteq> []"
proof (induction p b e n rule: ParseType.induct)
  case (1 p b e n)
  have l: "0 < l" if "varint_Parse b = Inr (v, l)" for v l
    using that by (auto simp: varint_Parse_def Let_def split: if_splits)
  show ?case
    using 1(2) 1(1) l by (subst (asm) ParseType.simps) (fastforce split: if_splits sum.splits varint_error.splits)
qed

function packet_frames :: "FrameParser \<Rightarrow> EncryptionLevel \<Rightarrow> bytes \<Rightarrow> parse_error + Frame list" where
  "packet_frames p encLevel b =
     (if b = [] then Inr []
      else
        (case ParseType p b encLevel 0 of
           Inl AtEnd \<Rightarrow> Inr []
         | Inl e \<Rightarrow> Inl e
         | Inr (frameType, l) \<Rightarrow>
             (case parse_frame p encLevel frameType (drop l b) of
                Inl e \<Rightarrow> Inl (FrameEncodingError (Some frameType) e)
              | Inr (frame, l') \<Rightarrow> rbind (packet_frames p encLevel (drop l' (drop l b))) (\<lambda>frames. Inr (frame # frames)))))"
  by pat_completeness auto
termination
  by (relation "measure (\<lambda>(p, e, b). length b)") (auto dest!: ParseType_used)

declare packet_frames.simps [simp del]

section \<open>Writers\<close>

text \<open>\<open>X_Append f b\<close> is the slice \<open>b\<close> with the frame appended, \<open>X_Length f\<close> the announced length.\<close>

fun put_varints :: "bytes \<Rightarrow> u64 list \<Rightarrow> wire_error + bytes" where
  "put_varints b [] = Inr b"
| "put_varints b (v # vs) = rbind (put_varint b v) (\<lambda>b. put_varints b vs)"

fun len_varints :: "int \<Rightarrow> u64 list \<Rightarrow> wire_error + int" where
  "len_varints n [] = Inr n"
| "len_varints n (v # vs) = rbind (len_varint v) (\<lambda>l. len_varints (n + l) vs)"

definition ResetStreamFrame_Append :: "StreamID \<Rightarrow> u64 \<Rightarrow> ByteCount \<Rightarrow> ByteCount \<Rightarrow> bytes \<Rightarrow> wire_error + bytes" where
  "ResetStreamFrame_Append streamID errorCode finalSize reliableSize b =
     rbind (put_varint b (if reliableSize = 0 then FrameTypeResetStream else FrameTypeResetStreamAt)) (\<lambda>b.
     rbind (put_varints b [w64 streamID, errorCode, w64 finalSize]) (\<lambda>b.
       if reliableSize > 0 then put_varint b (w64 reliableSize) else Inr b))"

definition ResetStreamFrame_Length :: "StreamID \<Rightarrow> u64 \<Rightarrow> ByteCount \<Rightarrow> ByteCount \<Rightarrow> wire_error + int" where
  "ResetStreamFrame_Length streamID errorCode finalSize reliableSize =
     rbind (if reliableSize > 0 then rbind (len_varint (w64 reliableSize)) (\<lambda>l. Inr (1 + l)) else Inr 1) (\<lambda>n.
       len_varints n [w64 streamID, errorCode, w64 finalSize])"

definition StopSendingFrame_Append :: "StreamID \<Rightarrow> u64 \<Rightarrow> bytes \<Rightarrow> wire_error + bytes" where
  "StopSendingFrame_Append streamID errorCode b = put_varints (b @ [ucast FrameTypeStopSending]) [w64 streamID, errorCode]"

definition StopSendingFrame_Length :: "StreamID \<Rightarrow> u64 \<Rightarrow> wire_error + int" where
  "StopSendingFrame_Length streamID errorCode = len_varints 1 [w64 streamID, errorCode]"

definition CryptoFrame_Append :: "CryptoFrame \<Rightarrow> bytes \<Rightarrow> wire_error + bytes" where
  "CryptoFrame_Append f b =
     rbind (put_varints (b @ [ucast FrameTypeCrypto]) [w64 (cfOffset f), of_nat (length (cfData f))]) (\<lambda>b. Inr (b @ cfData f))"

definition CryptoFrame_Length :: "CryptoFrame \<Rightarrow> wire_error + int" where
  "CryptoFrame_Length f =
     rbind (len_varints 1 [w64 (cfOffset f), of_nat (length (cfData f))]) (\<lambda>n. Inr (n + int (length (cfData f))))"

definition NewTokenFrame_Append :: "bytes \<Rightarrow> bytes \<Rightarrow> wire_error + bytes" where
  "NewTokenFrame_Append token b =
     rbind (put_varint (b @ [ucast FrameTypeNewToken]) (of_nat (length token))) (\<lambda>b. Inr (b @ token))"

definition NewTokenFrame_Length :: "bytes \<Rightarrow> wire_error + int" where
  "NewTokenFrame_Length token = rbind (len_varints 1 [of_nat (length token)]) (\<lambda>n. Inr (n + int (length token)))"

definition MaxDataFrame_Append :: "ByteCount \<Rightarrow> bytes \<Rightarrow> wire_error + bytes" where
  "MaxDataFrame_Append maximumData b = put_varint (b @ [ucast FrameTypeMaxData]) (w64 maximumData)"

definition MaxDataFrame_Length :: "ByteCount \<Rightarrow> wire_error + int" where
  "MaxDataFrame_Length maximumData = len_varints 1 [w64 maximumData]"

definition MaxStreamDataFrame_Append :: "StreamID \<Rightarrow> ByteCount \<Rightarrow> bytes \<Rightarrow> wire_error + bytes" where
  "MaxStreamDataFrame_Append streamID maximum b = put_varints (b @ [ucast FrameTypeMaxStreamData]) [w64 streamID, w64 maximum]"

definition MaxStreamDataFrame_Length :: "StreamID \<Rightarrow> ByteCount \<Rightarrow> wire_error + int" where
  "MaxStreamDataFrame_Length streamID maximum = len_varints 1 [w64 streamID, w64 maximum]"

definition MaxStreamsFrame_Append :: "StreamType \<Rightarrow> StreamNum \<Rightarrow> bytes \<Rightarrow> wire_error + bytes" where
  "MaxStreamsFrame_Append stype n b =
     put_varint (b @ [ucast (case stype of StreamTypeBidi \<Rightarrow> FrameTypeBidiMaxStreams | StreamTypeUni \<Rightarrow> FrameTypeUniMaxStreams)]) (w64 n)"

definition MaxStreamsFrame_Length :: "StreamNum \<Rightarrow> wire_error + int" where
  "MaxStreamsFrame_Length n = len_varints 1 [w64 n]"

definition DataBlockedFrame_Append :: "ByteCount \<Rightarrow> bytes \<Rightarrow> wire_error + bytes" where
  "DataBlockedFrame_Append maximumData b = put_varint (b @ [ucast FrameTypeDataBlocked]) (w64 maximumData)"

definition DataBlockedFrame_Length :: "ByteCount \<Rightarrow> wire_error + int" where
  "DataBlockedFrame_Length maximumData = len_varints 1 [w64 maximumData]"

definition StreamDataBlockedFrame_Append :: "StreamID \<Rightarrow> ByteCount \<Rightarrow> bytes \<Rightarrow> wire_error + bytes" where
  "StreamDataBlockedFrame_Append streamID maximum b = put_varints (b @ [0x15]) [w64 streamID, w64 maximum]"

definition StreamDataBlockedFrame_Length :: "StreamID \<Rightarrow> ByteCount \<Rightarrow> wire_error + int" where
  "StreamDataBlockedFrame_Length streamID maximum = len_varints 1 [w64 streamID, w64 maximum]"

definition StreamsBlockedFrame_Append :: "StreamType \<Rightarrow> StreamNum \<Rightarrow> bytes \<Rightarrow> wire_error + bytes" where
  "StreamsBlockedFrame_Append stype n b =
     put_varint (b @ [ucast (case stype of StreamTypeBidi \<Rightarrow> FrameTypeBidiStreamBlocked | StreamTypeUni \<Rightarrow> FrameTypeUniStreamBlocked)]) (w64 n)"

definition StreamsBlockedFrame_Length :: "StreamNum \<Rightarrow> wire_error + int" where
  "StreamsBlockedFrame_Length n = len_varints 1 [w64 n]"

definition NewConnectionIDFrame_Append :: "u64 \<Rightarrow> u64 \<Rightarrow> bytes \<Rightarrow> bytes \<Rightarrow> bytes \<Rightarrow> wire_error + bytes" where
  "NewConnectionIDFrame_Append sequenceNumber retirePriorTo connectionID token b =
     rbind (put_varints (b @ [ucast FrameTypeNewConnectionID]) [sequenceNumber, retirePriorTo]) (\<lambda>b.
       let connIDLen = length connectionID
       in if connIDLen > MaxConnIDLen then Inl InvalidConnectionIDLen
          else Inr (b @ [of_nat connIDLen] @ connectionID @ token))"

definition NewConnectionIDFrame_Length :: "u64 \<Rightarrow> u64 \<Rightarrow> bytes \<Rightarrow> wire_error + int" where
  "NewConnectionIDFrame_Length sequenceNumber retirePriorTo connectionID =
     rbind (len_varints 1 [sequenceNumber, retirePriorTo]) (\<lambda>n. Inr (n + 1 + int (length connectionID) + 16))"

definition RetireConnectionIDFrame_Append :: "u64 \<Rightarrow> bytes \<Rightarrow> wire_error + bytes" where
  "RetireConnectionIDFrame_Append sequenceNumber b = put_varint (b @ [ucast FrameTypeRetireConnectionID]) sequenceNumber"

definition RetireConnectionIDFrame_Length :: "u64 \<Rightarrow> wire_error + int" where
  "RetireConnectionIDFrame_Length sequenceNumber = len_varints 1 [sequenceNumber]"

definition PathChallengeFrame_Append :: "bytes \<Rightarrow> bytes \<Rightarrow> wire_error + bytes" where
  "PathChallengeFrame_Append d b = Inr (b @ [ucast FrameTypePathChallenge] @ d)"

definition PathResponseFrame_Append :: "bytes \<Rightarrow> bytes \<Rightarrow> wire_error + bytes" where
  "PathResponseFrame_Append d b = Inr (b @ [ucast FrameTypePathResponse] @ d)"

definition ConnectionCloseFrame_Append :: "bool \<Rightarrow> u64 \<Rightarrow> u64 \<Rightarrow> bytes \<Rightarrow> bytes \<Rightarrow> wire_error + bytes" where
  "ConnectionCloseFrame_Append isApplicationError errorCode frameType reasonPhrase b =
     (let b = b @ [ucast (if isApplicationError then FrameTypeApplicationClose else FrameTypeConnectionClose)]
      in rbind (put_varint b errorCode) (\<lambda>b.
         rbind (if \<not> isApplicationError then put_varint b frameType else Inr b) (\<lambda>b.
         rbind (put_varint b (of_nat (length reasonPhrase))) (\<lambda>b. Inr (b @ reasonPhrase)))))"

definition ConnectionCloseFrame_Length :: "bool \<Rightarrow> u64 \<Rightarrow> u64 \<Rightarrow> bytes \<Rightarrow> wire_error + int" where
  "ConnectionCloseFrame_Length isApplicationError errorCode frameType reasonPhrase =
     rbind (len_varints 1 [errorCode, of_nat (length reasonPhrase)]) (\<lambda>n.
       let n = n + int (length reasonPhrase)
       in if \<not> isApplicationError then len_varints n [frameType] else Inr n)"

definition AckFrequencyFrame_Append :: "u64 \<Rightarrow> u64 \<Rightarrow> nanos \<Rightarrow> PacketNumber \<Rightarrow> bytes \<Rightarrow> wire_error + bytes" where
  "AckFrequencyFrame_Append sequenceNumber threshold requestMaxAckDelay reordering b =
     put_varints b [FrameTypeAckFrequency, sequenceNumber, threshold, w64 (godiv requestMaxAckDelay 1000), w64 reordering]"

definition AckFrequencyFrame_Length :: "u64 \<Rightarrow> u64 \<Rightarrow> nanos \<Rightarrow> PacketNumber \<Rightarrow> wire_error + int" where
  "AckFrequencyFrame_Length sequenceNumber threshold requestMaxAckDelay reordering =
     len_varints 2 [sequenceNumber, threshold, w64 (godiv requestMaxAckDelay 1000), w64 reordering]"

definition DatagramFrame_Append :: "DatagramFrame \<Rightarrow> bytes \<Rightarrow> wire_error + bytes" where
  "DatagramFrame_Append f b =
     (let typ = (0x30 :: byte) XOR (if dgDataLenPresent f then 0x1 else 0); b = b @ [typ]
      in rbind (if dgDataLenPresent f then put_varint b (of_nat (length (dgData f))) else Inr b) (\<lambda>b. Inr (b @ dgData f)))"

definition DatagramFrame_Length :: "DatagramFrame \<Rightarrow> wire_error + int" where
  "DatagramFrame_Length f =
     (let n = 1 + int (length (dgData f))
      in if dgDataLenPresent f then len_varints n [of_nat (length (dgData f))] else Inr n)"

definition DatagramFrame_MaxDataLen :: "DatagramFrame \<Rightarrow> int \<Rightarrow> wire_error + int" where
  "DatagramFrame_MaxDataLen f maxSize =
     (let headerLen = 1 + (if dgDataLenPresent f then 1 else 0)
      in if headerLen > maxSize then Inr 0
         else
           (let maxDataLen = maxSize - headerLen
            in if dgDataLenPresent f then rbind (len_varint (w64 maxDataLen)) (\<lambda>l. Inr (if l \<noteq> 1 then maxDataLen - 1 else maxDataLen))
               else Inr maxDataLen))"

definition StreamFrame_Append :: "StreamFrame \<Rightarrow> bytes \<Rightarrow> wire_error + bytes" where
  "StreamFrame_Append f b =
     (if sfData f = [] \<and> \<not> sfFin f then Inl EmptyStreamFrame
      else
        (let typ = (0x8 :: byte);
             typ = (if sfFin f then typ XOR 0x1 else typ);
             hasOffset = (sfOffset f \<noteq> 0);
             typ = (if sfDataLenPresent f then typ XOR 0x2 else typ);
             typ = (if hasOffset then typ XOR 0x4 else typ)
         in rbind (put_varint (b @ [typ]) (w64 (sfStreamID f))) (\<lambda>b.
            rbind (if hasOffset then put_varint b (w64 (sfOffset f)) else Inr b) (\<lambda>b.
            rbind (if sfDataLenPresent f then put_varint b (of_nat (length (sfData f))) else Inr b) (\<lambda>b.
              Inr (b @ sfData f))))))"

definition StreamFrame_Length :: "StreamFrame \<Rightarrow> wire_error + int" where
  "StreamFrame_Length f =
     rbind (len_varints 1 [w64 (sfStreamID f)]) (\<lambda>n.
     rbind (if sfOffset f \<noteq> 0 then len_varints n [w64 (sfOffset f)] else Inr n) (\<lambda>n.
     rbind (if sfDataLenPresent f then len_varints n [of_nat (length (sfData f))] else Inr n) (\<lambda>n.
       Inr (n + int (length (sfData f))))))"

fun Frame_Append :: "Frame \<Rightarrow> bytes \<Rightarrow> wire_error + bytes" where
  "Frame_Append PingFrame b = Inr (b @ [ucast FrameTypePing])"
| "Frame_Append (AckF f) b = AckFrame_Append f b"
| "Frame_Append (ResetStreamFrame s e n r) b = ResetStreamFrame_Append s e n r b"
| "Frame_Append (StopSendingFrame s e) b = StopSendingFrame_Append s e b"
| "Frame_Append (CryptoF f) b = CryptoFrame_Append f b"
| "Frame_Append (NewTokenFrame t) b = NewTokenFrame_Append t b"
| "Frame_Append (StreamF f) b = StreamFrame_Append f b"
| "Frame_Append (MaxDataFrame m) b = MaxDataFrame_Append m b"
| "Frame_Append (MaxStreamDataFrame s m) b = MaxStreamDataFrame_Append s m b"
| "Frame_Append (MaxStreamsFrame t n) b = MaxStreamsFrame_Append t n b"
| "Frame_Append (DataBlockedFrame m) b = DataBlockedFrame_Append m b"
| "Frame_Append (StreamDataBlockedFrame s m) b = StreamDataBlockedFrame_Append s m b"
| "Frame_Append (StreamsBlockedFrame t n) b = StreamsBlockedFrame_Append t n b"
| "Frame_Append (NewConnectionIDFrame s r c t) b = NewConnectionIDFrame_Append s r c t b"
| "Frame_Append (RetireConnectionIDFrame s) b = RetireConnectionIDFrame_Append s b"
| "Frame_Append (PathChallengeFrame d) b = PathChallengeFrame_Append d b"
| "Frame_Append (PathResponseFrame d) b = PathResponseFrame_Append d b"
| "Frame_Append (ConnectionCloseFrame a e t r) b = ConnectionCloseFrame_Append a e t r b"
| "Frame_Append HandshakeDoneFrame b = Inr (b @ [ucast FrameTypeHandshakeDone])"
| "Frame_Append (DatagramF f) b = DatagramFrame_Append f b"
| "Frame_Append (AckFrequencyFrame s t d r) b = AckFrequencyFrame_Append s t d r b"
| "Frame_Append ImmediateAckFrame b = put_varint b FrameTypeImmediateAck"

fun Frame_Length :: "Frame \<Rightarrow> wire_error + int" where
  "Frame_Length PingFrame = Inr 1"
| "Frame_Length (AckF f) = AckFrame_Length f"
| "Frame_Length (ResetStreamFrame s e n r) = ResetStreamFrame_Length s e n r"
| "Frame_Length (StopSendingFrame s e) = StopSendingFrame_Length s e"
| "Frame_Length (CryptoF f) = CryptoFrame_Length f"
| "Frame_Length (NewTokenFrame t) = NewTokenFrame_Length t"
| "Frame_Length (StreamF f) = StreamFrame_Length f"
| "Frame_Length (MaxDataFrame m) = MaxDataFrame_Length m"
| "Frame_Length (MaxStreamDataFrame s m) = MaxStreamDataFrame_Length s m"
| "Frame_Length (MaxStreamsFrame t n) = MaxStreamsFrame_Length n"
| "Frame_Length (DataBlockedFrame m) = DataBlockedFrame_Length m"
| "Frame_Length (StreamDataBlockedFrame s m) = StreamDataBlockedFrame_Length s m"
| "Frame_Length (StreamsBlockedFrame t n) = StreamsBlockedFrame_Length n"
| "Frame_Length (NewConnectionIDFrame s r c t) = NewConnectionIDFrame_Length s r c"
| "Frame_Length (RetireConnectionIDFrame s) = RetireConnectionIDFrame_Length s"
| "Frame_Length (PathChallengeFrame d) = Inr (1 + 8)"
| "Frame_Length (PathResponseFrame d) = Inr (1 + 8)"
| "Frame_Length (ConnectionCloseFrame a e t r) = ConnectionCloseFrame_Length a e t r"
| "Frame_Length HandshakeDoneFrame = Inr 1"
| "Frame_Length (DatagramF f) = DatagramFrame_Length f"
| "Frame_Length (AckFrequencyFrame s t d r) = AckFrequencyFrame_Length s t d r"
| "Frame_Length ImmediateAckFrame = len_varint FrameTypeImmediateAck"

section \<open>Splitting\<close>

definition StreamFrame_MaxDataLen :: "StreamFrame \<Rightarrow> int \<Rightarrow> wire_error + int" where
  "StreamFrame_MaxDataLen f maxSize =
     rbind (len_varints 1 [w64 (sfStreamID f)]) (\<lambda>h.
     rbind (if sfOffset f \<noteq> 0 then len_varints h [w64 (sfOffset f)] else Inr h) (\<lambda>h.
       let headerLen = (if sfDataLenPresent f then h + 1 else h)
       in if headerLen > maxSize then Inr 0
          else
            (let maxDataLen = maxSize - headerLen
             in if sfDataLenPresent f then rbind (len_varint (w64 maxDataLen)) (\<lambda>l. Inr (if l \<noteq> 1 then maxDataLen - 1 else maxDataLen))
                else Inr maxDataLen)))"

text \<open>The new frame, the remaining frame, and whether splitting was required. The rest is copied into a buffer of the pool.\<close>

definition StreamFrame_MaybeSplitOffFrame :: "StreamFrame \<Rightarrow> int \<Rightarrow> wire_error + (StreamFrame option \<times> StreamFrame \<times> bool)" where
  "StreamFrame_MaybeSplitOffFrame f maxSize =
     rbind (StreamFrame_Length f) (\<lambda>len.
       if maxSize \<ge> len then Inr (None, f, False)
       else rbind (StreamFrame_MaxDataLen f maxSize) (\<lambda>n.
         if n = 0 then Inr (None, f, True)
         else if n > int (length (sfData f)) \<or> length (sfData f) - nat n > MaxPacketBufferSize then Inl WPanic
         else Inr (Some (f\<lparr>sfFin := False, sfData := take (nat n) (sfData f)\<rparr>),
                   f\<lparr>sfData := drop (nat n) (sfData f), sfOffset := sfOffset f + n\<rparr>, True)))"

definition CryptoFrame_MaxDataLen :: "CryptoFrame \<Rightarrow> int \<Rightarrow> wire_error + int" where
  "CryptoFrame_MaxDataLen f maxSize =
     rbind (len_varints 1 [w64 (cfOffset f)]) (\<lambda>h.
       let headerLen = h + 1
       in if headerLen > maxSize then Inr 0
          else
            (let maxDataLen = maxSize - headerLen
             in rbind (len_varint (w64 maxDataLen)) (\<lambda>l. Inr (if l \<noteq> 1 then maxDataLen - 1 else maxDataLen))))"

definition CryptoFrame_MaybeSplitOffFrame :: "CryptoFrame \<Rightarrow> int \<Rightarrow> wire_error + (CryptoFrame option \<times> CryptoFrame \<times> bool)" where
  "CryptoFrame_MaybeSplitOffFrame f maxSize =
     rbind (CryptoFrame_Length f) (\<lambda>len.
       if len \<le> maxSize then Inr (None, f, False)
       else rbind (CryptoFrame_MaxDataLen f maxSize) (\<lambda>n.
         if n = 0 then Inr (None, f, True)
         else if n > int (length (cfData f)) then Inl WPanic
         else Inr (Some (f\<lparr>cfData := take (nat n) (cfData f)\<rparr>),
                   f\<lparr>cfData := drop (nat n) (cfData f), cfOffset := cfOffset f + n\<rparr>, True)))"

section \<open>Well-formed frames\<close>

abbreviation inum :: "int \<Rightarrow> bool" where "inum i \<equiv> 0 \<le> i \<and> i < 2 ^ 62"

fun frame_ok :: "Frame \<Rightarrow> bool" where
  "frame_ok PingFrame \<longleftrightarrow> True"
| "frame_ok (AckF f) \<longleftrightarrow> ack_ok f"
| "frame_ok (ResetStreamFrame s e n r) \<longleftrightarrow> inum s \<and> vint e \<and> inum n \<and> 0 \<le> r \<and> r \<le> n"
| "frame_ok (StopSendingFrame s e) \<longleftrightarrow> inum s \<and> vint e"
| "frame_ok (CryptoF f) \<longleftrightarrow> inum (cfOffset f) \<and> length (cfData f) < 2 ^ 62"
| "frame_ok (NewTokenFrame t) \<longleftrightarrow> t \<noteq> [] \<and> length t < 2 ^ 62"
| "frame_ok (StreamF f) \<longleftrightarrow> inum (sfStreamID f) \<and> 0 \<le> sfOffset f \<and> sfOffset f + int (length (sfData f)) \<le> MaxByteCount \<and>
     length (sfData f) \<le> MaxPacketBufferSize"
| "frame_ok (MaxDataFrame m) \<longleftrightarrow> inum m"
| "frame_ok (MaxStreamDataFrame s m) \<longleftrightarrow> inum s \<and> inum m"
| "frame_ok (MaxStreamsFrame t n) \<longleftrightarrow> 0 \<le> n \<and> n \<le> MaxStreamCount"
| "frame_ok (DataBlockedFrame m) \<longleftrightarrow> inum m"
| "frame_ok (StreamDataBlockedFrame s m) \<longleftrightarrow> inum s \<and> inum m"
| "frame_ok (StreamsBlockedFrame t n) \<longleftrightarrow> 0 \<le> n \<and> n \<le> MaxStreamCount"
| "frame_ok (NewConnectionIDFrame s r c t) \<longleftrightarrow> vint s \<and> vint r \<and> r \<le> s \<and> c \<noteq> [] \<and> length c \<le> MaxConnIDLen \<and> length t = 16"
| "frame_ok (RetireConnectionIDFrame s) \<longleftrightarrow> vint s"
| "frame_ok (PathChallengeFrame d) \<longleftrightarrow> length d = 8"
| "frame_ok (PathResponseFrame d) \<longleftrightarrow> length d = 8"
| "frame_ok (ConnectionCloseFrame a e t r) \<longleftrightarrow> vint e \<and> vint t \<and> length r < 2 ^ 62"
| "frame_ok HandshakeDoneFrame \<longleftrightarrow> True"
| "frame_ok (DatagramF f) \<longleftrightarrow> length (dgData f) < 2 ^ 62"
| "frame_ok (AckFrequencyFrame s t d r) \<longleftrightarrow> vint s \<and> vint t \<and> 0 \<le> d \<and> d < 2 ^ 63 \<and> inum r"
| "frame_ok ImmediateAckFrame \<longleftrightarrow> True"

text \<open>A STREAM frame without data and without FIN is accepted by the parser, but the writer refuses it.\<close>

fun writable :: "Frame \<Rightarrow> bool" where
  "writable (StreamF f) \<longleftrightarrow> sfData f \<noteq> [] \<or> sfFin f"
| "writable _ \<longleftrightarrow> True"

text \<open>A frame without a length extends to the end of the packet.\<close>

fun open_ended :: "Frame \<Rightarrow> bool" where
  "open_ended (StreamF f) \<longleftrightarrow> \<not> sfDataLenPresent f"
| "open_ended (DatagramF f) \<longleftrightarrow> \<not> dgDataLenPresent f"
| "open_ended _ \<longleftrightarrow> False"

text \<open>What the peer sees of a frame: durations are rounded to their unit, at most 64 ranges are acknowledged, and the close
  of an application has no frame type.\<close>

fun on_wire :: "Frame \<Rightarrow> Frame" where
  "on_wire (AckF f) = AckF (as_sent f)"
| "on_wire (AckFrequencyFrame s t d r) = AckFrequencyFrame s t (d div 1000 * 1000) r"
| "on_wire (ConnectionCloseFrame a e t r) = ConnectionCloseFrame a e (if a then 0 else t) r"
| "on_wire f = f"

definition stream_type :: "StreamFrame \<Rightarrow> FrameType" where
  "stream_type f = 0x8 + (if sfFin f then 1 else 0) + (if sfDataLenPresent f then 2 else 0) + (if sfOffset f \<noteq> 0 then 4 else 0)"

fun frame_type :: "Frame \<Rightarrow> FrameType" where
  "frame_type PingFrame = FrameTypePing"
| "frame_type (AckF f) = ack_type f"
| "frame_type (ResetStreamFrame s e n r) = (if r = 0 then FrameTypeResetStream else FrameTypeResetStreamAt)"
| "frame_type (StopSendingFrame s e) = FrameTypeStopSending"
| "frame_type (CryptoF f) = FrameTypeCrypto"
| "frame_type (NewTokenFrame t) = FrameTypeNewToken"
| "frame_type (StreamF f) = stream_type f"
| "frame_type (MaxDataFrame m) = FrameTypeMaxData"
| "frame_type (MaxStreamDataFrame s m) = FrameTypeMaxStreamData"
| "frame_type (MaxStreamsFrame t n) = (case t of StreamTypeBidi \<Rightarrow> FrameTypeBidiMaxStreams | StreamTypeUni \<Rightarrow> FrameTypeUniMaxStreams)"
| "frame_type (DataBlockedFrame m) = FrameTypeDataBlocked"
| "frame_type (StreamDataBlockedFrame s m) = FrameTypeStreamDataBlocked"
| "frame_type (StreamsBlockedFrame t n) = (case t of StreamTypeBidi \<Rightarrow> FrameTypeBidiStreamBlocked | StreamTypeUni \<Rightarrow> FrameTypeUniStreamBlocked)"
| "frame_type (NewConnectionIDFrame s r c t) = FrameTypeNewConnectionID"
| "frame_type (RetireConnectionIDFrame s) = FrameTypeRetireConnectionID"
| "frame_type (PathChallengeFrame d) = FrameTypePathChallenge"
| "frame_type (PathResponseFrame d) = FrameTypePathResponse"
| "frame_type (ConnectionCloseFrame a e t r) = (if a then FrameTypeApplicationClose else FrameTypeConnectionClose)"
| "frame_type HandshakeDoneFrame = FrameTypeHandshakeDone"
| "frame_type (DatagramF f) = (if dgDataLenPresent f then FrameTypeDatagramWithLength else FrameTypeDatagramNoLength)"
| "frame_type (AckFrequencyFrame s t d r) = FrameTypeAckFrequency"
| "frame_type ImmediateAckFrame = FrameTypeImmediateAck"

fun vis :: "u64 list \<Rightarrow> bytes" where
  "vis [] = []"
| "vis (v # vs) = vi v @ vis vs"

fun frame_body :: "Frame \<Rightarrow> bytes" where
  "frame_body PingFrame = []"
| "frame_body (AckF f) = ack_bytes f (ranges_sent f)"
| "frame_body (ResetStreamFrame s e n r) = vis ([w64 s, e, w64 n] @ (if r > 0 then [w64 r] else []))"
| "frame_body (StopSendingFrame s e) = vis [w64 s, e]"
| "frame_body (CryptoF f) = vis [w64 (cfOffset f), of_nat (length (cfData f))] @ cfData f"
| "frame_body (NewTokenFrame t) = vis [of_nat (length t)] @ t"
| "frame_body (StreamF f) = vis ([w64 (sfStreamID f)] @ (if sfOffset f \<noteq> 0 then [w64 (sfOffset f)] else []) @
     (if sfDataLenPresent f then [of_nat (length (sfData f))] else [])) @ sfData f"
| "frame_body (MaxDataFrame m) = vis [w64 m]"
| "frame_body (MaxStreamDataFrame s m) = vis [w64 s, w64 m]"
| "frame_body (MaxStreamsFrame t n) = vis [w64 n]"
| "frame_body (DataBlockedFrame m) = vis [w64 m]"
| "frame_body (StreamDataBlockedFrame s m) = vis [w64 s, w64 m]"
| "frame_body (StreamsBlockedFrame t n) = vis [w64 n]"
| "frame_body (NewConnectionIDFrame s r c t) = vis [s, r] @ of_nat (length c) # c @ t"
| "frame_body (RetireConnectionIDFrame s) = vis [s]"
| "frame_body (PathChallengeFrame d) = d"
| "frame_body (PathResponseFrame d) = d"
| "frame_body (ConnectionCloseFrame a e t r) = vis ([e] @ (if a then [] else [t]) @ [of_nat (length r)]) @ r"
| "frame_body HandshakeDoneFrame = []"
| "frame_body (DatagramF f) = vis (if dgDataLenPresent f then [of_nat (length (dgData f))] else []) @ dgData f"
| "frame_body (AckFrequencyFrame s t d r) = vis [s, t, w64 (d div 1000), w64 r]"
| "frame_body ImmediateAckFrame = []"

lemma vi_small: "uint v < 64 \<Longrightarrow> vi v = [ucast v]"
  by (simp add: vi_def varint_Append_def le_maxVarInt)

lemma vint_of_nat [simp]: "n < 2 ^ 62 \<Longrightarrow> vint (of_nat n)"
  by (simp add: vint_def uint_nat unat_of_nat nat_less_iff)

lemma unat_of_nat_62 [simp]: "n < 2 ^ 62 \<Longrightarrow> unat (of_nat n :: u64) = n"
  by (simp add: unat_of_nat)

lemma put_varints_vis: "list_all vint vs \<Longrightarrow> put_varints b vs = Inr (b @ vis vs)"
  by (induction vs arbitrary: b) (auto simp: codec_simps)

lemma len_varints_vis: "list_all vint vs \<Longrightarrow> len_varints n vs = Inr (n + int (length (vis vs)))"
  by (induction vs arbitrary: n) (auto simp: codec_simps)

lemma type_bytes:
  "vi FrameTypePing = [ucast FrameTypePing]" "vi FrameTypeResetStream = [ucast FrameTypeResetStream]" "vi FrameTypeStopSending = [ucast FrameTypeStopSending]"
  "vi FrameTypeCrypto = [ucast FrameTypeCrypto]" "vi FrameTypeNewToken = [ucast FrameTypeNewToken]" "vi FrameTypeMaxData = [ucast FrameTypeMaxData]"
  "vi FrameTypeMaxStreamData = [ucast FrameTypeMaxStreamData]" "vi FrameTypeBidiMaxStreams = [ucast FrameTypeBidiMaxStreams]"
  "vi FrameTypeUniMaxStreams = [ucast FrameTypeUniMaxStreams]" "vi FrameTypeDataBlocked = [ucast FrameTypeDataBlocked]"
  "vi FrameTypeStreamDataBlocked = [0x15]" "vi FrameTypeBidiStreamBlocked = [ucast FrameTypeBidiStreamBlocked]"
  "vi FrameTypeUniStreamBlocked = [ucast FrameTypeUniStreamBlocked]" "vi FrameTypeNewConnectionID = [ucast FrameTypeNewConnectionID]"
  "vi FrameTypeRetireConnectionID = [ucast FrameTypeRetireConnectionID]" "vi FrameTypePathChallenge = [ucast FrameTypePathChallenge]"
  "vi FrameTypePathResponse = [ucast FrameTypePathResponse]" "vi FrameTypeConnectionClose = [ucast FrameTypeConnectionClose]"
  "vi FrameTypeApplicationClose = [ucast FrameTypeApplicationClose]" "vi FrameTypeHandshakeDone = [ucast FrameTypeHandshakeDone]"
  "vi FrameTypeAck = [ucast FrameTypeAck]" "vi FrameTypeAckECN = [ucast FrameTypeAckECN]"
  "vi FrameTypeDatagramNoLength = [0x30]" "vi FrameTypeDatagramWithLength = [0x31]"
  "length (vi FrameTypeResetStreamAt) = 1" "length (vi FrameTypeAckFrequency) = 2"
  by (simp_all add: vi_small vi_def varint_Append_def le_maxVarInt frame_type_defs)

lemma type_vint: "vint (frame_type f)"
  by (cases f) (auto simp: vint_def frame_type_defs stream_type_def ack_type_def split: StreamType.splits)

lemma stream_type_byte: "vi (stream_type f) = [(if sfOffset f \<noteq> 0 then (\<lambda>t. t XOR 0x4) else id)
   ((if sfDataLenPresent f then (\<lambda>t. t XOR 0x2) else id) ((if sfFin f then (\<lambda>t. t XOR 0x1) else id) 0x8))]"
  by (subst vi_small) (simp_all add: stream_type_def)

section \<open>Reading back one frame\<close>

lemma vint_types [simp]: "vint FrameTypeResetStream" "vint FrameTypeResetStreamAt" "vint FrameTypeAckFrequency" "vint FrameTypeImmediateAck"
  by (simp_all add: vint_def frame_type_defs)

lemma Frame_Append_body:
  assumes "frame_ok f" "writable f" shows "Frame_Append f b = Inr (b @ vi (frame_type f) @ frame_body f)"
proof (cases f)
  case (AckF a)
  then show ?thesis using assms(1) Append_ack_bytes [of a b] by (simp add: ack_type_def type_bytes)
next
  case (ResetStreamFrame s e n r)
  then show ?thesis using assms(1)
    by (simp add: ResetStreamFrame_Append_def codec_simps put_varints_vis)
next
  case (StreamF s)
  have "vint (w64 (sfOffset s))" using assms(1) StreamF by (intro vint_w64) (auto simp: MaxByteCount_def)
  moreover have "length (sfData s) < 2 ^ 62" using assms(1) StreamF by (auto simp: MaxByteCount_def MaxPacketBufferSize_def)
  ultimately show ?thesis using assms StreamF
    by (simp add: StreamFrame_Append_def Let_def codec_simps stream_type_byte)
next
  case (DatagramF d)
  then show ?thesis using assms(1) by (simp add: DatagramFrame_Append_def Let_def codec_simps type_bytes)
next
  case (AckFrequencyFrame s t d r)
  have "vint (w64 (d div 1000))" using assms(1) AckFrequencyFrame by (intro vint_w64) auto
  then show ?thesis using assms(1) AckFrequencyFrame by (simp add: AckFrequencyFrame_Append_def put_varints_vis codec_simps)
next
  case ImmediateAckFrame
  then show ?thesis by (simp add: codec_simps)
next
  case (MaxStreamsFrame t n)
  then show ?thesis using assms(1)
    by (cases t) (simp_all add: MaxStreamsFrame_Append_def codec_simps type_bytes MaxStreamCount_def)
next
  case (StreamsBlockedFrame t n)
  then show ?thesis using assms(1)
    by (cases t) (simp_all add: StreamsBlockedFrame_Append_def codec_simps type_bytes MaxStreamCount_def)
qed (use assms(1) in \<open>simp_all add: type_bytes codec_simps put_varints_vis StopSendingFrame_Append_def CryptoFrame_Append_def
    NewTokenFrame_Append_def MaxDataFrame_Append_def MaxStreamDataFrame_Append_def DataBlockedFrame_Append_def
    StreamDataBlockedFrame_Append_def NewConnectionIDFrame_Append_def RetireConnectionIDFrame_Append_def
    PathChallengeFrame_Append_def PathResponseFrame_Append_def ConnectionCloseFrame_Append_def Let_def\<close>)

lemma Frame_Length_body:
  assumes "frame_ok f" "writable f" shows "Frame_Length f = Inr (int (length (vi (frame_type f) @ frame_body f)))"
proof (cases f)
  case (AckF a)
  then show ?thesis using assms(1) Length_ack_bytes [of a] by (simp add: ack_type_def type_bytes)
next
  case (ResetStreamFrame s e n r)
  then show ?thesis using assms(1)
    by (simp add: ResetStreamFrame_Length_def codec_simps len_varints_vis type_bytes)
next
  case (StreamF s)
  have "vint (w64 (sfOffset s))" using assms(1) StreamF by (intro vint_w64) (auto simp: MaxByteCount_def)
  moreover have "length (sfData s) < 2 ^ 62" using assms(1) StreamF by (auto simp: MaxByteCount_def MaxPacketBufferSize_def)
  ultimately show ?thesis using assms StreamF
    by (simp add: StreamFrame_Length_def codec_simps stream_type_byte len_varints_vis)
next
  case (AckFrequencyFrame s t d r)
  have "vint (w64 (d div 1000))" using assms(1) AckFrequencyFrame by (intro vint_w64) auto
  then show ?thesis using assms(1) AckFrequencyFrame by (simp add: AckFrequencyFrame_Length_def len_varints_vis type_bytes codec_simps)
next
  case ImmediateAckFrame
  then show ?thesis by (simp add: codec_simps)
next
  case (MaxStreamsFrame t n)
  then show ?thesis using assms(1)
    by (cases t) (simp_all add: MaxStreamsFrame_Length_def codec_simps type_bytes MaxStreamCount_def)
next
  case (StreamsBlockedFrame t n)
  then show ?thesis using assms(1)
    by (cases t) (simp_all add: StreamsBlockedFrame_Length_def codec_simps type_bytes MaxStreamCount_def)
qed (use assms(1) in \<open>simp_all add: type_bytes codec_simps len_varints_vis StopSendingFrame_Length_def CryptoFrame_Length_def
    NewTokenFrame_Length_def MaxDataFrame_Length_def MaxStreamDataFrame_Length_def DataBlockedFrame_Length_def
    StreamDataBlockedFrame_Length_def NewConnectionIDFrame_Length_def RetireConnectionIDFrame_Length_def
    ConnectionCloseFrame_Length_def DatagramFrame_Length_def Let_def\<close>)

lemma parse_frame_type:
  "parse_frame p lvl (frame_type f) = (\<lambda>b. case f of
       StreamF _ \<Rightarrow> ParseStreamFrame b (frame_type f)
     | AckF _ \<Rightarrow> ParseAckFrame p (frame_type f) b lvl
     | DatagramF _ \<Rightarrow> parseDatagramFrame b (frame_type f)
     | _ \<Rightarrow> ParseLessCommonFrame (frame_type f) b)"
proof -
  have "IsStreamFrameType (frame_type f) \<longleftrightarrow> (case f of StreamF _ \<Rightarrow> True | _ \<Rightarrow> False)"
    by (cases f) (auto simp: IsStreamFrameType_def word_le_def frame_type_defs stream_type_def ack_type_def split: StreamType.splits)
  moreover have "IsAckFrameType (frame_type f) \<longleftrightarrow> (case f of AckF _ \<Rightarrow> True | _ \<Rightarrow> False)"
    by (cases f) (auto simp: IsAckFrameType_def frame_type_defs stream_type_def ack_type_def split: StreamType.splits)
  moreover have "IsDatagramFrameType (frame_type f) \<longleftrightarrow> (case f of DatagramF _ \<Rightarrow> True | _ \<Rightarrow> False)"
    by (cases f) (auto simp: IsDatagramFrameType_def frame_type_defs stream_type_def ack_type_def split: StreamType.splits)
  ultimately show ?thesis unfolding parse_frame_def by (cases f) auto
qed

lemma stream_type_bits:
  "stream_type f AND 0x4 > 0 \<longleftrightarrow> sfOffset f \<noteq> 0" "stream_type f AND 0x1 > 0 \<longleftrightarrow> sfFin f" "stream_type f AND 0x2 > 0 \<longleftrightarrow> sfDataLenPresent f"
  by (auto simp: stream_type_def word_gt_0)

lemma ParseStreamFrame_body:
  assumes "frame_ok (StreamF f)" "sfDataLenPresent f \<or> r = []"
  shows "ParseStreamFrame (frame_body (StreamF f) @ r) (stream_type f) = Inr (StreamF f, length (frame_body (StreamF f)))"
proof -
  have o: "vint (w64 (sfOffset f))" "i64 (w64 (sfOffset f)) = sfOffset f" and l: "length (sfData f) < 2 ^ 62"
    using assms(1) by (auto simp: MaxByteCount_def MaxPacketBufferSize_def intro!: vint_w64 i64_w64)
  have z: "sfOffset f = 0 \<Longrightarrow> i64 0 = sfOffset f" by simp
  show ?thesis
    using assms o l z
    by (auto simp: ParseStreamFrame_def stream_type_bits codec_simps Let_def)
qed

lemmas less_common_defs = parseResetStreamFrame_def parseStopSendingFrame_def parseCryptoFrame_def parseNewTokenFrame_def parseMaxDataFrame_def
  parseMaxStreamDataFrame_def parseMaxStreamsFrame_def parseDataBlockedFrame_def parseStreamDataBlockedFrame_def parseStreamsBlockedFrame_def
  parseNewConnectionIDFrame_def parseRetireConnectionIDFrame_def parsePathChallengeFrame_def parsePathResponseFrame_def
  parseConnectionCloseFrame_def parseAckFrequencyFrame_def

lemma parse_frame_body:
  assumes ok: "frame_ok f" and r: "open_ended f \<Longrightarrow> r = []" and e: "lvl = Encryption1RTT \<Longrightarrow> ackDelayExponent p = AckDelayExponent"
  shows "parse_frame p lvl (frame_type f) (frame_body f @ r) = Inr (on_wire f, length (frame_body f))"
proof (cases f)
  case (AckF a)
  have "(if lvl \<noteq> Encryption1RTT then DefaultAckDelayExponent else ackDelayExponent p) = AckDelayExponent"
    using e by (simp add: DefaultAckDelayExponent_def AckDelayExponent_def)
  then show ?thesis using ok AckF parse_ack_bytes [of a] unfolding parse_frame_type
    by (simp add: ParseAckFrame_def Let_def)
next
  case (StreamF s)
  then have "frame_ok (StreamF s)" "sfDataLenPresent s \<or> r = []" using ok r by auto
  from ParseStreamFrame_body [OF this] show ?thesis using StreamF unfolding parse_frame_type by (simp del: frame_body.simps)
next
  case (DatagramF d)
  have "dgDataLenPresent d \<or> r = []" using r DatagramF by auto
  then show ?thesis using ok DatagramF unfolding parse_frame_type
    by (auto simp: parseDatagramFrame_def Let_def codec_simps frame_type_defs)
next
  case (ResetStreamFrame s e n r')
  have "r' \<noteq> 0 \<Longrightarrow> \<not> w64 r' > w64 n" using ok ResetStreamFrame by (simp add: word_less_def uint_word_of_int)
  moreover have "i64 0 = 0" by simp
  ultimately show ?thesis using ok ResetStreamFrame unfolding parse_frame_type
    by (auto simp: ParseLessCommonFrame_def frame_type_defs parseResetStreamFrame_def codec_simps)
next
  case (AckFrequencyFrame s t d n)
  have v: "vint (w64 (d div 1000))" "i64 (w64 (d div 1000)) = d div 1000"
    using ok AckFrequencyFrame by (auto intro!: vint_w64 i64_w64)
  moreover have "wrap64 (d div 1000 * 1000) = d div 1000 * 1000"
    using ok AckFrequencyFrame by (intro wrap64_id) auto
  moreover have "\<not> d div 1000 < 0" using ok AckFrequencyFrame by (simp add: not_less pos_imp_zdiv_nonneg_iff)
  ultimately show ?thesis using ok AckFrequencyFrame unfolding parse_frame_type
    by (simp add: ParseLessCommonFrame_def frame_type_defs parseAckFrequencyFrame_def codec_simps)
next
  case (NewConnectionIDFrame s q c t)
  then have "length c \<le> 20" using ok by (simp add: MaxConnIDLen_def)
  then have "unat (of_nat (length c) :: byte) = length c" by (simp add: unat_of_nat)
  moreover have "\<not> s < q" using ok NewConnectionIDFrame by (simp add: not_less)
  ultimately show ?thesis using ok NewConnectionIDFrame unfolding parse_frame_type
    by (simp add: ParseLessCommonFrame_def frame_type_defs parseNewConnectionIDFrame_def codec_simps ParseConnectionID_def Let_def)
next
  case (ConnectionCloseFrame a ec t reason)
  have "i64 (of_nat (length reason)) = int (length reason)"
    using ok ConnectionCloseFrame by (simp add: i64_vint uint_nat)
  then show ?thesis using ok ConnectionCloseFrame unfolding parse_frame_type
    by (simp add: ParseLessCommonFrame_def frame_type_defs parseConnectionCloseFrame_def codec_simps)
next
  case (MaxStreamsFrame t n)
  then have "inum n" using ok by (simp add: MaxStreamCount_def)
  then show ?thesis using ok MaxStreamsFrame unfolding parse_frame_type
    by (cases t) (simp_all add: ParseLessCommonFrame_def frame_type_defs parseMaxStreamsFrame_def codec_simps)
next
  case (StreamsBlockedFrame t n)
  then have "inum n" using ok by (simp add: MaxStreamCount_def)
  then show ?thesis using ok StreamsBlockedFrame unfolding parse_frame_type
    by (cases t) (simp_all add: ParseLessCommonFrame_def frame_type_defs parseStreamsBlockedFrame_def codec_simps)
next
  case (NewTokenFrame t)
  then have "(of_nat (length t) :: u64) \<noteq> 0" using ok by (metis frame_ok.simps(6) length_0_conv unat_0 unat_of_nat_62)
  then show ?thesis using ok NewTokenFrame unfolding parse_frame_type
    by (simp add: ParseLessCommonFrame_def frame_type_defs parseNewTokenFrame_def codec_simps)
qed (use ok in \<open>unfold parse_frame_type, simp_all add: ParseLessCommonFrame_def frame_type_defs less_common_defs codec_simps\<close>)

section \<open>Whole packets\<close>

text \<open>A packet is written frame by frame, each after some bytes of padding.\<close>

fun write_frames :: "(nat \<times> Frame) list \<Rightarrow> bytes \<Rightarrow> wire_error + bytes" where
  "write_frames [] b = Inr b"
| "write_frames ((pad, f) # fs) b = rbind (Frame_Append f (b @ zeros pad)) (\<lambda>b. write_frames fs b)"

definition sendable :: "FrameParser \<Rightarrow> EncryptionLevel \<Rightarrow> Frame \<Rightarrow> bool" where
  "sendable p lvl f \<longleftrightarrow> frame_ok f \<and> writable f \<and> type_valid p (frame_type f) \<and> isAllowedAtEncLevel (frame_type f) lvl"

fun packed :: "(nat \<times> Frame) list \<Rightarrow> bytes" where
  "packed [] = []"
| "packed ((pad, f) # fs) = zeros pad @ vi (frame_type f) @ frame_body f @ packed fs"

text \<open>Only the last frame may extend to the end of the packet, and then no padding follows.\<close>

fun delimited :: "(nat \<times> Frame) list \<Rightarrow> nat \<Rightarrow> bool" where
  "delimited [] m \<longleftrightarrow> True"
| "delimited ((pad, f) # fs) m \<longleftrightarrow> (open_ended f \<longrightarrow> fs = [] \<and> m = 0) \<and> delimited fs m"

lemma frame_type_nonzero: "frame_type f \<noteq> 0"
  by (cases f) (auto simp: frame_type_defs stream_type_def ack_type_def split: StreamType.splits)

lemma ParseType_frame:
  assumes "vint t" "t \<noteq> 0" "type_valid p t" "isAllowedAtEncLevel t lvl"
  shows "ParseType p (zeros n @ vi t @ r) lvl k = Inr (t, k + n + length (vi t))"
proof (induction n arbitrary: k)
  case 0
  have "vi t \<noteq> []" using Parse_Append [OF vi_Append [OF assms(1)], of "[]"] by (auto simp: varint_Parse_def)
  then show ?case using assms Parse_Append [OF vi_Append [OF assms(1)], of r] by (subst ParseType.simps) simp
next
  case (Suc n)
  have "varint_Parse (0 # zeros n @ vi t @ r) = Inr (0, 1)" by (simp add: varint_Parse_def)
  then show ?case using Suc [of "Suc k"] by (subst ParseType.simps) simp
qed

lemma ParseType_padding: "ParseType p (zeros n) lvl k = Inl AtEnd"
proof (induction n arbitrary: k)
  case (Suc n)
  have "varint_Parse (0 # zeros n) = Inr (0, 1)" by (simp add: varint_Parse_def)
  then show ?case using Suc by (subst ParseType.simps) simp
qed (subst ParseType.simps, simp)

lemma write_framed: "list_all (\<lambda>(pad, f). frame_ok f \<and> writable f) fs \<Longrightarrow> write_frames fs b = Inr (b @ packed fs)"
  by (induction fs arbitrary: b) (auto simp: Frame_Append_body)

lemma packet_framed:
  assumes "list_all (\<lambda>(pad, f). sendable p lvl f) fs" "delimited fs m" "lvl = Encryption1RTT \<Longrightarrow> ackDelayExponent p = AckDelayExponent"
  shows "packet_frames p lvl (packed fs @ zeros m) = Inr (map (\<lambda>(pad, f). on_wire f) fs)"
  using assms(1,2)
proof (induction fs)
  case Nil
  show ?case
  proof (cases m)
    case 0
    then show ?thesis by (subst packet_frames.simps) simp
  next
    case (Suc n)
    then have "zeros m \<noteq> []" by simp
    then show ?thesis by (subst packet_frames.simps) (simp add: ParseType_padding)
  qed
next
  case (Cons x fs)
  obtain pad f where x: "x = (pad, f)" by (cases x)
  let ?r = "frame_body f @ packed fs @ zeros m" and ?t = "frame_type f"
  have s: "frame_ok f" "type_valid p ?t" "isAllowedAtEncLevel ?t lvl" and d: "open_ended f \<Longrightarrow> packed fs @ zeros m = []" "delimited fs m"
    using Cons.prems x by (auto simp: sendable_def)
  have b: "packed (x # fs) @ zeros m = zeros pad @ vi ?t @ ?r" using x by simp
  have t: "ParseType p (zeros pad @ vi ?t @ ?r) lvl 0 = Inr (?t, pad + length (vi ?t))"
    using ParseType_frame [OF type_vint frame_type_nonzero s(2,3)] by simp
  then have ne: "zeros pad @ vi ?t @ ?r \<noteq> []" using ParseType_used by blast
  have dr: "drop (pad + length (vi ?t)) (zeros pad @ vi ?t @ ?r) = ?r" by simp
  have f: "parse_frame p lvl ?t ?r = Inr (on_wire f, length (frame_body f))"
    by (rule parse_frame_body [OF s(1) d(1) assms(3)])
  have "packet_frames p lvl (drop (length (frame_body f)) ?r) = Inr (map (\<lambda>(pad, f). on_wire f) fs)"
    using Cons.IH Cons.prems d(2) by simp
  then show ?case unfolding b by (subst packet_frames.simps) (simp only: ne if_False t sum.case prod.case dr f rbind_simps x list.map)
qed

lemma framed_length:
  "list_all (\<lambda>(pad, f). frame_ok f \<and> writable f) fs \<Longrightarrow>
     rmap (\<lambda>(pad, f). Frame_Length f) fs = Inr (map (\<lambda>(pad, f). int (length (vi (frame_type f) @ frame_body f))) fs)"
  by (rule rmap_Inr_map) (auto simp: list_all_iff Frame_Length_body)

lemma length_framed:
  "int (length (packed fs)) = sum_list (map (\<lambda>(pad, f). int pad) fs) + sum_list (map (\<lambda>(pad, f). int (length (vi (frame_type f) @ frame_body f))) fs)"
  by (induction fs) auto

text \<open>C3: A packet of frames survives the wire. Writing any sequence of well-formed frames that may be sent at the
  encryption level, each after any amount of padding, takes exactly the announced lengths plus the padding, and the
  receiver, with padding at the end too, takes the packet apart into exactly these frames, in order, up to the rounding of
  durations. A frame without a length must be the last one.\<close>

theorem quic_packet_roundtrip:
  assumes "list_all (\<lambda>(pad, f). sendable p lvl f) fs" "delimited fs m" "lvl = Encryption1RTT \<Longrightarrow> ackDelayExponent p = AckDelayExponent"
  shows "\<exists>payload ls. write_frames fs [] = Inr payload \<and> rmap (\<lambda>(pad, f). Frame_Length f) fs = Inr ls \<and>
     int (length payload) = sum_list (map (\<lambda>(pad, f). int pad) fs) + sum_list ls \<and>
     packet_frames p lvl (payload @ zeros m) = Inr (map (\<lambda>(pad, f). on_wire f) fs)"
proof -
  have w: "list_all (\<lambda>(pad, f). frame_ok f \<and> writable f) fs" using assms(1) by (auto simp: list_all_iff sendable_def)
  show ?thesis
    using write_framed [OF w, of "[]"] framed_length [OF w] length_framed [of fs] packet_framed [OF assms] by auto
qed

definition demo_parser :: FrameParser where
  "demo_parser = SetAckDelayExponent 3 (NewFrameParser True True True)"

definition demo_frames :: "(nat \<times> Frame) list" where
  "demo_frames = [(2, PingFrame), (0, AckF two_ranges), (0, ConnectionCloseFrame True 256 0 [0x62, 0x79, 0x65]), (1, MaxStreamsFrame StreamTypeUni 100),
     (0, StreamF \<lparr>sfStreamID = 4, sfOffset = 1000, sfData = [1, 2, 3], sfFin = True, sfDataLenPresent = False\<rparr>)]"

lemma demo_sendable: "list_all (\<lambda>(pad, f). sendable demo_parser Encryption1RTT f) demo_frames" "delimited demo_frames 0"
  "ackDelayExponent demo_parser = AckDelayExponent"
  by (simp_all add: demo_frames_def sendable_def two_ranges_ok type_valid_def isValidRFC9000_def word_le_def ack_type_def stream_type_def
    frame_type_defs vint_def MaxStreamCount_def MaxByteCount_def MaxPacketBufferSize_def demo_parser_def SetAckDelayExponent_def AckDelayExponent_def)

theorem quic_packet_roundtrip_witness:
  "\<exists>payload ls. write_frames demo_frames [] = Inr payload \<and> rmap (\<lambda>(pad, f). Frame_Length f) demo_frames = Inr ls \<and>
     int (length payload) = sum_list (map (\<lambda>(pad, f). int pad) demo_frames) + sum_list ls \<and>
     packet_frames demo_parser Encryption1RTT (payload @ zeros 0) = Inr (map (\<lambda>(pad, f). on_wire f) demo_frames)"
  by (rule quic_packet_roundtrip [OF demo_sendable])

section \<open>What the parser lets through\<close>

lemma Parse_vint: "varint_Parse b = Inr (v, l) \<Longrightarrow> vint v"
proof -
  assume a: "varint_Parse b = Inr (v, l)"
  have "take_bit 62 v = v"
    using a unfolding varint_Parse_def Let_def
    by (auto simp: take_bit_or take_bit_push_bit take_byte low62 split: if_splits)
  then show "vint v" unfolding vint_def by (metis take_bit_int_less_exp unsigned_take_bit_eq)
qed

lemma next_varint_vint: "next_varint b = Inr (v, r) \<Longrightarrow> vint v"
  by (auto simp: next_varint_def rbind_eq_Inr dest: Parse_vint)

lemma i64_inum: "vint v \<Longrightarrow> inum (i64 v)"
  by (simp add: i64_vint vint_def)

fun level_allows :: "EncryptionLevel \<Rightarrow> Frame \<Rightarrow> bool" where
  "level_allows Encryption1RTT f \<longleftrightarrow> True"
| "level_allows Encryption0RTT f \<longleftrightarrow>
     (case f of CryptoF _ \<Rightarrow> False | AckF _ \<Rightarrow> False | ConnectionCloseFrame app _ _ _ \<Rightarrow> app | NewTokenFrame _ \<Rightarrow> False
      | PathResponseFrame _ \<Rightarrow> False | RetireConnectionIDFrame _ \<Rightarrow> False | _ \<Rightarrow> True)"
| "level_allows _ f \<longleftrightarrow>
     (case f of CryptoF _ \<Rightarrow> True | AckF _ \<Rightarrow> True | PingFrame \<Rightarrow> True | ConnectionCloseFrame app _ _ _ \<Rightarrow> \<not> app | _ \<Rightarrow> False)"

lemma ack_blocks_bounds:
  "ack_blocks n s b rs = Inr (rs', b') \<Longrightarrow> s < 2 ^ 62 \<Longrightarrow> \<forall>r\<in>set rs. 0 \<le> Smallest r \<and> Largest r < 2 ^ 62 \<Longrightarrow>
     (\<forall>r\<in>set rs'. 0 \<le> Smallest r \<and> Largest r < 2 ^ 62) \<and> length b' \<le> length b"
proof (induction n s b rs rule: ack_blocks.induct)
  case (2 n s b rs)
  obtain g b1 ab b2 where st: "next_varint b = Inr (g, b1)" "\<not> s < i64 g + 2" "next_varint b1 = Inr (ab, b2)"
    "\<not> i64 ab > s - i64 g - 2"
    "ack_blocks n (s - i64 g - 2 - i64 ab) b2 (rs @ [\<lparr>Smallest = s - i64 g - 2 - i64 ab, Largest = s - i64 g - 2\<rparr>]) = Inr (rs', b')"
    using 2(2) by (auto simp: rbind_eq_Inr Let_def split: if_splits)
  note v = i64_inum [OF next_varint_vint [OF st(1)]] i64_inum [OF next_varint_vint [OF st(3)]]
  have "(\<forall>r\<in>set rs'. 0 \<le> Smallest r \<and> Largest r < 2 ^ 62) \<and> length b' \<le> length b2"
    by (rule 2(1) [OF st(1) refl refl st(2) refl st(3) refl refl st(4,5)]) (use st v 2(3,4) in auto)
  then show ?case using next_varint_shorter [OF st(1)] next_varint_shorter [OF st(3)] by auto
qed auto

lemma next_varint_facts: "next_varint b = Inr (v, r) \<Longrightarrow> vint v \<and> inum (i64 v) \<and> length r < length b"
  using next_varint_vint next_varint_shorter i64_inum by blast

lemma ack_delay_range: "0 \<le> ack_delay d e \<and> ack_delay d e < 2 ^ 63"
  by (auto simp: ack_delay_def Let_def wrap64_def)

lemma parseAckFrame_ok:
  assumes "parseAckFrame (AckFrame_Reset g) b t e = Inr (f, n)" shows "ack_ok f \<and> n \<le> length b"
proof -
  let ?F = "\<lambda>d rs. (AckFrame_Reset g)\<lparr>DelayTime := ack_delay d e, AckRanges := rs\<rparr>"
  obtain la b1 d b2 k b3 ab b4 rs b5 where st: "next_varint b = Inr (la, b1)" "next_varint b1 = Inr (d, b2)" "next_varint b2 = Inr (k, b3)"
    "next_varint b3 = Inr (ab, b4)" "\<not> i64 ab > i64 la"
    "ack_blocks (unat k) (i64 la - i64 ab) b4 [\<lparr>Smallest = i64 la - i64 ab, Largest = i64 la\<rparr>] = Inr (rs, b5)"
    "validateAckRanges (?F d rs)"
    and l: "(if t = FrameTypeAckECN then rbind (parse_ecn (?F d rs) b5) (\<lambda>(frame, c). Inr (frame, length b - length c))
       else Inr (?F d rs, length b - length b5)) = Inr (f, n)"
    using assms by (auto simp: parseAckFrame_def rbind_eq_Inr Let_def AckFrame_Reset_def split: if_splits)
  note v = i64_inum [OF next_varint_vint [OF st(1)]] i64_inum [OF next_varint_vint [OF st(4)]]
  have rs: "\<forall>r\<in>set rs. 0 \<le> Smallest r \<and> Largest r < 2 ^ 62" using ack_blocks_bounds [OF st(6)] v st(5) by auto
  have "validateAckRanges f \<and> AckRanges f = rs \<and> DelayTime f = ack_delay d e \<and> vint (ECT0 f) \<and> vint (ECT1 f) \<and> vint (ECNCE f) \<and> n \<le> length b"
    using l st(7) by (auto simp: parse_ecn_def rbind_eq_Inr validateAckRanges_def AckFrame_Reset_def vint_def dest!: next_varint_vint split: if_splits)
  then show ?thesis using rs ack_delay_range by (auto simp: ack_ok_def)
qed

lemma stream_frame_ok: "ParseStreamFrame b t = Inr (f, n) \<Longrightarrow> frame_ok f \<and> n \<le> length b \<and> (\<exists>s. f = StreamF s)"
  by (auto simp: ParseStreamFrame_def rbind_eq_Inr Let_def MinStreamFrameBufferSize_def MaxPacketBufferSize_def 
    dest!: next_varint_facts split: if_splits)

lemma datagram_frame_ok: "parseDatagramFrame b t = Inr (f, n) \<Longrightarrow> length b < 2 ^ 62 \<Longrightarrow> frame_ok f \<and> n \<le> length b \<and> (\<exists>d. f = DatagramF d)"
  by (auto simp: parseDatagramFrame_def rbind_eq_Inr Let_def dest!: next_varint_facts split: if_splits)

text \<open>The type of a parsed frame is the one the writer would use, up to flags that the writer chooses from the contents.\<close>

definition same_kind :: "FrameType \<Rightarrow> FrameType \<Rightarrow> bool" where
  "same_kind t u \<longleftrightarrow> t = u \<or> IsStreamFrameType t \<and> IsStreamFrameType u \<or> IsAckFrameType t \<and> IsAckFrameType u \<or>
     {t, u} \<subseteq> {FrameTypeResetStream, FrameTypeResetStreamAt}"

definition parsed_ok :: "FrameType \<Rightarrow> bytes \<Rightarrow> Frame \<times> nat \<Rightarrow> bool" where
  "parsed_ok t b r \<longleftrightarrow> frame_ok (fst r) \<and> snd r \<le> length b \<and> same_kind t (frame_type (fst r))"

lemma less_common_ok:
  "parseResetStreamFrame b at = Inr r \<Longrightarrow> t = (if at then FrameTypeResetStreamAt else FrameTypeResetStream) \<Longrightarrow> parsed_ok t b r"
  "parseStopSendingFrame b = Inr r \<Longrightarrow> parsed_ok FrameTypeStopSending b r"
  "parseCryptoFrame b = Inr r \<Longrightarrow> length b < 2 ^ 62 \<Longrightarrow> parsed_ok FrameTypeCrypto b r"
  "parseNewTokenFrame b = Inr r \<Longrightarrow> length b < 2 ^ 62 \<Longrightarrow> parsed_ok FrameTypeNewToken b r"
  "parseMaxDataFrame b = Inr r \<Longrightarrow> parsed_ok FrameTypeMaxData b r"
  "parseMaxStreamDataFrame b = Inr r \<Longrightarrow> parsed_ok FrameTypeMaxStreamData b r"
  "parseMaxStreamsFrame b t = Inr r \<Longrightarrow> t = FrameTypeBidiMaxStreams \<or> t = FrameTypeUniMaxStreams \<Longrightarrow> parsed_ok t b r"
  "parseDataBlockedFrame b = Inr r \<Longrightarrow> parsed_ok FrameTypeDataBlocked b r"
  "parseStreamDataBlockedFrame b = Inr r \<Longrightarrow> parsed_ok FrameTypeStreamDataBlocked b r"
  "parseStreamsBlockedFrame b t = Inr r \<Longrightarrow> t = FrameTypeBidiStreamBlocked \<or> t = FrameTypeUniStreamBlocked \<Longrightarrow> parsed_ok t b r"
  "parseRetireConnectionIDFrame b = Inr r \<Longrightarrow> parsed_ok FrameTypeRetireConnectionID b r"
  "parsePathChallengeFrame b = Inr r \<Longrightarrow> parsed_ok FrameTypePathChallenge b r"
  "parsePathResponseFrame b = Inr r \<Longrightarrow> parsed_ok FrameTypePathResponse b r"
  unfolding parsed_ok_def same_kind_def
  subgoal by (auto simp: parseResetStreamFrame_def rbind_eq_Inr i64_vint word_le_def not_less vint_def dest!: next_varint_facts split: if_splits)
  subgoal by (auto simp: parseStopSendingFrame_def rbind_eq_Inr dest!: next_varint_facts)
  subgoal by (auto simp: parseCryptoFrame_def rbind_eq_Inr dest!: next_varint_facts split: if_splits)
  subgoal by (auto simp: parseNewTokenFrame_def rbind_eq_Inr unat_gt_0 dest!: next_varint_facts split: if_splits)
  subgoal by (auto simp: parseMaxDataFrame_def rbind_eq_Inr dest!: next_varint_facts)
  subgoal by (auto simp: parseMaxStreamDataFrame_def rbind_eq_Inr dest!: next_varint_facts)
  subgoal by (auto simp: parseMaxStreamsFrame_def rbind_eq_Inr frame_type_defs dest!: next_varint_facts split: if_splits)
  subgoal by (auto simp: parseDataBlockedFrame_def rbind_eq_Inr dest!: next_varint_facts)
  subgoal by (auto simp: parseStreamDataBlockedFrame_def rbind_eq_Inr dest!: next_varint_facts)
  subgoal by (auto simp: parseStreamsBlockedFrame_def rbind_eq_Inr frame_type_defs dest!: next_varint_facts split: if_splits)
  subgoal by (auto simp: parseRetireConnectionIDFrame_def rbind_eq_Inr dest!: next_varint_facts)
  subgoal by (auto simp: parsePathChallengeFrame_def split: if_splits)
  subgoal by (auto simp: parsePathResponseFrame_def split: if_splits)
  done

lemma int_less_uint: "int n < uint (v :: u64) \<longleftrightarrow> n < unat v"
  by (metis of_nat_less_iff uint_nat)

lemma vint_0: "vint 0"
  by (simp add: vint_def)

lemma new_connection_id_ok: "parseNewConnectionIDFrame b = Inr r \<Longrightarrow> parsed_ok FrameTypeNewConnectionID b r"
  by (auto simp: parsed_ok_def same_kind_def parseNewConnectionIDFrame_def rbind_eq_Inr Let_def ParseConnectionID_def not_less
    dest!: next_varint_facts split: if_splits list.splits)

lemma connection_close_ok:
  "parseConnectionCloseFrame b t = Inr r \<Longrightarrow> length b < 2 ^ 62 \<Longrightarrow> t = FrameTypeConnectionClose \<or> t = FrameTypeApplicationClose \<Longrightarrow> parsed_ok t b r"
  by (auto simp: parsed_ok_def same_kind_def parseConnectionCloseFrame_def rbind_eq_Inr frame_type_defs i64_vint int_less_uint vint_0
    dest!: next_varint_facts split: if_splits)

lemma ack_frequency_ok: "parseAckFrequencyFrame b = Inr r \<Longrightarrow> parsed_ok FrameTypeAckFrequency b r"
  by (auto simp: parsed_ok_def same_kind_def parseAckFrequencyFrame_def rbind_eq_Inr Let_def wrap64_def dest!: next_varint_facts split: if_splits)

lemma empty_frames_ok: "parsed_ok FrameTypePing b (PingFrame, 0)" "parsed_ok FrameTypeHandshakeDone b (HandshakeDoneFrame, 0)"
  "parsed_ok FrameTypeImmediateAck b (ImmediateAckFrame, 0)"
  by (simp_all add: parsed_ok_def same_kind_def)

lemma ParseLessCommonFrame_ok:
  assumes "ParseLessCommonFrame t b = Inr r" "length b < 2 ^ 62" shows "parsed_ok t b r"
  using assms
  unfolding ParseLessCommonFrame_def
  by (auto split: if_splits intro: less_common_ok new_connection_id_ok connection_close_ok ack_frequency_ok simp: empty_frames_ok)

lemma stream_type_stream: "IsStreamFrameType (stream_type s)"
  by (auto simp: IsStreamFrameType_def stream_type_def word_le_def)

lemma parse_frame_ok:
  assumes "parse_frame p lvl t b = Inr r" "length b < 2 ^ 62" shows "parsed_ok t b r"
proof -
  obtain f n where r: "r = (f, n)" by (cases r)
  show ?thesis
  proof (cases "IsStreamFrameType t")
    case True
    then have "ParseStreamFrame b t = Inr (f, n)" using assms(1) r by (simp add: parse_frame_def)
    from stream_frame_ok [OF this] show ?thesis using True r stream_type_stream by (auto simp: parsed_ok_def same_kind_def)
  next
    case ns: False
    show ?thesis
    proof (cases "IsAckFrameType t")
      case True
      then have "ParseAckFrame p t b lvl = Inr (f, n)" using assms(1) ns r by (simp add: parse_frame_def)
      then obtain a e where "parseAckFrame (AckFrame_Reset a) b t e = Inr (case f of AckF x \<Rightarrow> x, n)" "\<exists>x. f = AckF x"
        by (auto simp: ParseAckFrame_def Let_def rbind_eq_Inr)
      then show ?thesis using parseAckFrame_ok r True by (force simp: parsed_ok_def same_kind_def IsAckFrameType_def ack_type_def)
    next
      case na: False
      show ?thesis
      proof (cases "IsDatagramFrameType t")
        case True
        then have p: "parseDatagramFrame b t = Inr (f, n)" using assms(1) ns na r by (simp add: parse_frame_def)
        obtain d where "f = DatagramF d" using datagram_frame_ok [OF p assms(2)] by blast
        moreover have "frame_type f = t" using p True
          by (auto simp: parseDatagramFrame_def rbind_eq_Inr Let_def IsDatagramFrameType_def frame_type_defs split: if_splits)
        ultimately show ?thesis using datagram_frame_ok [OF p assms(2)] r by (auto simp: parsed_ok_def same_kind_def)
      next
        case False
        then show ?thesis using assms ns na ParseLessCommonFrame_ok by (simp add: parse_frame_def)
      qed
    qed
  qed
qed

lemma same_kind_allowed: "same_kind t u \<Longrightarrow> isAllowedAtEncLevel t lvl \<longleftrightarrow> isAllowedAtEncLevel u lvl"
  by (cases lvl) (auto simp: same_kind_def IsStreamFrameType_def IsAckFrameType_def frame_type_defs word_le_def)

lemma allowed_level: "isAllowedAtEncLevel (frame_type f) lvl \<Longrightarrow> level_allows lvl f"
  by (cases lvl; cases f) (auto simp: frame_type_defs ack_type_def stream_type_def split: StreamType.splits if_splits)

lemma ParseType_allowed: "ParseType p b lvl k = Inr (t, n) \<Longrightarrow> isAllowedAtEncLevel t lvl"
proof (induction p b lvl k rule: ParseType.induct)
  case (1 p b lvl k)
  show ?case
    using 1(2) 1(1) by (subst (asm) ParseType.simps) (fastforce split: if_splits sum.splits varint_error.splits)
qed

text \<open>C12: Whatever bytes arrive, every frame the parser lets through is well-formed: numbers are encodable, acknowledged ranges
  are valid, descending and disjoint, stream data stays below the largest offset, connection IDs and tokens have their sizes,
  stream counts their limit; and it is of a kind that is permitted at the encryption level. In particular nothing but
  PING, ACK, CRYPTO and transport-level CONNECTION_CLOSE gets through before the handshake has keys for 1-RTT.\<close>

theorem quic_parsed_frames_wellformed:
  assumes "packet_frames p lvl b = Inr fs" "length b < 2 ^ 62"
  shows "list_all (\<lambda>f. frame_ok f \<and> level_allows lvl f) fs"
  using assms
proof (induction p lvl b arbitrary: fs rule: packet_frames.induct)
  case (1 p lvl b)
  show ?case
  proof (cases "b = []")
    case True
    then show ?thesis using 1(2) by (simp add: packet_frames.simps)
  next
    case False
    show ?thesis
    proof (cases "ParseType p b lvl 0")
      case (Inl e)
      then show ?thesis using 1(2) False by (cases e) (simp_all add: packet_frames.simps)
    next
      case (Inr y)
      obtain t l where y: "y = (t, l)" by (cases y)
      note pt = Inr [unfolded y]
      obtain f n fs' where pf: "parse_frame p lvl t (drop l b) = Inr (f, n)" and rest: "packet_frames p lvl (drop n (drop l b)) = Inr fs'"
        and fs: "fs = f # fs'"
        using 1(2) False pt by (subst (asm) packet_frames.simps) (auto simp: rbind_eq_Inr split: sum.splits)
      have "parsed_ok t (drop l b) (f, n)" by (rule parse_frame_ok [OF pf]) (use 1(3) in simp)
      moreover have "list_all (\<lambda>f. frame_ok f \<and> level_allows lvl f) fs'"
        by (rule 1(1) [OF False pt refl pf refl rest]) (use 1(3) in simp)
      ultimately show ?thesis
        using fs allowed_level [of f lvl] same_kind_allowed ParseType_allowed [OF pt] by (auto simp: parsed_ok_def)
    qed
  qed
qed

theorem quic_parsed_frames_wellformed_witness:
  "list_all (\<lambda>f. frame_ok f \<and> level_allows EncryptionHandshake f) [PingFrame, CryptoF \<lparr>cfOffset = 5, cfData = [7, 8]\<rparr>]"
proof -
  have "packet_frames demo_parser EncryptionHandshake [0, 0x1, 0, 0, 0x6, 0x40, 0x5, 0x2, 7, 8] =
      Inr [PingFrame, CryptoF \<lparr>cfOffset = 5, cfData = [7, 8]\<rparr>]"
    by code_simp
  from quic_parsed_frames_wellformed [OF this] show ?thesis by simp
qed

section \<open>Splitting\<close>

lemma length_vi_w64:
  "0 \<le> m \<Longrightarrow> m < 2 ^ 62 \<Longrightarrow> length (vi (w64 m)) = (if m < 64 then 1 else if m < 16384 then 2 else if m < 2 ^ 30 then 4 else 8)"
  by (simp add: vi_def varint_Append_def le_maxVarInt uint_word_of_int take_bit_int_eq_self)

definition stream_head :: "StreamFrame \<Rightarrow> int" where
  "stream_head f = 1 + int (length (vi (w64 (sfStreamID f)))) + (if sfOffset f \<noteq> 0 then int (length (vi (w64 (sfOffset f)))) else 0)"

definition stream_size :: "StreamFrame \<Rightarrow> nat \<Rightarrow> int" where
  "stream_size f n = stream_head f + (if sfDataLenPresent f then if n < 64 then 1 else 2 else 0) + int n"

lemma StreamFrame_Length_size:
  assumes "frame_ok (StreamF f)" shows "StreamFrame_Length f = Inr (stream_size f (length (sfData f)))"
proof -
  have "vint (w64 (sfOffset f))" using assms by (intro vint_w64) (auto simp: MaxByteCount_def)
  moreover have "length (sfData f) \<le> 1452" using assms by (simp add: MaxPacketBufferSize_def)
  moreover from this have "length (vi (of_nat (length (sfData f)))) = (if length (sfData f) < 64 then 1 else 2)"
    using length_vi_w64 [of "int (length (sfData f))"] by simp
  ultimately show ?thesis using assms
    by (simp add: StreamFrame_Length_def len_varints_vis codec_simps stream_size_def stream_head_def)
qed

lemma MaxDataLen_size:
  assumes ok: "frame_ok (StreamF f)" and m: "maxSize < stream_size f (length (sfData f))"
  shows "\<exists>n. StreamFrame_MaxDataLen f maxSize = Inr (int n) \<and> (0 < n \<longrightarrow> n < length (sfData f) \<and> stream_size f n \<le> maxSize) \<and>
     (\<forall>k>n. maxSize < stream_size f k)"
proof -
  let ?h = "stream_head f" and ?hl = "stream_head f + (if sfDataLenPresent f then 1 else 0)" and ?l = "length (sfData f)"
  let ?m = "maxSize - ?hl"
  have o: "vint (w64 (sfOffset f))" using ok by (intro vint_w64) (auto simp: MaxByteCount_def)
  have l: "?l \<le> 1452" using ok by (simp add: MaxPacketBufferSize_def)
  have e: "StreamFrame_MaxDataLen f maxSize =
      (if ?hl > maxSize then Inr 0
       else if sfDataLenPresent f then rbind (len_varint (w64 ?m)) (\<lambda>l. Inr (if l \<noteq> 1 then ?m - 1 else ?m)) else Inr ?m)"
  proof -
    have "rbind (len_varints 1 [w64 (sfStreamID f)]) (\<lambda>h.
        rbind (if sfOffset f \<noteq> 0 then len_varints h [w64 (sfOffset f)] else Inr h) G) = G ?h" for G :: "int \<Rightarrow> wire_error + int"
      using ok o by (simp add: len_varints_vis codec_simps stream_head_def)
    then show ?thesis unfolding StreamFrame_MaxDataLen_def Let_def by (cases "sfDataLenPresent f") auto
  qed
  show ?thesis
  proof (cases "?hl > maxSize")
    case True
    then show ?thesis using e by (intro exI [of _ 0]) (auto simp: stream_size_def split: if_splits)
  next
    case False
    then have m0: "0 \<le> ?m" "?m \<le> int ?l + 1" using m by (auto simp: stream_size_def split: if_splits)
    then have len: "len_varint (w64 ?m) = Inr (int (if ?m < 64 then 1 else 2))"
      using l length_vi_w64 [of ?m] by (subst len_varint_vi) (auto simp del: of_int_diff of_int_add)
    define n where "n = nat (if sfDataLenPresent f \<and> \<not> ?m < 64 then ?m - 1 else ?m)"
    have "StreamFrame_MaxDataLen f maxSize = Inr (int n)" using e False len m0 by (auto simp: n_def)
    moreover have "n < ?l" "stream_size f n \<le> maxSize" if "0 < n"
      using m m0 that by (auto simp: stream_size_def n_def split: if_splits)
    moreover have "maxSize < stream_size f k" if "n < k" for k
      using m0 that by (auto simp: stream_size_def n_def split: if_splits)
    ultimately show ?thesis by blast
  qed
qed

text \<open>The frame with the first \<open>n\<close> bytes of the data of a frame, and whether it fits.\<close>

definition stream_front :: "StreamFrame \<Rightarrow> nat \<Rightarrow> StreamFrame" where
  "stream_front f n = f\<lparr>sfFin := False, sfData := take n (sfData f)\<rparr>"

definition front_fits :: "StreamFrame \<Rightarrow> int \<Rightarrow> nat \<Rightarrow> bool" where
  "front_fits f maxSize n \<longleftrightarrow> (case StreamFrame_Length (stream_front f n) of Inl _ \<Rightarrow> False | Inr len \<Rightarrow> len \<le> maxSize)"

lemma front_fits_size:
  assumes "frame_ok (StreamF f)" and "0 < n" and "n < length (sfData f)"
  shows "frame_ok (StreamF (stream_front f n)) \<and> (front_fits f maxSize n \<longleftrightarrow> stream_size f n \<le> maxSize)"
proof -
  have ok: "frame_ok (StreamF (stream_front f n))" using assms by (auto simp: stream_front_def)
  have "StreamFrame_Length (stream_front f n) = Inr (stream_size f n)"
    unfolding StreamFrame_Length_size [OF ok] using assms(3) by (simp add: stream_front_def stream_size_def stream_head_def)
  then show ?thesis using ok by (simp add: front_fits_def)
qed

text \<open>C25: A STREAM frame of at most a packet's size that is too long for the space left is split without a panic, and as much
  as possible comes off: if any proper non-empty front of its data fits into the space as a frame of its own, the longest such front
  comes off, at the same offset and without a FIN, while the rest keeps the remaining data at the offset where it starts, and the FIN;
  if none fits, the frame stays as it is and splitting is reported to be necessary. Nothing is split when the frame fits.\<close>

theorem quic_stream_split:
  assumes "frame_ok (StreamF f)"
  shows "\<exists>len. StreamFrame_Length f = Inr len \<and>
    (if len \<le> maxSize then StreamFrame_MaybeSplitOffFrame f maxSize = Inr (None, f, False)
     else if \<exists>n. 0 < n \<and> n < length (sfData f) \<and> front_fits f maxSize n
     then \<exists>n rest. 0 < n \<and> n < length (sfData f) \<and> front_fits f maxSize n \<and>
         (\<forall>k. n < k \<and> k < length (sfData f) \<longrightarrow> \<not> front_fits f maxSize k) \<and>
         StreamFrame_MaybeSplitOffFrame f maxSize = Inr (Some (stream_front f n), rest, True) \<and>
         rest = f\<lparr>sfData := drop n (sfData f), sfOffset := sfOffset f + int n\<rparr> \<and>
         frame_ok (StreamF (stream_front f n)) \<and> frame_ok (StreamF rest)
     else StreamFrame_MaybeSplitOffFrame f maxSize = Inr (None, f, True))"
proof -
  let ?len = "stream_size f (length (sfData f))" and ?split = "StreamFrame_MaybeSplitOffFrame f maxSize"
  note L = StreamFrame_Length_size [OF assms] and fits = front_fits_size [OF assms, of _ maxSize]
  show ?thesis
  proof (cases "?len \<le> maxSize")
    case True
    then show ?thesis using L by (auto simp: StreamFrame_MaybeSplitOffFrame_def)
  next
    case False
    then obtain n where n: "StreamFrame_MaxDataLen f maxSize = Inr (int n)" "0 < n \<Longrightarrow> n < length (sfData f) \<and> stream_size f n \<le> maxSize"
      "\<And>k. n < k \<Longrightarrow> maxSize < stream_size f k"
      using MaxDataLen_size [OF assms, of maxSize] by auto
    have longer: "\<not> front_fits f maxSize k" if "n < k" "k < length (sfData f)" for k
      using fits [of k] n(3) [OF that(1)] that by simp
    show ?thesis
    proof (cases "n = 0")
      case True
      then have "?split = Inr (None, f, True)" using L False n(1) by (simp add: StreamFrame_MaybeSplitOffFrame_def)
      moreover have "\<not> (\<exists>k. 0 < k \<and> k < length (sfData f) \<and> front_fits f maxSize k)"
        using longer True by blast
      ultimately show ?thesis using L False by auto
    next
      case n0: False
      let ?rest = "f\<lparr>sfData := drop n (sfData f), sfOffset := sfOffset f + int n\<rparr>"
      have nl: "0 < n" "n < length (sfData f)" "stream_size f n \<le> maxSize" using n(2) n0 by auto
      have "?split = Inr (Some (stream_front f n), ?rest, True)"
        using L False n(1) n0 nl assms by (auto simp: StreamFrame_MaybeSplitOffFrame_def stream_front_def)
      moreover have "frame_ok (StreamF ?rest)" using assms nl by auto
      moreover have "frame_ok (StreamF (stream_front f n))" "front_fits f maxSize n" using fits [OF nl(1,2)] nl(3) by auto
      ultimately have "0 < n \<and> n < length (sfData f) \<and> front_fits f maxSize n \<and>
          (\<forall>k. n < k \<and> k < length (sfData f) \<longrightarrow> \<not> front_fits f maxSize k) \<and>
          ?split = Inr (Some (stream_front f n), ?rest, True) \<and> ?rest = f\<lparr>sfData := drop n (sfData f), sfOffset := sfOffset f + int n\<rparr> \<and>
          frame_ok (StreamF (stream_front f n)) \<and> frame_ok (StreamF ?rest)"
        using longer nl(1,2) by blast
      then show ?thesis
        unfolding L using False by (intro exI [of _ ?len] conjI refl) (simp only: if_False, metis)
    qed
  qed
qed

definition demo_stream :: StreamFrame where
  "demo_stream = \<lparr>sfStreamID = 8, sfOffset = 70, sfData = replicate 100 7, sfFin = True, sfDataLenPresent = True\<rparr>"

theorem quic_stream_split_witness:
  "StreamFrame_MaybeSplitOffFrame demo_stream 60 = Inr (Some (stream_front demo_stream 55),
     demo_stream\<lparr>sfData := replicate 45 7, sfOffset := 125\<rparr>, True) \<and> front_fits demo_stream 60 55 \<and> \<not> front_fits demo_stream 60 56"
proof -
  have ok: "frame_ok (StreamF demo_stream)" by (simp add: demo_stream_def MaxByteCount_def MaxPacketBufferSize_def)
  have l: "StreamFrame_Length demo_stream = Inr 106" "length (sfData demo_stream) = 100" "front_fits demo_stream 60 55"
    "\<not> front_fits demo_stream 60 56" "drop 55 (sfData demo_stream) = replicate 45 7" "sfOffset demo_stream = 70"
    by code_simp+
  then have some: "\<exists>n. 0 < n \<and> n < length (sfData demo_stream) \<and> front_fits demo_stream 60 n"
    by (intro exI [of _ 55]) simp
  from quic_stream_split [OF ok, of 60] l(1) some
  obtain n rest where n: "0 < n" "n < 100" "front_fits demo_stream 60 n" "\<forall>k. n < k \<and> k < 100 \<longrightarrow> \<not> front_fits demo_stream 60 k"
    "StreamFrame_MaybeSplitOffFrame demo_stream 60 = Inr (Some (stream_front demo_stream n), rest, True)"
    "rest = demo_stream\<lparr>sfData := drop n (sfData demo_stream), sfOffset := sfOffset demo_stream + int n\<rparr>"
    unfolding l(2) by auto
  have "\<not> n < 55" using n(4) l(3) by auto
  moreover have "stream_size demo_stream n \<le> 60" "\<not> stream_size demo_stream 56 \<le> 60"
    using n(1-3) l(2,4) front_fits_size [OF ok, of n 60] front_fits_size [OF ok, of 56 60] by auto
  then have "n \<le> 55" by (auto simp: stream_size_def split: if_splits)
  ultimately have "n = 55" by simp
  then show ?thesis using n(5,6) l by simp
qed

text \<open>The correction of the data length by one byte is meant for a length field of two bytes. With a length field of four bytes
  the split point can lie behind the data.\<close>

lemma crypto_split_panics:
  assumes "length d = 16384"
  shows "CryptoFrame_MaybeSplitOffFrame \<lparr>cfOffset = 0, cfData = d\<rparr> 16389 = Inl WPanic"
proof -
  have "length (vi (of_nat 16384)) = 4" "length (vi 0) = 1" using length_vi_w64 [of 16384] length_vi_w64 [of 0] by simp_all
  moreover have "length (vi (16386 :: u64)) = 4" using length_vi_w64 [of 16386] by simp
  ultimately show ?thesis using assms
    by (simp add: CryptoFrame_MaybeSplitOffFrame_def CryptoFrame_Length_def CryptoFrame_MaxDataLen_def codec_simps vint_def Let_def)
qed

end
