(* ===== verification/GroupDAG.thy ===== *)
theory GroupDAG
  imports Prelude
begin

text \<open>
  The reference check of outbound groups, \<^verbatim>\<open>src/engine/outbound_group_dag.go\<close>: a depth-first search
  over the groups that colours a group white, gray (on the current path) or black (done). The
  groups are a map from a tag to the tags of its members; \<open>range\<close> over that map visits the keys in
  an order the language leaves open, so the order is an argument. The recursion is bounded by a
  counter of nested calls; as many calls as there are groups are enough (\<open>dfs_both\<close>), so running out
  never happens in \<open>validateGroupDAG\<close>.
\<close>

section \<open>The search\<close>

datatype color = white | gray | black

type_synonym groups = "string \<rightharpoonup> string list"
type_synonym colors = "string \<Rightarrow> color"

datatype dag_error = CycleDetected string string

definition members_of :: "groups \<Rightarrow> string \<Rightarrow> string list" where
  "members_of groups node = (case groups node of Some ms \<Rightarrow> ms | None \<Rightarrow> [])"

function dfs :: "nat \<Rightarrow> groups \<Rightarrow> string \<Rightarrow> colors \<Rightarrow> (dag_error + colors) option"
  and dfs_members :: "nat \<Rightarrow> groups \<Rightarrow> string \<Rightarrow> string list \<Rightarrow> colors \<Rightarrow> (dag_error + colors) option" where
  "dfs 0 groups node color = None"
| "dfs (Suc n) groups node color =
    (case dfs_members n groups node (members_of groups node) (color(node := gray)) of
       None \<Rightarrow> None
     | Some (Inl err) \<Rightarrow> Some (Inl err)
     | Some (Inr color) \<Rightarrow> Some (Inr (color(node := black))))"
| "dfs_members n groups node [] color = Some (Inr color)"
| "dfs_members n groups node (member # ms) color =
    (if groups member = None then dfs_members n groups node ms color
     else case color member of
       gray \<Rightarrow> Some (Inl (CycleDetected node member))
     | white \<Rightarrow>
         (case dfs n groups member color of
            None \<Rightarrow> None
          | Some (Inl err) \<Rightarrow> Some (Inl err)
          | Some (Inr color) \<Rightarrow> dfs_members n groups node ms color)
     | black \<Rightarrow> dfs_members n groups node ms color)"
  by pat_completeness auto
termination
  by (relation "inv_image (less_than <*lex*> less_than)
        (\<lambda>x. case x of Inl (n, _) \<Rightarrow> (2 * n, 0) | Inr (n, _, _, ms, _) \<Rightarrow> (2 * n + 1, length ms))")
    auto

fun dag_loop :: "nat \<Rightarrow> groups \<Rightarrow> string list \<Rightarrow> colors \<Rightarrow> (dag_error + colors) option" where
  "dag_loop n groups [] color = Some (Inr color)"
| "dag_loop n groups (node # rest) color =
    (if color node = white
     then case dfs n groups node color of
         None \<Rightarrow> None
       | Some (Inl err) \<Rightarrow> Some (Inl err)
       | Some (Inr color) \<Rightarrow> dag_loop n groups rest color
     else dag_loop n groups rest color)"

text \<open>\<open>keys\<close> is the order in which \<open>range groups\<close> yields the keys; the result is the error, if any.\<close>

definition validateGroupDAG :: "string list \<Rightarrow> groups \<Rightarrow> (dag_error option) option" where
  "validateGroupDAG keys groups =
    (case dag_loop (length keys) groups keys (\<lambda>_. white) of
       None \<Rightarrow> None
     | Some (Inl err) \<Rightarrow> Some (Some err)
     | Some (Inr _) \<Rightarrow> Some None)"

section \<open>References and colours\<close>

text \<open>The references between groups, and the sets of each colour.\<close>

definition refs :: "groups \<Rightarrow> (string \<times> string) set" where
  "refs groups = {(a, b). a \<in> dom groups \<and> b \<in> dom groups \<and> b \<in> set (members_of groups a)}"

definition whites :: "groups \<Rightarrow> colors \<Rightarrow> string set" where
  "whites groups color = {x \<in> dom groups. color x = white}"

definition grays :: "colors \<Rightarrow> string set" where
  "grays color = {x. color x = gray}"

definition blacks :: "colors \<Rightarrow> string set" where
  "blacks color = {x. color x = black}"

lemma mem_colors [simp]:
  "x \<in> grays c \<longleftrightarrow> c x = gray"
  "x \<in> blacks c \<longleftrightarrow> c x = black"
  by (simp_all add: grays_def blacks_def)

lemma grays_upd: "grays (c(x := gray)) = insert x (grays c)" "k \<noteq> gray \<Longrightarrow> grays (c(x := k)) = grays c - {x}"
  by (auto simp: grays_def)

lemma blacks_upd: "blacks (c(x := black)) = insert x (blacks c)" "k \<noteq> black \<Longrightarrow> blacks (c(x := k)) = blacks c - {x}"
  by (auto simp: blacks_def)

text \<open>Everything a black group refers to is black, and no cycle runs through black groups.\<close>

definition done_ok :: "groups \<Rightarrow> colors \<Rightarrow> bool" where
  "done_ok groups color \<longleftrightarrow>
     (\<forall>(a, b) \<in> refs groups. a \<in> blacks color \<longrightarrow> b \<in> blacks color) \<and>
     acyclic (refs groups \<inter> blacks color \<times> UNIV)"

text \<open>What a call leaves: the gray path as it was, more black groups, the invariant.\<close>

definition progress :: "groups \<Rightarrow> colors \<Rightarrow> colors \<Rightarrow> bool" where
  "progress groups color color' \<longleftrightarrow>
     done_ok groups color' \<and> grays color' = grays color \<and> blacks color \<subseteq> blacks color'"

lemma progressD:
  assumes "progress groups color color'"
  shows "done_ok groups color'" "grays color' = grays color" "blacks color \<subseteq> blacks color'"
  using assms by (auto simp: progress_def)

lemma progress_black: "progress g c c' \<Longrightarrow> c x = black \<Longrightarrow> c' x = black"
  using subsetD [of "blacks c" "blacks c'" x] by (simp add: progress_def)

lemma progress_trans:
  "progress g a b \<Longrightarrow> progress g b c \<Longrightarrow> progress g a c"
  by (auto simp: progress_def)

lemma progress_refl: "done_ok g c \<Longrightarrow> progress g c c"
  by (simp add: progress_def)

lemma progress_whites: "progress g a b \<Longrightarrow> whites g b \<subseteq> whites g a"
proof
  fix x
  assume p: "progress g a b" and x: "x \<in> whites g b"
  show "x \<in> whites g a"
    using progressD(2,3) [OF p, unfolded set_eq_iff subset_iff, THEN spec, of x] x
    by (cases "a x") (auto simp: grays_def blacks_def whites_def)
qed

lemma whites_finite: "finite (dom g) \<Longrightarrow> finite (whites g c)"
  by (simp add: whites_def)

lemma progress_card: "finite (dom g) \<Longrightarrow> progress g a b \<Longrightarrow> card (whites g b) \<le> card (whites g a)"
  by (intro card_mono whites_finite progress_whites)

lemma done_ok_gray:
  assumes "done_ok g c" and "c node = white"
  shows "done_ok g (c(node := gray))"
proof -
  have "blacks (c(node := gray)) = blacks c"
    using assms(2) by (auto simp: blacks_def)
  then show ?thesis
    using assms(1) by (simp add: done_ok_def)
qed

lemma card_gray:
  assumes "finite (dom g)" and "node \<in> dom g" and "c node = white"
  shows "card (whites g c) = Suc (card (whites g (c(node := gray))))"
proof -
  have "whites g c = insert node (whites g (c(node := gray)))" "node \<notin> whites g (c(node := gray))"
    using assms by (auto simp: whites_def)
  then show ?thesis
    using assms(1) by (simp add: whites_finite)
qed

text \<open>Adding to a closed acyclic part a node nothing in it refers to keeps it acyclic.\<close>

lemma acyclic_add_source:
  assumes acyc: "acyclic (R \<inter> B \<times> UNIV)"
    and closed: "\<forall>(a, b) \<in> R. a \<in> insert x B \<longrightarrow> b \<in> B"
    and "x \<notin> B"
  shows "acyclic (R \<inter> insert x B \<times> UNIV)"
proof -
  have "R \<inter> insert x B \<times> UNIV \<subseteq> (R \<inter> B \<times> UNIV) \<union> {x} \<times> B"
    using closed by auto
  moreover have "acyclic ((R \<inter> B \<times> UNIV) \<union> {x} \<times> B)"
  proof (rule acyclicI, rule allI)
    fix a
    have in_B: "b \<in> B" if "(a, b) \<in> ((R \<inter> B \<times> UNIV) \<union> {x} \<times> B)\<^sup>+" for a b
      using that by (induction) (use closed in auto)
    have inner: "(a, b) \<in> (R \<inter> B \<times> UNIV)\<^sup>+" if "(a, b) \<in> ((R \<inter> B \<times> UNIV) \<union> {x} \<times> B)\<^sup>+" and "a \<in> B" for a b
      using that
    proof (induction)
      case (base y)
      with \<open>x \<notin> B\<close> show ?case by auto
    next
      case (step y z)
      have "y \<in> B"
        using step.hyps(1) by (rule in_B)
      with step \<open>x \<notin> B\<close> show ?case
        by (auto intro: trancl_into_trancl)
    qed
    show "(a, a) \<notin> ((R \<inter> B \<times> UNIV) \<union> {x} \<times> B)\<^sup>+"
      using in_B [of a a] inner [of a a] acyc by (auto simp: acyclic_def)
  qed
  ultimately show ?thesis
    by (rule acyclic_subset[rotated])
qed

lemma done_ok_black:
  assumes "done_ok g c" and gray: "c node = gray"
    and all: "\<forall>b. (node, b) \<in> refs g \<longrightarrow> b \<in> blacks c"
  shows "done_ok g (c(node := black))"
proof -
  have b: "blacks (c(node := black)) = insert node (blacks c)" and n: "node \<notin> blacks c"
    using gray by (auto simp: blacks_def)
  have closed: "\<forall>(a, b) \<in> refs g. a \<in> insert node (blacks c) \<longrightarrow> b \<in> blacks c"
    using assms(1) all by (auto simp: done_ok_def)
  show ?thesis
    unfolding done_ok_def b
    using acyclic_add_source [OF _ closed n] assms(1) closed by (fastforce simp: done_ok_def)
qed

section \<open>The search is sound and complete\<close>

text \<open>What a finished search says: an error means a cycle, no error means the visited part is done.\<close>

fun on_cycle :: "groups \<Rightarrow> dag_error \<Rightarrow> bool" where
  "on_cycle groups (CycleDetected a b) \<longleftrightarrow> (a, b) \<in> refs groups \<and> (b, a) \<in> (refs groups)\<^sup>*"

lemma on_cycle_not_acyclic: "on_cycle g err \<Longrightarrow> \<not> acyclic (refs g)"
  by (cases err) (auto simp: acyclic_def dest: rtrancl_into_trancl2)

definition verdict :: "groups \<Rightarrow> colors \<Rightarrow> string set \<Rightarrow> (dag_error + colors) option \<Rightarrow> bool" where
  "verdict groups color visited r =
     (case r of
        None \<Rightarrow> False
      | Some (Inl err) \<Rightarrow> on_cycle groups err
      | Some (Inr color') \<Rightarrow> progress groups color color' \<and> visited \<subseteq> blacks color')"

lemma verdict_simps [simp]:
  "\<not> verdict g c V None"
  "verdict g c V (Some (Inl err)) \<longleftrightarrow> on_cycle g err"
  "verdict g c V (Some (Inr c')) \<longleftrightarrow> progress g c c' \<and> V \<subseteq> blacks c'"
  by (simp_all add: verdict_def)

lemma verdict_cases:
  assumes "verdict g c V r"
  obtains (cycle) err where "r = Some (Inl err)" "on_cycle g err"
    | (fine) c' where "r = Some (Inr c')" "progress g c c'" "V \<subseteq> blacks c'"
  using assms by (auto simp: verdict_def split: option.splits sum.splits)

text \<open>The context of a call: the gray groups lead to the node that is searched.\<close>

definition leads :: "groups \<Rightarrow> colors \<Rightarrow> string \<Rightarrow> bool" where
  "leads groups color node \<longleftrightarrow> (\<forall>x \<in> grays color. (x, node) \<in> (refs groups)\<^sup>*)"

lemma gray_cycle:
  assumes "leads g c node" and "c member = gray" and "(node, member) \<in> refs g"
  shows "on_cycle g (CycleDetected node member)"
  using assms by (simp add: leads_def)

lemma leads_step: "leads g c node \<Longrightarrow> (node, member) \<in> refs g \<Longrightarrow> \<forall>x \<in> grays c. (x, member) \<in> (refs g)\<^sup>*"
  by (auto simp: leads_def intro: rtrancl_into_rtrancl)

lemma dfs_both:
  "finite (dom g) \<Longrightarrow> done_ok g c \<Longrightarrow> node \<in> dom g \<Longrightarrow> c node = white \<Longrightarrow> leads g c node \<Longrightarrow>
     card (whites g c) \<le> n \<Longrightarrow> verdict g c {node} (dfs n g node c)"
  "finite (dom g) \<Longrightarrow> done_ok g c \<Longrightarrow> node \<in> dom g \<Longrightarrow> c node = gray \<Longrightarrow> leads g c node \<Longrightarrow>
     card (whites g c) \<le> n \<Longrightarrow> set ms \<subseteq> set (members_of g node) \<Longrightarrow>
     verdict g c (set ms \<inter> dom g) (dfs_members n g node ms c)"
proof (induction n g node c and n g node ms c rule: dfs_dfs_members.induct)
  case (1 g node c)
  then have "card (whites g c) \<noteq> 0"
    by (auto simp: whites_def)
  with 1 show ?case by simp
next
  case (2 n g node c)
  let ?c = "c(node := gray)"
  have refs: "\<forall>b. (node, b) \<in> refs g \<longrightarrow> b \<in> set (members_of g node) \<inter> dom g"
    by (auto simp: refs_def)
  have "verdict g ?c (set (members_of g node) \<inter> dom g) (dfs_members n g node (members_of g node) ?c)"
  proof (rule "2.IH")
    show "leads g ?c node"
      using "2.prems"(5) by (auto simp: leads_def grays_def)
    show "card (whites g ?c) \<le> n"
      using "2.prems" card_gray [of g node c] by simp
    show "done_ok g ?c"
      using "2.prems"(2,4) by (rule done_ok_gray)
  qed (use "2.prems" in simp_all)
  then show ?case
  proof (cases rule: verdict_cases)
    case (fine c')
    have other: "grays c' = insert node (grays c)"
      using progressD(2) [OF fine(2)] by (simp add: grays_upd)
    then have gray: "c' node = gray"
      by (simp flip: mem_colors)
    have "\<forall>b. (node, b) \<in> refs g \<longrightarrow> b \<in> blacks c'"
      using refs fine(3) by blast
    then have "done_ok g (c'(node := black))"
      by (rule done_ok_black [OF progressD(1) [OF fine(2)] gray])
    moreover have "grays (c'(node := black)) = grays c"
      using other \<open>c node = white\<close> by (simp add: grays_upd)
    moreover have "blacks c \<subseteq> blacks (c'(node := black))"
      using progressD(3) [OF fine(2)] \<open>c node = white\<close> by (auto simp: blacks_upd)
    ultimately show ?thesis
      by (simp add: fine progress_def)
  qed simp
next
  case (3 n g node c)
  then show ?case by (simp add: progress_refl)
next
  case (4 n g node member ms c)
  note prems = "4.prems"
  show ?case
  proof (cases "member \<in> dom g")
    case False
    then show ?thesis
      using 4 by (simp add: domIff)
  next
    case True
    then obtain mm where some: "g member = Some mm"
      by auto
    have ref: "(node, member) \<in> refs g"
      using True prems by (auto simp: refs_def)
    show ?thesis
    proof (cases "c member")
      case gray
      then show ?thesis
        using gray_cycle [OF prems(5) gray ref] some by simp
    next
      case black
      have "verdict g c (set ms \<inter> dom g) (dfs_members n g node ms c)"
        using 4 black some by simp
      then show ?thesis
        using some black
        by (cases rule: verdict_cases) (auto simp: progress_def blacks_def)
    next
      case white
      have "verdict g c {member} (dfs n g member c)"
        using prems white some True leads_step [OF prems(5) ref] by (intro "4.IH") (auto simp: leads_def)
      then show ?thesis
      proof (cases rule: verdict_cases)
        case (fine c')
        have "verdict g c' (set ms \<inter> dom g) (dfs_members n g node ms c')"
        proof (rule "4.IH"(3) [OF _ white fine(1) refl])
          show "c' node = gray" "leads g c' node"
            using progressD(2) [OF fine(2)] prems by (auto simp: grays_def leads_def)
          show "card (whites g c') \<le> n"
            using progress_card [OF prems(1) fine(2)] prems by simp
        qed (use prems some progressD(1) [OF fine(2)] in auto)
        then show ?thesis
        proof (cases rule: verdict_cases)
          case inner: (fine c2)
          have "member \<in> blacks c2"
            using fine(3) progressD(3) [OF inner(2)] by auto
          then show ?thesis
            using some white fine inner progress_trans [OF fine(2) inner(2)]
            by (simp add: Int_insert_left)
        qed (use some white fine in simp)
      qed (use some white in simp)
    qed
  qed
qed

lemma dag_loop_verdict:
  assumes "finite (dom g)"
  shows "done_ok g c \<Longrightarrow> grays c = {} \<Longrightarrow> set keys \<subseteq> dom g \<Longrightarrow> card (whites g c) \<le> n \<Longrightarrow>
    verdict g c (set keys) (dag_loop n g keys c)"
proof (induction keys arbitrary: c)
  case Nil
  then show ?case by (simp add: progress_refl)
next
  case (Cons node rest)
  show ?case
  proof (cases "c node = white")
    case True
    have "verdict g c {node} (dfs n g node c)"
      using assms Cons.prems True by (intro dfs_both) (auto simp: leads_def)
    then show ?thesis
    proof (cases rule: verdict_cases)
      case (fine c')
      have "verdict g c' (set rest) (dag_loop n g rest c')"
        using Cons.prems progressD [OF fine(2)] progress_card [OF assms fine(2)]
        by (intro Cons.IH) auto
      then show ?thesis
      proof (cases rule: verdict_cases)
        case inner: (fine c2)
        then show ?thesis
          using True fine progress_trans [OF fine(2) inner(2)] progressD(3) [OF inner(2)] by auto
      qed (simp add: True fine)
    qed (simp add: True)
  next
    case False
    then have black: "c node = black"
      using Cons.prems(2) by (cases "c node") (auto simp: grays_def)
    have "verdict g c (set rest) (dag_loop n g rest c)"
      using Cons.prems by (intro Cons.IH) auto
    then show ?thesis
      using black by (cases rule: verdict_cases) (auto dest: progress_black)
  qed
qed

lemma dag_start: "done_ok g (\<lambda>_. white)"
  by (simp add: done_ok_def blacks_def acyclic_def)

text \<open>C8: The check of group references always returns, whatever order the map is visited in: it
  reports no error exactly when no group can reach itself through its members, and an error names
  a reference that lies on a cycle.\<close>

theorem group_dag_validated:
  assumes "set keys = dom groups" and "distinct keys"
  shows "(validateGroupDAG keys groups = Some None \<longleftrightarrow> acyclic (refs groups)) \<and>
    (\<exists>r. validateGroupDAG keys groups = Some r \<and> (\<forall>err. r = Some err \<longrightarrow> on_cycle groups err))"
proof -
  have fin: "finite (dom groups)" and card: "card (whites groups (\<lambda>_. white)) \<le> length keys"
    using assms by (auto simp: whites_def distinct_card simp flip: assms(1))
  have "verdict groups (\<lambda>_. white) (set keys) (dag_loop (length keys) groups keys (\<lambda>_. white))"
    using assms card by (intro dag_loop_verdict fin dag_start) (auto simp: grays_def)
  then show ?thesis
  proof (cases rule: verdict_cases)
    case (cycle err)
    then show ?thesis
      by (simp add: validateGroupDAG_def on_cycle_not_acyclic)
  next
    case (fine c)
    have "refs groups \<inter> blacks c \<times> UNIV = refs groups"
      using fine(3) assms(1) by (auto simp: refs_def)
    then have "acyclic (refs groups)"
      using progressD(1) [OF fine(2)] by (simp add: done_ok_def)
    then show ?thesis
      using fine by (simp add: validateGroupDAG_def)
  qed
qed

theorem group_dag_validated_witness:
  "validateGroupDAG [''a'', ''b''] [''a'' \<mapsto> [''b'', ''x''], ''b'' \<mapsto> [''x'']] = Some None \<and>
   acyclic (refs [''a'' \<mapsto> [''b'', ''x''], ''b'' \<mapsto> [''x'']]) \<and>
   validateGroupDAG [''b'', ''a''] [''a'' \<mapsto> [''b''], ''b'' \<mapsto> [''x'', ''a'']] = Some (Some (CycleDetected ''a'' ''b''))"
  using group_dag_validated [of "[''a'', ''b'']" "[''a'' \<mapsto> [''b'', ''x''], ''b'' \<mapsto> [''x'']]"]
  by (auto simp: validateGroupDAG_def members_of_def numeral_2_eq_2)

end
