(* ===== verification/Resilient.thy ===== *)
theory Resilient
  imports Circuit Retry
begin

text \<open>
  The resilience middleware around an outbound, \<^verbatim>\<open>engine/outbound_middleware.go\<close>: one dial asks the
  circuit breaker, tries the wrapped outbound with exponential backoff and reports the end of the
  attempts to the breaker. The wrapped outbound is a function of the attempt number (from 1);
  \<open>cancelled\<close> says whether the \<^verbatim>\<open>select\<close> after a failed attempt finds the context done, and with which
  error; \<open>now\<close> is the clock when a failure is recorded. The breaker holds its mutex only inside one of
  its methods, so between the admission of a dial and its report other dials and the timers take steps
  on it: \<open>others\<close> lists those steps in their order. The breaker, its timers and their steps are the ones
  of \<open>Circuit\<close>, the doubling of the backoff is the one of \<open>Retry\<close>.
\<close>

section \<open>The middleware\<close>

record ResilientOutbound =
  inner_Tag :: string
  retry :: RetryConfig

datatype ('e, 'c) dial_end = Dialed 'c | CtxDone 'e | Exhausted "'e option"

datatype 'e dial_error = BreakerOpen string | DialError "'e option"

definition NewResilientOutbound :: "string \<Rightarrow> RetryConfig \<Rightarrow> ResilientOutbound" where
  "NewResilientOutbound inner rc =
     \<lparr>inner_Tag = inner, retry = (if MaxAttempts rc = 0 then DefaultRetryConfig else rc)\<rparr>"

text \<open>The attempts: how they end, the delays waited for, and the calls of \<open>onRetry\<close>.\<close>

function dial_loop :: "(nat \<Rightarrow> 'e + 'c) \<Rightarrow> (nat \<Rightarrow> 'e option) \<Rightarrow> RetryConfig \<Rightarrow> int \<Rightarrow> nat \<Rightarrow> nanos \<Rightarrow> 'e option
    \<Rightarrow> ('e, 'c) dial_end \<times> nanos list \<times> (nat \<times> 'e) list" where
  "dial_loop dial cancelled cfg maxAttempts attempt backoff lastErr =
     (if int attempt \<le> maxAttempts then
        (case dial attempt of
           Inr conn \<Rightarrow> (Dialed conn, [], [])
         | Inl err \<Rightarrow>
             if int attempt < maxAttempts then
               (case cancelled attempt of
                  Some ctxErr \<Rightarrow> (CtxDone ctxErr, [], [(attempt, err)])
                | None \<Rightarrow>
                    (let (r, waits, retries) =
                       dial_loop dial cancelled cfg maxAttempts (attempt + 1) (next_backoff cfg backoff) (Some err)
                     in (r, backoff # waits, (attempt, err) # retries)))
             else dial_loop dial cancelled cfg maxAttempts (attempt + 1) backoff (Some err))
      else (Exhausted lastErr, [], []))"
  by pat_completeness auto
termination
  by (relation "measure (\<lambda>(dial, cancelled, cfg, maxAttempts, attempt, backoff, lastErr).
        nat (maxAttempts + 1 - int attempt))") auto

declare dial_loop.simps [simp del]

definition dial_attempts :: "(nat \<Rightarrow> 'e + 'c) \<Rightarrow> (nat \<Rightarrow> 'e option) \<Rightarrow> RetryConfig
    \<Rightarrow> ('e, 'c) dial_end \<times> nanos list \<times> (nat \<times> 'e) list" where
  "dial_attempts dial cancelled cfg =
     (let maxAttempts = (if MaxAttempts cfg \<le> 0 then 1 else MaxAttempts cfg);
          backoff = (if InitialBackoff cfg = 0 then 100 * millisecond else InitialBackoff cfg)
      in dial_loop dial cancelled cfg maxAttempts 1 backoff None)"

text \<open>\<open>(*ResilientOutbound).DialContext\<close> with a breaker: the breaker and its timers are threaded, first
  through \<open>Allow\<close>, then through the steps of others, then through the report.\<close>

definition Resilient_DialContext :: "ResilientOutbound \<Rightarrow> (nat \<Rightarrow> 'e + 'c) \<Rightarrow> (nat \<Rightarrow> 'e option) \<Rightarrow> cb_event list \<Rightarrow> nanos
    \<Rightarrow> CircuitBreaker \<times> timers \<Rightarrow> ('e dial_error + 'c) \<times> (CircuitBreaker \<times> timers)" where
  "Resilient_DialContext r dial cancelled others now s =
     (let (cb, tm) = s; (cb1, ok) = Allow cb
      in if \<not> ok then (Inl (BreakerOpen (inner_Tag r)), (cb1, tm))
         else let (cb2, tm2) = foldl cb_step (cb1, tm) others
              in case fst (dial_attempts dial cancelled (retry r)) of
                   Dialed conn \<Rightarrow> (Inr conn, RecordSuccess cb2 tm2)
                 | CtxDone ctxErr \<Rightarrow> (Inl (DialError (Some ctxErr)), (cb2, tm2))
                 | Exhausted lastErr \<Rightarrow> (Inl (DialError lastErr), fst (RecordFailure now cb2 tm2)))"

text \<open>The same with a nil breaker.\<close>

definition Resilient_DialContext_nil :: "ResilientOutbound \<Rightarrow> (nat \<Rightarrow> 'e + 'c) \<Rightarrow> (nat \<Rightarrow> 'e option)
    \<Rightarrow> 'e dial_error + 'c" where
  "Resilient_DialContext_nil r dial cancelled =
     (case fst (dial_attempts dial cancelled (retry r)) of
        Dialed conn \<Rightarrow> Inr conn
      | CtxDone ctxErr \<Rightarrow> Inl (DialError (Some ctxErr))
      | Exhausted lastErr \<Rightarrow> Inl (DialError lastErr))"

text \<open>\<open>(*ChainOutbound).DialContext\<close>: the plugin chain's \<open>OnConnect\<close> wraps the connection or refuses
  it, and then the raw connection is closed. The last component lists the connections closed.\<close>

definition Chain_DialContext :: "'e + 'c \<Rightarrow> ('c \<Rightarrow> 'e + 'w) \<Rightarrow> ('e + 'w) \<times> 'c list" where
  "Chain_DialContext dialed OnConnect =
     (case dialed of
        Inl err \<Rightarrow> (Inl err, [])
      | Inr conn \<Rightarrow> (case OnConnect conn of Inl err \<Rightarrow> (Inl err, [conn]) | Inr wrapped \<Rightarrow> (Inr wrapped, [])))"

section \<open>Attempts\<close>

lemma dial_loop_success:
  assumes "\<forall>i. a \<le> i \<and> i < k \<longrightarrow> isl (dial i) \<and> cancelled i = None" and "dial k = Inr conn"
    and "a \<le> k" and "int k \<le> m"
  shows "fst (dial_loop dial cancelled cfg m a b e) = Dialed conn"
  using assms
proof (induction "k - a" arbitrary: a b e)
  case 0
  then show ?case by (subst dial_loop.simps) simp
next
  case (Suc d)
  then have "a < k" by linarith
  with Suc.prems obtain err where "dial a = Inl err" "cancelled a = None"
    by (auto simp: isl_def)
  moreover have "fst (dial_loop dial cancelled cfg m (a + 1) (next_backoff cfg b) (Some err)) = Dialed conn"
    using Suc.prems Suc.hyps(2) \<open>a < k\<close> by (intro Suc.hyps(1)) auto
  ultimately show ?case
    using \<open>a < k\<close> Suc.prems(4) by (subst dial_loop.simps) (auto simp: case_prod_beta Let_def)
qed

lemma dial_loop_exhausted:
  assumes "\<forall>i. a \<le> i \<and> int i \<le> m \<longrightarrow> isl (dial i)" and "\<forall>i. a \<le> i \<and> int i < m \<longrightarrow> cancelled i = None"
    and "int a \<le> m"
  shows "fst (dial_loop dial cancelled cfg m a b e) = Exhausted (Some (projl (dial (nat m))))"
  using assms
proof (induction "nat m - a" arbitrary: a b e)
  case 0
  then have m: "m = int a" by linarith
  moreover obtain err where "dial a = Inl err"
    using 0 by (auto simp: isl_def)
  moreover have "fst (dial_loop dial cancelled cfg m (a + 1) b (Some err)) = Exhausted (Some err)"
    by (subst dial_loop.simps) (simp add: m)
  ultimately show ?case
    using 0 by (subst dial_loop.simps) auto
next
  case (Suc d)
  then have "int a < m" by linarith
  with Suc.prems obtain err where "dial a = Inl err" "cancelled a = None"
    by (auto simp: isl_def)
  moreover have "fst (dial_loop dial cancelled cfg m (a + 1) (next_backoff cfg b) (Some err)) =
      Exhausted (Some (projl (dial (nat m))))"
    using Suc.prems Suc.hyps(2) \<open>int a < m\<close> by (intro Suc.hyps(1)) auto
  ultimately show ?case
    using \<open>int a < m\<close> by (subst dial_loop.simps) (auto simp: case_prod_beta Let_def)
qed

lemma dial_loop_cancelled:
  assumes "\<forall>i. a \<le> i \<and> i \<le> k \<longrightarrow> isl (dial i)" and "\<forall>i. a \<le> i \<and> i < k \<longrightarrow> cancelled i = None"
    and "cancelled k = Some ctxErr" and "a \<le> k" and "int k < m"
  shows "fst (dial_loop dial cancelled cfg m a b e) = CtxDone ctxErr"
  using assms
proof (induction "k - a" arbitrary: a b e)
  case 0
  then have "a = k" by simp
  moreover obtain err where "dial k = Inl err" using 0 by (auto simp: isl_def)
  ultimately show ?case using 0 by (subst dial_loop.simps) simp
next
  case (Suc d)
  then have "a < k" by linarith
  with Suc.prems(1,2) obtain err where "dial a = Inl err" "cancelled a = None"
    by (auto simp: isl_def dest!: spec [of _ a])
  moreover have "fst (dial_loop dial cancelled cfg m (a + 1) (next_backoff cfg b) (Some err)) = CtxDone ctxErr"
    using Suc.prems Suc.hyps(2) \<open>a < k\<close> by (intro Suc.hyps(1)) auto
  ultimately show ?case
    using \<open>a < k\<close> Suc.prems(5) by (subst dial_loop.simps) (auto simp: case_prod_beta Let_def)
qed

text \<open>The same for the whole of the attempts, in terms of the number of attempts allowed.\<close>

lemma dial_attempts_ends:
  assumes "n = nat (max 1 (MaxAttempts cfg))"
  shows "1 \<le> k \<Longrightarrow> k \<le> n \<Longrightarrow> dial k = Inr conn \<Longrightarrow> \<forall>i. 1 \<le> i \<and> i < k \<longrightarrow> isl (dial i) \<and> cancelled i = None \<Longrightarrow>
      fst (dial_attempts dial cancelled cfg) = Dialed conn"
    and "1 \<le> k \<Longrightarrow> k < n \<Longrightarrow> cancelled k = Some ctxErr \<Longrightarrow> \<forall>i. 1 \<le> i \<and> i \<le> k \<longrightarrow> isl (dial i) \<Longrightarrow>
      \<forall>i. 1 \<le> i \<and> i < k \<longrightarrow> cancelled i = None \<Longrightarrow> fst (dial_attempts dial cancelled cfg) = CtxDone ctxErr"
    and "\<forall>i. 1 \<le> i \<and> i \<le> n \<longrightarrow> isl (dial i) \<Longrightarrow> \<forall>i. 1 \<le> i \<and> i < n \<longrightarrow> cancelled i = None \<Longrightarrow>
      fst (dial_attempts dial cancelled cfg) = Exhausted (Some (projl (dial n)))"
proof -
  have m: "(if MaxAttempts cfg \<le> 0 then 1 else MaxAttempts cfg) = int n" and n: "1 \<le> n"
    using assms by auto
  show "1 \<le> k \<Longrightarrow> k \<le> n \<Longrightarrow> dial k = Inr conn \<Longrightarrow> \<forall>i. 1 \<le> i \<and> i < k \<longrightarrow> isl (dial i) \<and> cancelled i = None \<Longrightarrow>
      fst (dial_attempts dial cancelled cfg) = Dialed conn"
    unfolding dial_attempts_def m Let_def by (rule dial_loop_success [where k = k]) auto
  show "1 \<le> k \<Longrightarrow> k < n \<Longrightarrow> cancelled k = Some ctxErr \<Longrightarrow> \<forall>i. 1 \<le> i \<and> i \<le> k \<longrightarrow> isl (dial i) \<Longrightarrow>
      \<forall>i. 1 \<le> i \<and> i < k \<longrightarrow> cancelled i = None \<Longrightarrow> fst (dial_attempts dial cancelled cfg) = CtxDone ctxErr"
    unfolding dial_attempts_def m Let_def by (rule dial_loop_cancelled [where k = k]) auto
  show "\<forall>i. 1 \<le> i \<and> i \<le> n \<longrightarrow> isl (dial i) \<Longrightarrow> \<forall>i. 1 \<le> i \<and> i < n \<longrightarrow> cancelled i = None \<Longrightarrow>
      fst (dial_attempts dial cancelled cfg) = Exhausted (Some (projl (dial n)))"
    unfolding dial_attempts_def m Let_def using n by (subst dial_loop_exhausted) auto
qed

text \<open>Steps of the breaker never touch its base cooldown.\<close>

lemma foldl_cb_base: "baseCooldown (fst (foldl cb_step s evs)) = baseCooldown (fst s)"
proof (induction evs arbitrary: s)
  case (Cons ev evs)
  have "baseCooldown (fst (cb_step s ev)) = baseCooldown (fst s)"
    by (cases s; cases ev) (auto simp: cb_defs case_prod_beta split: CircuitState.splits option.splits)
  then show ?case using Cons by simp
qed simp

text \<open>A half-open breaker whose probe slot is taken stays so as long as nobody reports a result and
  nobody resets it.\<close>

fun unreported :: "cb_event \<Rightarrow> bool" where
  "unreported EvAllow = True"
| "unreported (EvExpire i) = True"
| "unreported (EvCallback i) = True"
| "unreported _ = False"

lemma unreported_probe_taken:
  assumes "cbState (fst s) = CircuitHalfOpen" and "halfOpenUsed (fst s)" and "list_all unreported evs"
  shows "fst (foldl cb_step s evs) = fst s"
  using assms
proof (induction evs arbitrary: s)
  case (Cons ev evs)
  have "fst (cb_step s ev) = fst s"
    using Cons.prems by (cases s; cases ev) (auto simp: Allow_def timerCallback_def Let_def)
  then show ?case using Cons by simp
qed simp

section \<open>Properties\<close>

text \<open>C17: What becomes of a dial, whatever other dials and the timers do to the breaker meanwhile. A
  dial the breaker does not admit changes nothing. Of an admitted dial: if an attempt within the
  configured number succeeds, the earlier ones fail and no wait is cut short, the connection of that
  attempt is returned and one success is recorded, which leaves the breaker closed with no failures
  counted and its base cooldown; if the context is done in a wait after a failed attempt, the error of
  the context is returned and nothing is reported to the breaker; if every attempt fails and no wait is
  cut short, the error of the last attempt is returned and one failure is recorded.\<close>

theorem resilient_dial_outcome:
  assumes "n = nat (max 1 (MaxAttempts (retry r)))" and "Allow cb = (cb1, ok)"
    and "foldl cb_step (cb1, tm) others = (cb2, tm2)"
  shows "(\<not> ok \<longrightarrow> Resilient_DialContext r dial cancelled others now (cb, tm) = (Inl (BreakerOpen (inner_Tag r)), (cb, tm))) \<and>
    (ok \<longrightarrow> (\<forall>k conn. 1 \<le> k \<and> k \<le> n \<and> dial k = Inr conn \<and> (\<forall>i. 1 \<le> i \<and> i < k \<longrightarrow> isl (dial i) \<and> cancelled i = None) \<longrightarrow>
       (\<exists>cb3 tm3. RecordSuccess cb2 tm2 = (cb3, tm3) \<and>
          Resilient_DialContext r dial cancelled others now (cb, tm) = (Inr conn, (cb3, tm3)) \<and>
          cbState cb3 = CircuitClosed \<and> consecutiveFails cb3 = 0 \<and> cooldown cb3 = baseCooldown cb))) \<and>
    (ok \<longrightarrow> (\<forall>k ctxErr. 1 \<le> k \<and> k < n \<and> cancelled k = Some ctxErr \<and> (\<forall>i. 1 \<le> i \<and> i \<le> k \<longrightarrow> isl (dial i)) \<and>
         (\<forall>i. 1 \<le> i \<and> i < k \<longrightarrow> cancelled i = None) \<longrightarrow>
       Resilient_DialContext r dial cancelled others now (cb, tm) = (Inl (DialError (Some ctxErr)), (cb2, tm2)))) \<and>
    (ok \<and> (\<forall>i. 1 \<le> i \<and> i \<le> n \<longrightarrow> isl (dial i)) \<and> (\<forall>i. 1 \<le> i \<and> i < n \<longrightarrow> cancelled i = None) \<longrightarrow>
       Resilient_DialContext r dial cancelled others now (cb, tm) =
         (Inl (DialError (Some (projl (dial n)))), fst (RecordFailure now cb2 tm2)))"
proof (intro conjI impI allI)
  note ends = dial_attempts_ends [OF assms(1)]
  have unfold: "Resilient_DialContext r dial cancelled others now (cb, tm) =
      (case fst (dial_attempts dial cancelled (retry r)) of
         Dialed conn \<Rightarrow> (Inr conn, RecordSuccess cb2 tm2)
       | CtxDone ctxErr \<Rightarrow> (Inl (DialError (Some ctxErr)), (cb2, tm2))
       | Exhausted lastErr \<Rightarrow> (Inl (DialError lastErr), fst (RecordFailure now cb2 tm2)))" if ok
    using that assms(2,3) by (simp add: Resilient_DialContext_def)
  have cb1: "baseCooldown cb1 = baseCooldown cb" "\<not> ok \<Longrightarrow> cb1 = cb"
    using assms(2) by (auto simp: Allow_def split: CircuitState.splits if_splits)
  then have base: "baseCooldown cb2 = baseCooldown cb"
    using foldl_cb_base [of "(cb1, tm)" others] assms(3) by simp
  show "Resilient_DialContext r dial cancelled others now (cb, tm) = (Inl (BreakerOpen (inner_Tag r)), (cb, tm))" if "\<not> ok"
    using that cb1(2) assms(2) by (simp add: Resilient_DialContext_def)
  show "\<exists>cb3 tm3. RecordSuccess cb2 tm2 = (cb3, tm3) \<and>
      Resilient_DialContext r dial cancelled others now (cb, tm) = (Inr conn, (cb3, tm3)) \<and>
      cbState cb3 = CircuitClosed \<and> consecutiveFails cb3 = 0 \<and> cooldown cb3 = baseCooldown cb"
    if ok "1 \<le> k \<and> k \<le> n \<and> dial k = Inr conn \<and> (\<forall>i. 1 \<le> i \<and> i < k \<longrightarrow> isl (dial i) \<and> cancelled i = None)" for k conn
    using that ends(1) [of k dial conn cancelled] base by (simp add: unfold RecordSuccess_def closeBreaker_def Let_def)
  show "Resilient_DialContext r dial cancelled others now (cb, tm) = (Inl (DialError (Some ctxErr)), (cb2, tm2))"
    if ok "1 \<le> k \<and> k < n \<and> cancelled k = Some ctxErr \<and> (\<forall>i. 1 \<le> i \<and> i \<le> k \<longrightarrow> isl (dial i)) \<and>
         (\<forall>i. 1 \<le> i \<and> i < k \<longrightarrow> cancelled i = None)" for k ctxErr
    using that ends(2) [of k cancelled ctxErr dial] by (simp add: unfold)
  show "Resilient_DialContext r dial cancelled others now (cb, tm) =
      (Inl (DialError (Some (projl (dial n)))), fst (RecordFailure now cb2 tm2))"
    if "ok \<and> (\<forall>i. 1 \<le> i \<and> i \<le> n \<longrightarrow> isl (dial i)) \<and> (\<forall>i. 1 \<le> i \<and> i < n \<longrightarrow> cancelled i = None)"
    using that ends(3) [of dial cancelled] by (simp add: unfold)
qed

text \<open>The witness: two attempts fail, the third succeeds, and meanwhile another dial has opened the
  breaker; the success closes it again.\<close>

theorem resilient_dial_outcome_witness:
  "\<exists>cb3 tm3. Resilient_DialContext (NewResilientOutbound ''proxy'' DefaultRetryConfig)
       (\<lambda>k. if k < 3 then Inl ''refused'' else Inr ''conn'') (\<lambda>_. None) [EvFailure 5] 7
       (NewCircuitBreaker \<lparr>cfgThreshold = 1, cfgBaseCooldown = 10, cfgMaxCooldown = 40\<rparr>, noTimers) =
     (Inr ''conn'' :: string dial_error + string, (cb3, tm3)) \<and> cbState cb3 = CircuitClosed \<and> consecutiveFails cb3 = 0 \<and> cooldown cb3 = 10"
proof -
  let ?cb = "NewCircuitBreaker \<lparr>cfgThreshold = 1, cfgBaseCooldown = 10, cfgMaxCooldown = 40\<rparr>"
  let ?r = "NewResilientOutbound ''proxy'' DefaultRetryConfig"
  let ?dial = "\<lambda>k. if k < 3 then Inl ''refused'' else Inr ''conn'' :: string + string"
  obtain cb2 tm2 where s2: "foldl cb_step (?cb, noTimers) [EvFailure 5] = (cb2, tm2)"
    by fastforce
  have ok: "Allow ?cb = (?cb, True)" and n: "(3::nat) = nat (max 1 (MaxAttempts (retry ?r)))" and b: "baseCooldown ?cb = 10"
    by (simp_all add: NewCircuitBreaker_def Allow_def NewResilientOutbound_def DefaultRetryConfig_def)
  have "\<exists>cb3 tm3. RecordSuccess cb2 tm2 = (cb3, tm3) \<and>
      Resilient_DialContext ?r ?dial (\<lambda>_. None) [EvFailure 5] 7 (?cb, noTimers) = (Inr ''conn'', (cb3, tm3)) \<and>
      cbState cb3 = CircuitClosed \<and> consecutiveFails cb3 = 0 \<and> cooldown cb3 = baseCooldown ?cb"
    by (rule resilient_dial_outcome [OF n ok s2, THEN conjunct2, THEN conjunct1, rule_format, of 3]) simp_all
  then show ?thesis
    unfolding b by blast
qed

text \<open>C18: A half-open breaker stays half-open when the context of its probe is cancelled while the
  probe waits to retry: the dial returns the error of the context without a report to the breaker, so
  the probe slot stays taken. From then on, whatever requests ask and whatever timers fire, every dial
  is refused without a change, until a dial admitted before the breaker opened reports its result or
  the breaker is reset: no timer and no new dial can free the slot.\<close>

theorem resilient_cancelled_probe_wedges:
  fixes dial :: "nat \<Rightarrow> 'e + 'c"
  assumes "cbState cb = CircuitHalfOpen" and "\<not> halfOpenUsed cb"
    and "1 \<le> k" and "int k < MaxAttempts (retry r)" and "\<forall>i. 1 \<le> i \<and> i \<le> k \<longrightarrow> isl (dial i)"
    and "\<forall>i. 1 \<le> i \<and> i < k \<longrightarrow> cancelled i = None" and "cancelled k = Some ctxErr" and "list_all unreported others"
  shows "\<exists>s. Resilient_DialContext r dial cancelled others now (cb, tm) = (Inl (DialError (Some ctxErr)), s) \<and>
     (\<forall>evs (dial' :: nat \<Rightarrow> 'e + 'c) cancelled' others' now'. list_all unreported evs \<longrightarrow>
        Resilient_DialContext r dial' cancelled' others' now' (foldl cb_step s evs) =
          (Inl (BreakerOpen (inner_Tag r)), foldl cb_step s evs))"
proof -
  let ?cb = "cb\<lparr>halfOpenUsed := True\<rparr>"
  define s where "s = foldl cb_step (?cb, tm) others"
  have "Resilient_DialContext r dial cancelled others now (cb, tm) = (Inl (DialError (Some ctxErr)), s)"
    using assms dial_attempts_ends(2) [OF refl, of k "retry r" cancelled ctxErr dial]
    by (simp add: Resilient_DialContext_def Allow_def s_def case_prod_beta Let_def)
  moreover have "fst s = ?cb"
    using unreported_probe_taken [of "(?cb, tm)" others] assms(1,8) by (simp add: s_def)
  then have taken: "fst (foldl cb_step s evs) = ?cb" if "list_all unreported evs" for evs
    using unreported_probe_taken [of s evs] assms(1) that by simp
  have "Resilient_DialContext r dial' cancelled' others' now' (foldl cb_step s evs) =
      (Inl (BreakerOpen (inner_Tag r)), foldl cb_step s evs)" if u: "list_all unreported evs"
    for evs cancelled' others' now' and dial' :: "nat \<Rightarrow> 'e + 'c"
  proof -
    obtain tm' where "foldl cb_step s evs = (?cb, tm')"
      using taken [OF u] by (cases "foldl cb_step s evs") simp
    then show ?thesis
      using assms(1) by (simp add: Resilient_DialContext_def Allow_def)
  qed
  ultimately show ?thesis by blast
qed

text \<open>The witness reaches the half-open state through the operations: the threshold is met, the timer
  expires and its callback runs; the probe fails twice and is cancelled in its second wait, while
  another dial asks for admission.\<close>

theorem resilient_cancelled_probe_wedges_witness:
  "\<exists>cb tm s. foldl cb_step (NewCircuitBreaker \<lparr>cfgThreshold = 1, cfgBaseCooldown = 10, cfgMaxCooldown = 40\<rparr>, noTimers)
       [EvFailure 1, EvExpire 0, EvCallback 0] = (cb, tm) \<and>
     Resilient_DialContext (NewResilientOutbound ''proxy'' DefaultRetryConfig)
       (\<lambda>_. Inl ''refused'' :: string + string) (\<lambda>k. if k = 2 then Some ''canceled'' else None) [EvAllow] 7 (cb, tm) =
       (Inl (DialError (Some ''canceled'')), s) \<and>
     Resilient_DialContext (NewResilientOutbound ''proxy'' DefaultRetryConfig) (\<lambda>_. Inr ''conn'' :: string + string) (\<lambda>_. None) [] 99
       (foldl cb_step s [EvAllow, EvExpire 0]) = (Inl (BreakerOpen ''proxy''), foldl cb_step s [EvAllow, EvExpire 0])"
proof -
  let ?s = "foldl cb_step (NewCircuitBreaker \<lparr>cfgThreshold = 1, cfgBaseCooldown = 10, cfgMaxCooldown = 40\<rparr>, noTimers)
       [EvFailure 1, EvExpire 0, EvCallback 0]"
  let ?r = "NewResilientOutbound ''proxy'' DefaultRetryConfig"
  let ?dial = "\<lambda>_. Inl ''refused'' :: string + string" and ?c = "\<lambda>k :: nat. if k = 2 then Some ''canceled'' else None"
  obtain cb tm where s: "?s = (cb, tm)" by fastforce
  have "cbState (fst ?s) = CircuitHalfOpen" "\<not> halfOpenUsed (fst ?s)"
    by code_simp+
  then have f: "cbState cb = CircuitHalfOpen" "\<not> halfOpenUsed cb"
    unfolding s by simp_all
  have "(1::nat) \<le> 2" "int 2 < MaxAttempts (retry ?r)" "\<forall>i. 1 \<le> i \<and> i \<le> 2 \<longrightarrow> isl (?dial i)"
    "\<forall>i. 1 \<le> i \<and> i < 2 \<longrightarrow> ?c i = None" "?c 2 = Some ''canceled''" "list_all unreported [EvAllow]"
    by (simp_all add: NewResilientOutbound_def DefaultRetryConfig_def)
  from resilient_cancelled_probe_wedges [where dial = ?dial, OF f this, of 7 tm]
  obtain s' where s': "Resilient_DialContext ?r ?dial ?c [EvAllow] 7 (cb, tm) = (Inl (DialError (Some ''canceled'')), s')"
    and w: "\<And>evs dial' cancelled' others' now'. list_all unreported evs \<Longrightarrow>
      Resilient_DialContext ?r dial' cancelled' others' now' (foldl cb_step s' evs) =
        (Inl (BreakerOpen (inner_Tag ?r)) :: string dial_error + string, foldl cb_step s' evs)"
    by blast
  have "list_all unreported [EvAllow, EvExpire 0]" and "inner_Tag ?r = ''proxy''"
    by (simp_all add: NewResilientOutbound_def)
  then show ?thesis
    using s s' w [of "[EvAllow, EvExpire 0]"] by metis
qed

end
