(* ===== verification/OutboundGroup.thy ===== *)
theory OutboundGroup
  imports GoTime GoSort
begin

text \<open>
  Outbound groups and the health checker they use: \<^verbatim>\<open>outbound/healthcheck/checker.go\<close>,
  \<^verbatim>\<open>engine/outbound_group.go\<close>, \<^verbatim>\<open>outbound_group_select.go\<close>, \<^verbatim>\<open>outbound_group_urltest.go\<close> and
  \<^verbatim>\<open>outbound_quality.go\<close>.

  An outbound is known by its tag; what a dial through it returns is an argument,
  \<open>dial k ob\<close> for the \<open>k\<close>-th dial of the call, so the same outbound may answer differently when it is
  tried twice. Every dialling operation returns the outbounds it tried, in order, next to its
  result. The HTTP exchange of a health check is an argument (its outcome, its duration and the
  clock), as are IEEE double arithmetic (\<open>float_ops\<close>) and the numbers \<open>rand.Shuffle\<close> draws. The
  failure counter of a node is an \<open>int\<close> of Go without its bound of 63 bits.
\<close>

section \<open>Health checker\<close>

record CheckerConfig =
  cURL :: string
  cInterval :: nanos
  cTimeout :: nanos
  cTolerance :: int

record Result =
  Latency :: nanos
  Available :: bool
  UpdatedAt :: nanos

record nodeState =
  lastResult :: Result
  consecutiveFail :: int
  everSucceeded :: bool

record Checker =
  ccfg :: CheckerConfig
  nodes :: "string \<rightharpoonup> nodeState"

definition defaultURL :: string where
  "defaultURL = ''http://www.gstatic.com/generate_204''"

definition zeroConfig :: CheckerConfig where
  "zeroConfig = \<lparr>cURL = [], cInterval = 0, cTimeout = 0, cTolerance = 0\<rparr>"

definition NewChecker :: "CheckerConfig option \<Rightarrow> Checker" where
  "NewChecker cfg =
     (let c = (case cfg of Some c \<Rightarrow> c | None \<Rightarrow> zeroConfig)
      in \<lparr>ccfg = \<lparr>cURL = (if cURL c = [] then defaultURL else cURL c),
                   cInterval = (if cInterval c = 0 then 300 * second else cInterval c),
                   cTimeout = (if cTimeout c = 0 then 5 * second else cTimeout c),
                   cTolerance = (if cTolerance c = 0 then 3 else cTolerance c)\<rparr>,
          nodes = Map.empty\<rparr>)"

text \<open>The zero \<open>nodeState\<close> that \<open>getOrCreate\<close> stores for a new tag.\<close>

definition zeroNode :: nodeState where
  "zeroNode = \<lparr>lastResult = \<lparr>Latency = 0, Available = False, UpdatedAt = 0\<rparr>, consecutiveFail = 0, everSucceeded = False\<rparr>"

definition getOrCreate :: "string \<Rightarrow> Checker \<Rightarrow> nodeState" where
  "getOrCreate tag c = (case nodes c tag of Some ns \<Rightarrow> ns | None \<Rightarrow> zeroNode)"

text \<open>What the HTTP exchange gave: a status code, or an error of the request.\<close>

datatype http_outcome = StatusCode int | RequestError

fun is_available :: "http_outcome \<Rightarrow> bool" where
  "is_available (StatusCode code) \<longleftrightarrow> 200 \<le> code \<and> code < 400"
| "is_available RequestError \<longleftrightarrow> False"

definition Checker_Check :: "string \<Rightarrow> http_outcome \<Rightarrow> nanos \<Rightarrow> nanos \<Rightarrow> Checker \<Rightarrow> Checker \<times> Result" where
  "Checker_Check tag outcome latency now c =
     (let available = is_available outcome;
          result = \<lparr>Latency = latency, Available = available, UpdatedAt = now\<rparr>;
          ns = (getOrCreate tag c)\<lparr>lastResult := result\<rparr>;
          ns1 = (if available then ns\<lparr>consecutiveFail := 0, everSucceeded := True\<rparr>
                 else ns\<lparr>consecutiveFail := consecutiveFail ns + 1\<rparr>)
      in (c\<lparr>nodes := (nodes c)(tag \<mapsto> ns1)\<rparr>, result))"

definition node_result :: "Checker \<Rightarrow> nodeState \<Rightarrow> Result" where
  "node_result c ns =
     (lastResult ns)\<lparr>Available := everSucceeded ns \<and> consecutiveFail ns < cTolerance (ccfg c)\<rparr>"

definition Results :: "Checker \<Rightarrow> string \<rightharpoonup> Result" where
  "Results c = (\<lambda>tag. map_option (node_result c) (nodes c tag))"

definition Checker_Result :: "string \<Rightarrow> Checker \<Rightarrow> Result option" where
  "Checker_Result tag c = (case nodes c tag of None \<Rightarrow> None | Some ns \<Rightarrow> Some (node_result c ns))"

section \<open>Groups\<close>

record outbound =
  Tag :: string

abbreviation "GroupFailover \<equiv> ''failover''"
abbreviation "GroupLoadBalance \<equiv> ''loadbalance''"
abbreviation "GroupQuality \<equiv> ''quality''"
abbreviation "GroupURLTest \<equiv> ''url-test''"
abbreviation "GroupSelect \<equiv> ''select''"

record 'f ProbeSnapshot =
  psLatency :: nanos
  psLoss :: 'f
  psAvailable :: bool

record 'f QualityConfig =
  MaxLatency :: nanos
  MaxLossRate :: 'f
  Tolerance :: nanos

record 'f qualityEntry =
  qTag :: string
  qLatency :: nanos
  qLoss :: 'f
  qIndex :: nat

record urlTestState =
  uTolerance :: nanos
  uSelected :: "outbound option"

record selectState =
  sSelected :: "outbound option"
  sMembers :: "string \<rightharpoonup> outbound"

record 'f OutboundGroup =
  gTag :: string
  strategy :: string
  outbounds :: "outbound list"
  counter :: u64
  qualityCfg :: "'f QualityConfig"
  probeGetter :: "(string \<rightharpoonup> 'f ProbeSnapshot) option"
  urlTest :: "urlTestState option"
  selectState :: "selectState option"

datatype 'e group_error =
    NoMembers string
  | AllMembersFailed string nat "'e option"
  | QualityFailed string nat 'e
  | NoneAvailable string
  | NoneSelected string
  | MemberError 'e

text \<open>Operations of \<open>float64\<close> the ranking uses.\<close>

record 'f float_ops =
  f_int :: "int \<Rightarrow> 'f"
  f_add :: "'f \<Rightarrow> 'f \<Rightarrow> 'f"
  f_sub :: "'f \<Rightarrow> 'f \<Rightarrow> 'f"
  f_mul :: "'f \<Rightarrow> 'f \<Rightarrow> 'f"
  f_sqrt :: "'f \<Rightarrow> 'f"
  f_less :: "'f \<Rightarrow> 'f \<Rightarrow> bool"
  f_eq :: "'f \<Rightarrow> 'f \<Rightarrow> bool"

text \<open>The loop of every strategy that tries outbounds in turn: it stops at the first success and
  remembers the last error. \<open>k\<close> counts the dials made before.\<close>

fun try_each :: "(nat \<Rightarrow> outbound \<Rightarrow> 'e + 'c) \<Rightarrow> nat \<Rightarrow> outbound list \<Rightarrow> 'e option
    \<Rightarrow> outbound list \<times> ('e option + 'c)" where
  "try_each dial k [] lastErr = ([], Inl lastErr)"
| "try_each dial k (ob # obs) lastErr =
     (case dial k ob of
        Inr conn \<Rightarrow> ([ob], Inr conn)
      | Inl err \<Rightarrow> (let (tried, r) = try_each dial (k + 1) obs (Some err) in (ob # tried, r)))"

definition dialFailover :: "'f OutboundGroup \<Rightarrow> (nat \<Rightarrow> outbound \<Rightarrow> 'e + 'c) \<Rightarrow> nat
    \<Rightarrow> outbound list \<times> ('e group_error + 'c)" where
  "dialFailover g dial k =
     (let (tried, r) = try_each dial k (outbounds g) None
      in (tried, map_err (AllMembersFailed (gTag g) (length (outbounds g))) r))"

text \<open>The order of \<open>dialLoadBalance\<close>: member \<open>(start + i) % n\<close> for \<open>i = 0, 1, \<dots>\<close>.\<close>

definition balance_order :: "u64 \<Rightarrow> outbound list \<Rightarrow> outbound list" where
  "balance_order idx obs =
     (let n = of_nat (length obs); start = idx mod n
      in map (\<lambda>i. obs ! unat ((start + of_nat i) mod n)) [0..<length obs])"

definition dialLoadBalance :: "'f OutboundGroup \<Rightarrow> (nat \<Rightarrow> outbound \<Rightarrow> 'e + 'c)
    \<Rightarrow> (outbound list \<times> ('e group_error + 'c)) \<times> 'f OutboundGroup" where
  "dialLoadBalance g dial =
     (let counter1 = counter g + 1; idx = counter1 - 1;
          (tried, r) = try_each dial 0 (balance_order idx (outbounds g)) None
      in ((tried, map_err (AllMembersFailed (gTag g) (length (outbounds g))) r), g\<lparr>counter := counter1\<rparr>))"

text \<open>Durations in milliseconds: \<open>Milliseconds()\<close> truncates toward zero.\<close>

definition Milliseconds :: "nanos \<Rightarrow> int" where
  "Milliseconds d = godiv d 1000000"

definition qualityScore :: "'f float_ops \<Rightarrow> nanos \<Rightarrow> 'f \<Rightarrow> 'f" where
  "qualityScore F lat loss =
     (let ms = f_int F (Milliseconds lat)
      in if f_less F loss (f_int F 0) \<or> f_eq F loss (f_int F 0) then ms
         else f_add F ms (f_mul F (f_int F 5000) (f_sqrt F loss)))"

abbreviation entryScore :: "'f float_ops \<Rightarrow> 'f qualityEntry \<Rightarrow> 'f" where
  "entryScore F e \<equiv> qualityScore F (qLatency e) (qLoss e)"

text \<open>How many entries after the first stay within the band.\<close>

fun bucket_len :: "'f float_ops \<Rightarrow> 'f \<Rightarrow> 'f \<Rightarrow> 'f qualityEntry list \<Rightarrow> nat" where
  "bucket_len F bestScore tolMS [] = 0"
| "bucket_len F bestScore tolMS (e # es) =
     (if f_less F tolMS (f_sub F (entryScore F e) bestScore) then 0 else Suc (bucket_len F bestScore tolMS es))"

definition rankByQuality :: "'f float_ops \<Rightarrow> (nat \<Rightarrow> nat) \<Rightarrow> 'f qualityEntry list \<Rightarrow> 'f QualityConfig
    \<Rightarrow> 'f qualityEntry list" where
  "rankByQuality F rnd entries cfg =
     (let ranked = SliceStable (\<lambda>a b. f_less F (entryScore F a) (entryScore F b)) entries
      in if length ranked \<le> 1 then ranked
         else if Tolerance cfg < 0 then ranked
         else
           (let tol = Milliseconds (Tolerance cfg);
                tolMS = f_int F (if tol = 0 then 30 else tol);
                bucketEnd = 1 + bucket_len F (entryScore F (hd ranked)) tolMS (tl ranked)
            in if bucketEnd > 1 then rand_Shuffle rnd (take bucketEnd ranked) @ drop bucketEnd ranked
               else ranked))"

definition within_limits :: "'f float_ops \<Rightarrow> 'f QualityConfig \<Rightarrow> 'f qualityEntry \<Rightarrow> bool" where
  "within_limits F cfg e \<longleftrightarrow>
     \<not> (MaxLatency cfg > 0 \<and> qLatency e > MaxLatency cfg) \<and>
     \<not> (f_less F (f_int F 0) (MaxLossRate cfg) \<and> f_less F (MaxLossRate cfg) (qLoss e))"

definition filterByQuality :: "'f float_ops \<Rightarrow> 'f qualityEntry list \<Rightarrow> 'f QualityConfig \<Rightarrow> 'f qualityEntry list" where
  "filterByQuality F entries cfg =
     (if entries = [] then entries
      else let filtered = filter (within_limits F cfg) entries
           in if filtered = [] then entries else filtered)"

definition quality_entries :: "'f float_ops \<Rightarrow> 'f OutboundGroup \<Rightarrow> 'f qualityEntry list" where
  "quality_entries F g =
     (let probes = (case probeGetter g of Some p \<Rightarrow> p | None \<Rightarrow> Map.empty)
      in map (\<lambda>i. let ob = outbounds g ! i;
                      entry = \<lparr>qTag = Tag ob, qLatency = second, qLoss = f_int F 1, qIndex = i\<rparr>
                  in case probes (Tag ob) of
                       Some ps \<Rightarrow> if psAvailable ps then entry\<lparr>qLatency := psLatency ps, qLoss := psLoss ps\<rparr> else entry
                     | None \<Rightarrow> entry)
          [0..<length (outbounds g)])"

definition dialQuality :: "'f float_ops \<Rightarrow> (nat \<Rightarrow> nat) \<Rightarrow> 'f OutboundGroup \<Rightarrow> (nat \<Rightarrow> outbound \<Rightarrow> 'e + 'c)
    \<Rightarrow> outbound list \<times> ('e group_error + 'c)" where
  "dialQuality F rnd g dial =
     (let entries = rankByQuality F rnd (filterByQuality F (quality_entries F g) (qualityCfg g)) (qualityCfg g);
          (tried, r) = try_each dial 0 (map (\<lambda>e. outbounds g ! qIndex e) entries) None
      in (tried, case r of
            Inr conn \<Rightarrow> Inr conn
          | Inl (Some lastErr) \<Rightarrow> Inl (QualityFailed (gTag g) (length entries) lastErr)
          | Inl None \<Rightarrow> Inl (NoneAvailable (gTag g))))"

definition dialURLTest :: "'f OutboundGroup \<Rightarrow> (nat \<Rightarrow> outbound \<Rightarrow> 'e + 'c)
    \<Rightarrow> outbound list \<times> ('e group_error + 'c)" where
  "dialURLTest g dial =
     (case urlTest g of
        None \<Rightarrow> dialFailover g dial 0
      | Some u \<Rightarrow>
          (case uSelected u of
             None \<Rightarrow> dialFailover g dial 0
           | Some sel \<Rightarrow>
               (case dial 0 sel of
                  Inr conn \<Rightarrow> ([sel], Inr conn)
                | Inl _ \<Rightarrow> (let (tried, r) = dialFailover g dial 1 in (sel # tried, r)))))"

definition dialSelect :: "'f OutboundGroup \<Rightarrow> (nat \<Rightarrow> outbound \<Rightarrow> 'e + 'c)
    \<Rightarrow> outbound list \<times> ('e group_error + 'c)" where
  "dialSelect g dial =
     (case selectState g of
        None \<Rightarrow> dialFailover g dial 0
      | Some s \<Rightarrow>
          (case sSelected s of
             None \<Rightarrow> ([], Inl (NoneSelected (gTag g)))
           | Some sel \<Rightarrow> ([sel], map_err MemberError (dial 0 sel))))"

definition Group_DialContext :: "'f float_ops \<Rightarrow> (nat \<Rightarrow> nat) \<Rightarrow> 'f OutboundGroup \<Rightarrow> (nat \<Rightarrow> outbound \<Rightarrow> 'e + 'c)
    \<Rightarrow> (outbound list \<times> ('e group_error + 'c)) \<times> 'f OutboundGroup" where
  "Group_DialContext F rnd g dial =
     (if outbounds g = [] then (([], Inl (NoMembers (gTag g))), g)
      else if strategy g = GroupLoadBalance then dialLoadBalance g dial
      else if strategy g = GroupQuality then (dialQuality F rnd g dial, g)
      else if strategy g = GroupURLTest then (dialURLTest g dial, g)
      else if strategy g = GroupSelect then (dialSelect g dial, g)
      else (dialFailover g dial 0, g))"

section \<open>Selection\<close>

definition newSelectState :: "outbound list \<Rightarrow> selectState" where
  "newSelectState obs =
     \<lparr>sSelected = (case obs of [] \<Rightarrow> None | ob # _ \<Rightarrow> Some ob),
      sMembers = foldl (\<lambda>m ob. m(Tag ob \<mapsto> ob)) Map.empty obs\<rparr>"

definition Select :: "string \<Rightarrow> selectState \<Rightarrow> string + selectState" where
  "Select tag s = (case sMembers s tag of None \<Rightarrow> Inl tag | Some ob \<Rightarrow> Inr (s\<lparr>sSelected := Some ob\<rparr>))"

definition Selected :: "selectState \<Rightarrow> string" where
  "Selected s = (case sSelected s of None \<Rightarrow> [] | Some ob \<Rightarrow> Tag ob)"

datatype select_error = NotSelectGroup string | TagNotFound string

definition SelectOutbound :: "string \<Rightarrow> 'f OutboundGroup \<Rightarrow> select_error + 'f OutboundGroup" where
  "SelectOutbound tag g =
     (case selectState g of
        None \<Rightarrow> Inl (NotSelectGroup (gTag g))
      | Some s \<Rightarrow> rbind (map_err TagNotFound (Select tag s)) (\<lambda>s1. Inr (g\<lparr>selectState := Some s1\<rparr>)))"

definition SelectedOutbound :: "'f OutboundGroup \<Rightarrow> string" where
  "SelectedOutbound g = (case selectState g of None \<Rightarrow> [] | Some s \<Rightarrow> Selected s)"

definition SetSelect :: "outbound list \<Rightarrow> 'f OutboundGroup \<Rightarrow> 'f OutboundGroup" where
  "SetSelect obs g = g\<lparr>selectState := Some (newSelectState obs)\<rparr>"

lemma member_index:
  "foldl (\<lambda>m ob. m(Tag ob \<mapsto> ob)) m0 obs t = Some ob \<Longrightarrow> m0 t = Some ob \<or> ob \<in> set obs \<and> Tag ob = t"
proof (induction obs arbitrary: m0)
  case (Cons a obs)
  from Cons.IH [of "m0(Tag a \<mapsto> a)"] Cons.prems show ?case
    by (auto split: if_splits)
qed simp

lemma member_index_dom:
  "foldl (\<lambda>m ob. m(Tag ob \<mapsto> ob)) m0 obs t = None \<longleftrightarrow> m0 t = None \<and> t \<notin> Tag ` set obs"
  by (induction obs arbitrary: m0) auto

text \<open>A selection succeeds exactly for the tags of members, and is then what is selected.\<close>

lemma select_member:
  "(\<exists>s. Select t (newSelectState obs) = Inr s) \<longleftrightarrow> t \<in> Tag ` set obs"
  "Select t (newSelectState obs) = Inr s \<Longrightarrow> Selected s = t"
proof -
  let ?m = "foldl (\<lambda>m ob. m(Tag ob \<mapsto> ob)) Map.empty obs"
  have sel: "Select t (newSelectState obs) =
      (case ?m t of None \<Rightarrow> Inl t | Some ob \<Rightarrow> Inr ((newSelectState obs)\<lparr>sSelected := Some ob\<rparr>))"
    by (cases "?m t") (simp_all add: Select_def newSelectState_def)
  have "?m t = None \<longleftrightarrow> t \<notin> Tag ` set obs"
    by (simp add: member_index_dom)
  then show "(\<exists>s. Select t (newSelectState obs) = Inr s) \<longleftrightarrow> t \<in> Tag ` set obs"
    by (cases "?m t") (simp_all add: sel)
  show "Selected s = t" if "Select t (newSelectState obs) = Inr s"
  proof (cases "?m t")
    case (Some ob)
    have "Tag ob = t"
      using member_index [OF Some] by simp
    then show ?thesis
      using that sel Some by (auto simp: Selected_def)
  qed (use that sel in simp)
qed

definition newURLTestState :: "int \<Rightarrow> urlTestState" where
  "newURLTestState toleranceMS =
     \<lparr>uTolerance = wrap64 ((if toleranceMS \<le> 0 then 50 else toleranceMS) * millisecond), uSelected = None\<rparr>"

definition SetURLTest :: "int \<Rightarrow> 'f OutboundGroup \<Rightarrow> 'f OutboundGroup" where
  "SetURLTest toleranceMS g = g\<lparr>urlTest := Some (newURLTestState toleranceMS)\<rparr>"

fun best_loop :: "(string \<rightharpoonup> Result) \<Rightarrow> outbound list \<Rightarrow> (outbound \<times> nanos) option \<Rightarrow> (outbound \<times> nanos) option" where
  "best_loop results [] best = best"
| "best_loop results (ob # obs) best =
     (case results (Tag ob) of
        None \<Rightarrow> best_loop results obs best
      | Some r \<Rightarrow>
          if \<not> Available r then best_loop results obs best
          else case best of
              None \<Rightarrow> best_loop results obs (Some (ob, Latency r))
            | Some (_, bestLatency) \<Rightarrow>
                if Latency r < bestLatency then best_loop results obs (Some (ob, Latency r))
                else best_loop results obs best)"

definition selectBest :: "(string \<rightharpoonup> Result) \<Rightarrow> outbound list \<Rightarrow> urlTestState \<Rightarrow> urlTestState" where
  "selectBest results obs u =
     (case best_loop results obs None of
        None \<Rightarrow> u
      | Some (bestOb, bestLatency) \<Rightarrow>
          let keep = (case uSelected u of
                None \<Rightarrow> False
              | Some cur \<Rightarrow>
                  (case results (Tag cur) of
                     None \<Rightarrow> False
                   | Some cr \<Rightarrow> Available cr \<and> wrap64 (Latency cr - bestLatency) \<le> uTolerance u))
          in if keep then u else u\<lparr>uSelected := Some bestOb\<rparr>)"

text \<open>\<open>checkAll\<close>: the concurrent checks commute up to their order, which \<open>checks\<close> lists with the outcome,
  duration and clock of each.\<close>

definition checkAll :: "(outbound \<times> http_outcome \<times> nanos \<times> nanos) list \<Rightarrow> outbound list
    \<Rightarrow> Checker \<times> urlTestState \<Rightarrow> Checker \<times> urlTestState" where
  "checkAll checks obs cu =
     (let c1 = foldl (\<lambda>c (ob, outcome, lat, now). fst (Checker_Check (Tag ob) outcome lat now c)) (fst cu) checks
      in (c1, selectBest (Results c1) obs (snd cu)))"

definition URLTestSelected :: "'f OutboundGroup \<Rightarrow> string" where
  "URLTestSelected g =
     (case urlTest g of None \<Rightarrow> [] | Some u \<Rightarrow> (case uSelected u of None \<Rightarrow> [] | Some ob \<Rightarrow> Tag ob))"

section \<open>Dialling\<close>

text \<open>The outcome of a dial fits the outbounds tried: every dial but a successful last one failed.\<close>

definition fits :: "(nat \<Rightarrow> outbound \<Rightarrow> 'e + 'c) \<Rightarrow> nat \<Rightarrow> outbound list \<Rightarrow> 'x + 'c \<Rightarrow> bool" where
  "fits dial k tried r \<longleftrightarrow>
     (case r of
        Inl _ \<Rightarrow> (\<forall>i<length tried. isl (dial (k + i) (tried ! i)))
      | Inr c \<Rightarrow> \<exists>front ob. tried = front @ [ob] \<and> dial (k + length front) ob = Inr c \<and>
          (\<forall>i<length front. isl (dial (k + i) (front ! i))))"

lemma fits_simps [simp]:
  "fits dial k tried (map_err f r) \<longleftrightarrow> fits dial k tried r"
  "fits dial k [] (Inl e)"
  by (auto simp: fits_def split: sum.splits)

lemma isl_map_err [simp]: "isl (map_err f r) = isl r"
  by (cases r) simp_all

lemma map_err_eq_Inl: "map_err f r = Inl e \<longleftrightarrow> (\<exists>e'. r = Inl e' \<and> e = f e')"
  by (cases r) auto

lemma fits_Cons:
  assumes "dial k ob = Inl err" and "fits dial (k + 1) tried r"
  shows "fits dial k (ob # tried) r"
proof (cases r)
  case (Inl e)
  then show ?thesis
    using assms by (auto simp: fits_def nth_Cons split: nat.splits)
next
  case (Inr c)
  with assms(2) obtain front ob' where f: "tried = front @ [ob']" "dial (k + 1 + length front) ob' = Inr c"
    "\<forall>i<length front. isl (dial (k + 1 + i) (front ! i))"
    by (auto simp: fits_def)
  then show ?thesis
    using assms(1) Inr unfolding fits_def
    by (auto simp: nth_Cons split: nat.splits intro!: exI [of _ "ob # front"] exI [of _ ob'])
qed

lemma try_each_fits:
  "try_each dial k obs e = (tried, r) \<Longrightarrow> fits dial k tried r \<and> (isl r \<longrightarrow> tried = obs) \<and> set tried \<subseteq> set obs"
proof (induction dial k obs e arbitrary: tried r rule: try_each.induct)
  case (1 dial k lastErr)
  then show ?case by auto
next
  case (2 dial k ob obs lastErr)
  show ?case
  proof (cases "dial k ob")
    case (Inl err)
    obtain tried' r' where t: "try_each dial (k + 1) obs (Some err) = (tried', r')" by fastforce
    with Inl "2.prems" have "tried = ob # tried'" "r = r'" by simp_all
    then show ?thesis
      using "2.IH" [OF Inl t] fits_Cons [of dial k ob err tried' r'] Inl by auto
  next
    case (Inr conn)
    with "2.prems" have "tried = [ob]" "r = Inr conn" by auto
    then show ?thesis
      using Inr by (simp add: fits_def)
  qed
qed

text \<open>The error of the last of the dials, and that the loop remembers it.\<close>

definition last_error :: "(nat \<Rightarrow> outbound \<Rightarrow> 'e + 'c) \<Rightarrow> nat \<Rightarrow> outbound list \<Rightarrow> 'e" where
  "last_error dial k tried = projl (dial (k + (length tried - 1)) (last tried))"

lemma try_each_error:
  "try_each dial k obs e = (tried, Inl x) \<Longrightarrow> x = (if tried = [] then e else Some (last_error dial k tried))"
proof (induction dial k obs e arbitrary: tried x rule: try_each.induct)
  case (2 dial k ob obs lastErr)
  from "2.prems" obtain err tried' where t: "dial k ob = Inl err" "try_each dial (k + 1) obs (Some err) = (tried', Inl x)"
    "tried = ob # tried'"
    by (auto split: sum.splits prod.splits)
  have "x = (if tried' = [] then Some err else Some (last_error dial (k + 1) tried'))"
    by (rule "2.IH" [OF t(1,2)])
  then show ?case
    using t(1,3) by (cases tried') (simp_all add: last_error_def)
qed simp

lemma dialFailover_fits:
  assumes "dialFailover g dial k = (tried, r)"
  shows "fits dial k tried r" "isl r \<longrightarrow> tried = outbounds g" "set tried \<subseteq> set (outbounds g)"
    "isl r \<and> tried \<noteq> [] \<longrightarrow> r = Inl (AllMembersFailed (gTag g) (length (outbounds g)) (Some (last_error dial k tried)))"
proof -
  obtain tried' r' where t: "try_each dial k (outbounds g) None = (tried', r')" by fastforce
  with assms have r: "tried = tried'" "r = map_err (AllMembersFailed (gTag g) (length (outbounds g))) r'"
    by (simp_all add: dialFailover_def)
  then show "fits dial k tried r" "isl r \<longrightarrow> tried = outbounds g" "set tried \<subseteq> set (outbounds g)"
    using try_each_fits [OF t] by simp_all
  show "isl r \<and> tried \<noteq> [] \<longrightarrow> r = Inl (AllMembersFailed (gTag g) (length (outbounds g)) (Some (last_error dial k tried)))"
    using t r try_each_error [of dial k "outbounds g" None tried'] by (cases r') auto
qed

text \<open>The member a state has chosen, if any.\<close>

definition url_choice :: "'f OutboundGroup \<Rightarrow> outbound list" where
  "url_choice g = (case urlTest g of None \<Rightarrow> [] | Some u \<Rightarrow> (case uSelected u of None \<Rightarrow> [] | Some ob \<Rightarrow> [ob]))"

definition user_choice :: "selectState \<Rightarrow> outbound list" where
  "user_choice st = (case sSelected st of None \<Rightarrow> [] | Some ob \<Rightarrow> [ob])"

lemma last_error_Cons: "tried \<noteq> [] \<Longrightarrow> last_error dial k (ob # tried) = last_error dial (k + 1) tried"
  by (cases tried) (simp_all add: last_error_def)

lemma dialURLTest_fits:
  assumes "dialURLTest g dial = (tried, r)"
  shows "fits dial 0 tried r \<and> (isl r \<longrightarrow> tried = url_choice g @ outbounds g) \<and>
    (isl r \<and> outbounds g \<noteq> [] \<longrightarrow>
      r = Inl (AllMembersFailed (gTag g) (length (outbounds g)) (Some (last_error dial 0 tried))))"
proof -
  consider (fo) "dialFailover g dial 0 = (tried, r)" "url_choice g = []"
    | (ok) sel c where "dial 0 sel = Inr c" "tried = [sel]" "r = Inr c"
    | (again) sel err tried' where "dial 0 sel = Inl err" "dialFailover g dial 1 = (tried', r)" "tried = sel # tried'"
        "url_choice g = [sel]"
    using assms by (auto simp: dialURLTest_def url_choice_def split: option.splits sum.splits prod.splits)
  then show ?thesis
  proof cases
    case fo
    from dialFailover_fits [OF this(1)] show ?thesis using fo(2) by auto
  next
    case ok
    then show ?thesis by (simp add: fits_def)
  next
    case again
    have "fits dial 0 (sel # tried') r"
      using dialFailover_fits(1) [OF again(2)] again(1) by (intro fits_Cons) simp_all
    then show ?thesis
      using dialFailover_fits(2,4) [OF again(2)] again(3,4) by (auto simp: last_error_Cons)
  qed
qed

text \<open>The members a dial of the group may use: for a quality group those within its limits, or all
  if none is.\<close>

definition eligible :: "'f float_ops \<Rightarrow> 'f OutboundGroup \<Rightarrow> outbound list" where
  "eligible F g =
     (if strategy g = GroupQuality
      then map (\<lambda>e. outbounds g ! qIndex e)
        (let good = filter (within_limits F (qualityCfg g)) (quality_entries F g)
         in if good = [] then quality_entries F g else good)
      else outbounds g)"

lemma mset_rankByQuality [simp]: "mset (rankByQuality F rnd es cfg) = mset es"
proof -
  have "mset (rand_Shuffle rnd (take n xs) @ drop n xs) = mset xs" for n and xs :: "'a qualityEntry list"
    by (metis append_take_drop_id mset_append mset_rand_Shuffle)
  then show ?thesis
    by (simp add: rankByQuality_def Let_def)
qed

lemma dialQuality_fits:
  assumes "dialQuality F rnd g dial = (tried, r)" and "strategy g = GroupQuality"
  shows "fits dial 0 tried r" "isl r \<longrightarrow> mset tried = mset (eligible F g)"
    "set tried \<subseteq> set (eligible F g)"
    "isl r \<and> tried \<noteq> [] \<longrightarrow> r = Inl (QualityFailed (gTag g) (length (eligible F g)) (last_error dial 0 tried))"
proof -
  let ?es = "rankByQuality F rnd (filterByQuality F (quality_entries F g) (qualityCfg g)) (qualityCfg g)"
  let ?obs = "map (\<lambda>e. outbounds g ! qIndex e) ?es"
  have m: "mset ?obs = mset (eligible F g)"
    using assms(2) by (auto simp: eligible_def filterByQuality_def Let_def)
  then have "set ?obs = set (eligible F g)"
    by (rule mset_eq_setD)
  obtain tried' r' where t: "try_each dial 0 ?obs None = (tried', r')" by fastforce
  with assms have r: "tried = tried'"
    "r = (case r' of Inr conn \<Rightarrow> Inr conn | Inl (Some e) \<Rightarrow> Inl (QualityFailed (gTag g) (length ?es) e)
        | Inl None \<Rightarrow> Inl (NoneAvailable (gTag g)))"
    by (simp_all add: dialQuality_def Let_def)
  then have "fits dial 0 tried r" "isl r = isl r'" "tried = tried'"
    using try_each_fits [OF t] by (auto simp: fits_def split: sum.splits option.splits)
  then show "fits dial 0 tried r" "isl r \<longrightarrow> mset tried = mset (eligible F g)"
    "set tried \<subseteq> set (eligible F g)"
    using try_each_fits [OF t] m \<open>set ?obs = set (eligible F g)\<close> by auto
  have "length ?es = length (eligible F g)"
    using arg_cong [OF m, of size] by (simp only: size_mset length_map)
  then show "isl r \<and> tried \<noteq> [] \<longrightarrow> r = Inl (QualityFailed (gTag g) (length (eligible F g)) (last_error dial 0 tried))"
    using t r try_each_error [of dial 0 ?obs None tried'] by (cases r') auto
qed

lemma balance_index:
  assumes "n \<noteq> 0" and "n < 2 ^ 63" and "i < n"
  shows "unat ((idx mod of_nat n + of_nat i) mod of_nat n :: u64) = (unat idx mod n + i) mod n"
proof -
  have n: "unat (of_nat n :: u64) = n" and i: "unat (of_nat i :: u64) = i"
    using assms(2,3) by (simp_all add: unat_of_nat)
  have "unat idx mod n < n"
    using assms(1) by simp
  then have "unat idx mod n + i < 2 ^ 63 + 2 ^ 63"
    using assms(2,3) by linarith
  then have "unat (idx mod of_nat n + of_nat i :: u64) = unat idx mod n + i"
    by (simp add: unat_word_ariths n i)
  then show ?thesis
    by (simp add: unat_mod n)
qed

lemma balance_order_rotate:
  assumes "length obs < 2 ^ 63"
  shows "balance_order idx obs = rotate (unat idx) obs"
proof (cases "obs = []")
  case False
  show ?thesis
  proof (rule nth_equalityI)
    fix i
    assume "i < length (balance_order idx obs)"
    then have i: "i < length obs"
      by (simp add: balance_order_def Let_def)
    have "balance_order idx obs ! i = obs ! ((unat idx mod length obs + i) mod length obs)"
      using i False assms by (simp add: balance_order_def Let_def balance_index)
    also have "\<dots> = rotate (unat idx) obs ! i"
      using i by (simp add: nth_rotate mod_simps)
    finally show "balance_order idx obs ! i = rotate (unat idx) obs ! i" .
  qed (simp add: balance_order_def Let_def)
qed (simp add: balance_order_def)

lemma mset_rotate_list: "mset (rotate k xs) = mset xs"
  by (metis append_take_drop_id mset_append rotate_drop_take union_commute)

lemma dialLoadBalance_fits:
  assumes "dialLoadBalance g dial = ((tried, r), g1)" and "length (outbounds g) < 2 ^ 63"
  shows "fits dial 0 tried r" "isl r \<longrightarrow> mset tried = mset (outbounds g)"
    "set tried \<subseteq> set (outbounds g)"
    "isl r \<and> tried \<noteq> [] \<longrightarrow> r = Inl (AllMembersFailed (gTag g) (length (outbounds g)) (Some (last_error dial 0 tried)))"
proof -
  let ?obs = "balance_order (counter g) (outbounds g)"
  have m: "mset ?obs = mset (outbounds g)"
    using assms(2) by (simp add: balance_order_rotate mset_rotate_list)
  obtain tried' r' where t: "try_each dial 0 ?obs None = (tried', r')" by fastforce
  with assms(1) have r: "tried = tried'" "r = map_err (AllMembersFailed (gTag g) (length (outbounds g))) r'"
    by (auto simp: dialLoadBalance_def Let_def)
  then show "fits dial 0 tried r" "isl r \<longrightarrow> mset tried = mset (outbounds g)" "set tried \<subseteq> set (outbounds g)"
    using try_each_fits [OF t] m mset_eq_setD [OF m] by auto
  show "isl r \<and> tried \<noteq> [] \<longrightarrow> r = Inl (AllMembersFailed (gTag g) (length (outbounds g)) (Some (last_error dial 0 tried)))"
    using t r try_each_error [of dial 0 ?obs None tried'] by (cases r') auto
qed

text \<open>The member tried first by each of a sequence of calls.\<close>

fun first_tried :: "'f float_ops \<Rightarrow> (nat \<Rightarrow> nat) \<Rightarrow> 'f OutboundGroup \<Rightarrow> (nat \<Rightarrow> outbound \<Rightarrow> 'e + 'c) list \<Rightarrow> outbound list" where
  "first_tried F rnd g [] = []"
| "first_tried F rnd g (dial # dials) =
     (let ((tried, r), g1) = Group_DialContext F rnd g dial in hd tried # first_tried F rnd g1 dials)"

lemma try_each_hd: "obs \<noteq> [] \<Longrightarrow> hd (fst (try_each dial k obs e)) = hd obs"
  by (cases obs) (auto split: sum.splits prod.splits)

lemma balance_first:
  assumes "strategy g = GroupLoadBalance" and "outbounds g \<noteq> []" and "length (outbounds g) < 2 ^ 63"
  shows "hd (fst (fst (Group_DialContext F rnd g dial))) = outbounds g ! (unat (counter g) mod length (outbounds g))"
    and "snd (Group_DialContext F rnd g dial) = g\<lparr>counter := counter g + 1\<rparr>"
proof -
  have "rotate (unat (counter g)) (outbounds g) \<noteq> []"
    using assms(2) by simp
  then show "hd (fst (fst (Group_DialContext F rnd g dial))) = outbounds g ! (unat (counter g) mod length (outbounds g))"
    using try_each_hd [of "rotate (unat (counter g)) (outbounds g)" dial 0 None] assms
    by (simp add: Group_DialContext_def dialLoadBalance_def Let_def case_prod_beta balance_order_rotate hd_rotate_conv_nth)
  show "snd (Group_DialContext F rnd g dial) = g\<lparr>counter := counter g + 1\<rparr>"
    using assms by (simp add: Group_DialContext_def dialLoadBalance_def Let_def case_prod_beta)
qed

lemma first_tried_rotates:
  assumes "strategy g = GroupLoadBalance" and "outbounds g \<noteq> []" and "length (outbounds g) < 2 ^ 63"
    and "unat (counter g) + length dials \<le> 2 ^ 64"
  shows "first_tried F rnd g dials =
     map (\<lambda>i. outbounds g ! ((unat (counter g) + i) mod length (outbounds g))) [0..<length dials]"
  using assms
proof (induction dials arbitrary: g)
  case (Cons dial dials)
  let ?g = "g\<lparr>counter := counter g + 1\<rparr>" and ?n = "length (outbounds g)"
  have step: "first_tried F rnd g (dial # dials) = outbounds g ! (unat (counter g) mod ?n) # first_tried F rnd ?g dials"
    using balance_first [OF Cons.prems(1-3), of F rnd dial] by (simp add: case_prod_beta Let_def)
  show ?case
  proof (cases "dials = []")
    case False
    then have "unat (counter g) + 1 < 2 ^ 64"
      using Cons.prems(4) by (cases dials) auto
    then have c: "unat (counter ?g) = unat (counter g) + 1"
      by (simp add: unat_word_ariths)
    have "first_tried F rnd ?g dials = map (\<lambda>i. outbounds ?g ! ((unat (counter ?g) + i) mod length (outbounds ?g))) [0..<length dials]"
      using Cons.prems c by (intro Cons.IH) (simp_all del: OutboundGroup.select_convs(4))
    also have "\<dots> = map (\<lambda>i. outbounds g ! ((unat (counter g) + i) mod ?n)) (map Suc [0..<length dials])"
      unfolding c by (simp add: add.commute add.left_commute)
    finally show ?thesis
      unfolding step by (simp add: upt_conv_Cons map_Suc_upt del: upt_Suc)
  qed (use step in \<open>simp del: first_tried.simps(2)\<close>)
qed simp

text \<open>What a group with members reports when its dials failed: the error of the last dial, wrapped.\<close>

definition reported :: "'f float_ops \<Rightarrow> 'f OutboundGroup \<Rightarrow> 'e \<Rightarrow> 'e group_error" where
  "reported F g e =
     (if strategy g = GroupQuality then QualityFailed (gTag g) (length (eligible F g)) e
      else if strategy g = GroupSelect \<and> selectState g \<noteq> None then MemberError e
      else AllMembersFailed (gTag g) (length (outbounds g)) (Some e))"

lemma eligible_nonempty: "outbounds g \<noteq> [] \<Longrightarrow> eligible F g \<noteq> []"
  by (simp add: eligible_def quality_entries_def Let_def)

text \<open>C10: Whatever its strategy, a group hands back a connection only if its last dial made it and
  all dials before failed, and an error only if every dial it made failed. A failover, load-balancing
  or quality group that fails has dialled each member once (a quality group: each member within the
  configured limits, or every member if none is); a url-test group that fails has dialled the member
  its test selected, if any, and then every member in order; a select group dials the selected member
  and nothing else, or, before it has a selection state, every member. The error reported is that of
  the last dial, wrapped by the strategy; without any dial it says that the group has no members, or
  that none is selected.\<close>

theorem group_dial_exhaustive:
  assumes "length (outbounds g) < 2 ^ 63" and "fst (Group_DialContext F rnd g dial) = (tried, r)"
  shows "fits dial 0 tried r \<and>
    (isl r \<and> strategy g \<notin> {GroupURLTest, GroupSelect} \<longrightarrow> mset tried = mset (eligible F g)) \<and>
    (isl r \<and> strategy g = GroupURLTest \<and> outbounds g \<noteq> [] \<longrightarrow> tried = url_choice g @ outbounds g) \<and>
    (strategy g = GroupSelect \<and> outbounds g \<noteq> [] \<longrightarrow>
      (case selectState g of None \<Rightarrow> isl r \<longrightarrow> tried = outbounds g | Some st \<Rightarrow> tried = user_choice st)) \<and>
    (isl r \<longrightarrow> r = Inl (if tried \<noteq> [] then reported F g (last_error dial 0 tried)
                      else if outbounds g = [] then NoMembers (gTag g) else NoneSelected (gTag g)))"
proof -
  note call = assms(2) [unfolded Group_DialContext_def]
  note fo = dialFailover_fits [of g dial 0 tried r]
  consider (empty) "outbounds g = []" | (lb) "outbounds g \<noteq> []" "strategy g = GroupLoadBalance"
    | (q) "outbounds g \<noteq> []" "strategy g = GroupQuality" | (u) "outbounds g \<noteq> []" "strategy g = GroupURLTest"
    | (s) "outbounds g \<noteq> []" "strategy g = GroupSelect"
    | (f) "outbounds g \<noteq> []" "strategy g \<notin> {GroupLoadBalance, GroupQuality, GroupURLTest, GroupSelect}"
    by blast
  then show ?thesis
  proof cases
    case empty
    then show ?thesis
      using call by (auto simp: eligible_def filterByQuality_def quality_entries_def)
  next
    case lb
    then obtain g1 where "dialLoadBalance g dial = ((tried, r), g1)"
      using call by (auto simp: prod_eq_iff)
    from dialLoadBalance_fits [OF this assms(1)] show ?thesis
      using lb by (auto simp: eligible_def reported_def)
  next
    case q
    then have "dialQuality F rnd g dial = (tried, r)"
      using call by simp
    from dialQuality_fits [OF this q(2)] show ?thesis
      using q eligible_nonempty [OF q(1), of F] by (auto simp: reported_def)
  next
    case u
    then have "dialURLTest g dial = (tried, r)"
      using call by simp
    from dialURLTest_fits [OF this] show ?thesis
      using u by (auto simp: reported_def)
  next
    case s
    then have call: "dialSelect g dial = (tried, r)"
      using call by simp
    show ?thesis
    proof (cases "selectState g")
      case None
      then show ?thesis
        using s call fo by (auto simp: dialSelect_def reported_def)
    next
      case (Some st)
      then show ?thesis
        using s call
        by (cases "sSelected st"; cases "dial 0 (the (sSelected st))")
          (auto simp: dialSelect_def reported_def user_choice_def fits_def last_error_def)
    qed
  next
    case f
    then show ?thesis
      using call fo by (auto simp: eligible_def reported_def)
  qed
qed

text \<open>A group of three for the witnesses, with integers for the scores.\<close>

definition int_ops :: "int float_ops" where
  "int_ops = \<lparr>f_int = id, f_add = (+), f_sub = (-), f_mul = (*), f_sqrt = id, f_less = (<), f_eq = (=)\<rparr>"

definition demo_group :: "string \<Rightarrow> int OutboundGroup" where
  "demo_group strat =
     \<lparr>gTag = ''auto'', strategy = strat, outbounds = [\<lparr>Tag = ''a''\<rparr>, \<lparr>Tag = ''b''\<rparr>, \<lparr>Tag = ''c''\<rparr>], counter = 7,
      qualityCfg = \<lparr>MaxLatency = 200000000, MaxLossRate = 0, Tolerance = - 1\<rparr>,
      probeGetter = Some [''a'' \<mapsto> \<lparr>psLatency = 90000000, psLoss = 0, psAvailable = True\<rparr>,
                          ''c'' \<mapsto> \<lparr>psLatency = 20000000, psLoss = 0, psAvailable = True\<rparr>],
      urlTest = None, selectState = None\<rparr>"

theorem group_dial_exhaustive_witness:
  "fst (Group_DialContext int_ops id (demo_group GroupQuality) (\<lambda>k ob. Inl (Tag ob) :: string + unit)) =
     ([\<lparr>Tag = ''c''\<rparr>, \<lparr>Tag = ''a''\<rparr>], Inl (QualityFailed ''auto'' 2 ''a'')) \<and>
   mset [\<lparr>Tag = ''c''\<rparr>, \<lparr>Tag = ''a''\<rparr>] = mset (eligible int_ops (demo_group GroupQuality))"
proof -
  have r: "fst (Group_DialContext int_ops id (demo_group GroupQuality) (\<lambda>k ob. Inl (Tag ob) :: string + unit)) =
      ([\<lparr>Tag = ''c''\<rparr>, \<lparr>Tag = ''a''\<rparr>], Inl (QualityFailed ''auto'' 2 ''a''))"
    by code_simp
  have "length (outbounds (demo_group GroupQuality)) < 2 ^ 63" "strategy (demo_group GroupQuality) \<notin> {GroupURLTest, GroupSelect}"
    by (simp_all add: demo_group_def)
  with group_dial_exhaustive [OF this(1) r] r show ?thesis
    by simp
qed

text \<open>C39: A load-balancing group spreads its calls evenly: over as many consecutive calls as it has
  members, whatever the dials return, each member is the first choice of exactly one call, as long
  as the call counter does not wrap around in between.\<close>

theorem group_balance_round:
  assumes "strategy g = GroupLoadBalance" and "outbounds g \<noteq> []" and "length (outbounds g) < 2 ^ 63"
    and "length dials = length (outbounds g)" and "unat (counter g) + length dials \<le> 2 ^ 64"
  shows "mset (first_tried F rnd g dials) = mset (outbounds g)"
proof -
  have "first_tried F rnd g dials = map (\<lambda>i. rotate (unat (counter g)) (outbounds g) ! i) [0..<length (outbounds g)]"
    using first_tried_rotates [OF assms(1-3,5)] assms(4) by (simp add: nth_rotate add.commute)
  also have "\<dots> = rotate (unat (counter g)) (outbounds g)"
    by (rule nth_equalityI) simp_all
  finally show ?thesis
    by (simp add: mset_rotate_list)
qed

theorem group_balance_round_witness:
  "mset (first_tried int_ops id (demo_group GroupLoadBalance) (replicate 3 (\<lambda>_ _. Inr () :: string + unit))) =
     {#\<lparr>Tag = ''a''\<rparr>, \<lparr>Tag = ''b''\<rparr>, \<lparr>Tag = ''c''\<rparr>#}"
  using group_balance_round [of "demo_group GroupLoadBalance" "replicate 3 (\<lambda>_ _. Inr () :: string + unit)" int_ops id]
  by (simp add: demo_group_def)

section \<open>Health and selection\<close>

text \<open>The checks of one tag, in order, each with its outcome, duration and clock.\<close>

definition run_checks :: "string \<Rightarrow> (http_outcome \<times> nanos \<times> nanos) list \<Rightarrow> Checker \<Rightarrow> Checker" where
  "run_checks tag checks c = foldl (\<lambda>c (outcome, lat, now). fst (Checker_Check tag outcome lat now c)) c checks"

definition trailing_failures :: "(http_outcome \<times> nanos \<times> nanos) list \<Rightarrow> nat" where
  "trailing_failures checks = length (takeWhile (\<lambda>(outcome, _). \<not> is_available outcome) (rev checks))"

lemma run_checks_snoc: "run_checks tag (checks @ [(o1, l, t)]) c = fst (Checker_Check tag o1 l t (run_checks tag checks c))"
  by (simp add: run_checks_def)

lemma trailing_snoc: "trailing_failures (checks @ [(o1, l, t)]) = (if is_available o1 then 0 else Suc (trailing_failures checks))"
  by (simp add: trailing_failures_def)

lemma run_checks_state:
  assumes "nodes c tag = None"
  shows "getOrCreate tag (run_checks tag checks c) =
      \<lparr>lastResult = (if checks = [] then lastResult zeroNode
         else case last checks of (outcome, lat, now) \<Rightarrow> \<lparr>Latency = lat, Available = is_available outcome, UpdatedAt = now\<rparr>),
       consecutiveFail = int (trailing_failures checks),
       everSucceeded = (\<exists>x \<in> set checks. is_available (fst x))\<rparr> \<and>
    ccfg (run_checks tag checks c) = ccfg c \<and> (checks \<noteq> [] \<longrightarrow> nodes (run_checks tag checks c) tag \<noteq> None)"
proof (induction checks rule: rev_induct)
  case Nil
  show ?case
    using assms by (simp add: run_checks_def getOrCreate_def zeroNode_def trailing_failures_def)
next
  case (snoc x checks)
  obtain o1 l t where x: "x = (o1, l, t)" by (cases x)
  show ?case
    using snoc unfolding x run_checks_snoc trailing_snoc
    by (simp add: Checker_Check_def Let_def getOrCreate_def [of tag "_\<lparr>nodes := _\<rparr>"])
qed

text \<open>C40: A checked node counts as available exactly when some check of it succeeded and fewer checks
  than the tolerance have failed since the last success; the latency reported with it is that of
  its last check, whether or not that check succeeded.\<close>

theorem health_check_tolerance:
  assumes "nodes c tag = None" and "checks \<noteq> []"
  shows "\<exists>r. Checker_Result tag (run_checks tag checks c) = Some r \<and> Results (run_checks tag checks c) tag = Some r \<and>
     (Available r \<longleftrightarrow> (\<exists>x \<in> set checks. is_available (fst x)) \<and> int (trailing_failures checks) < cTolerance (ccfg c)) \<and>
     Latency r = fst (snd (last checks))"
proof -
  let ?c = "run_checks tag checks c"
  note st = run_checks_state [OF assms(1), of checks]
  obtain ns where ns: "nodes ?c tag = Some ns"
    using st assms(2) by auto
  then have "ns = getOrCreate tag ?c"
    by (simp add: getOrCreate_def)
  then show ?thesis
    using ns st assms(2)
    by (auto simp: Checker_Result_def Results_def node_result_def split: prod.splits)
qed

theorem health_check_tolerance_witness:
  "\<exists>r. Checker_Result ''a'' (run_checks ''a'' [(StatusCode 204, 80, 1), (RequestError, 5, 2), (StatusCode 500, 7, 3)] (NewChecker None)) = Some r \<and>
     Available r \<and> Latency r = 7"
  using health_check_tolerance [of "NewChecker None" "''a''" "[(StatusCode 204, 80, 1), (RequestError, 5, 2), (StatusCode 500, 7, 3)]"]
  by (auto simp: NewChecker_def zeroConfig_def trailing_failures_def)

text \<open>The latency recorded for a member that is available.\<close>

definition measured :: "(string \<rightharpoonup> Result) \<Rightarrow> outbound \<Rightarrow> nanos option" where
  "measured results ob =
     (case results (Tag ob) of None \<Rightarrow> None | Some r \<Rightarrow> if Available r then Some (Latency r) else None)"

lemma best_loop_measured:
  "best_loop results (ob # obs) best = best_loop results obs
     (case measured results ob of
        None \<Rightarrow> best
      | Some lat \<Rightarrow> (case best of None \<Rightarrow> Some (ob, lat) | Some (b, l) \<Rightarrow> if lat < l then Some (ob, lat) else best))"
  by (auto simp: measured_def split: option.splits)

declare best_loop.simps(2) [simp del]

lemma best_loop_least:
  "best_loop results obs best = Some (b, l) \<Longrightarrow>
     (best = Some (b, l) \<or> b \<in> set obs \<and> measured results b = Some l) \<and>
     (\<forall>ob \<in> set obs. \<forall>lat. measured results ob = Some lat \<longrightarrow> l \<le> lat) \<and> (\<forall>b' l'. best = Some (b', l') \<longrightarrow> l \<le> l')"
proof (induction obs arbitrary: best)
  case (Cons ob obs)
  let ?best = "case measured results ob of None \<Rightarrow> best
      | Some lat \<Rightarrow> (case best of None \<Rightarrow> Some (ob, lat) | Some (b, l) \<Rightarrow> if lat < l then Some (ob, lat) else best)"
  have "best_loop results obs ?best = Some (b, l)"
    using Cons.prems by (simp only: best_loop_measured)
  from Cons.IH [OF this] show ?case
    by (cases "measured results ob"; cases best) (auto split: if_splits)
qed simp

lemma best_loop_None:
  "best_loop results obs best = None \<longleftrightarrow> best = None \<and> (\<forall>ob \<in> set obs. measured results ob = None)"
  by (induction obs arbitrary: best) (auto simp: best_loop_measured split: option.splits)

lemma selectBest_measured:
  assumes "best_loop results obs None = Some (b, l)"
  shows "selectBest results obs u =
     (if \<exists>sel lat. uSelected u = Some sel \<and> measured results sel = Some lat \<and> wrap64 (lat - l) \<le> uTolerance u
      then u else u\<lparr>uSelected := Some b\<rparr>)"
  using assms by (auto simp: selectBest_def measured_def Let_def split: option.splits)

text \<open>C27: When at least one member is available, the url-test selection is left on an available member
  whose measured latency is within the tolerance of every available member's; and it does not move
  while the selected member is available and no other beats it by more than the tolerance.\<close>

theorem url_test_selection:
  assumes "ob0 \<in> set obs" and "measured results ob0 = Some lat0"
    and "\<forall>sel. uSelected u = Some sel \<longrightarrow> sel \<in> set obs"
    and "\<forall>ob lat. measured results ob = Some lat \<longrightarrow> 0 \<le> lat \<and> lat < 2 ^ 62" and "0 \<le> uTolerance u"
  shows "(\<exists>sel \<in> set obs. \<exists>lat. uSelected (selectBest results obs u) = Some sel \<and> measured results sel = Some lat \<and>
       (\<forall>ob \<in> set obs. \<forall>lat'. measured results ob = Some lat' \<longrightarrow> lat \<le> lat' + uTolerance u)) \<and>
     (\<forall>sel lat. uSelected u = Some sel \<and> measured results sel = Some lat \<and>
       (\<forall>ob \<in> set obs. \<forall>lat'. measured results ob = Some lat' \<longrightarrow> lat \<le> lat' + uTolerance u) \<longrightarrow> selectBest results obs u = u)"
proof -
  have "best_loop results obs None \<noteq> None"
    using assms(1,2) by (auto simp: best_loop_None)
  then obtain b l where best: "best_loop results obs None = Some (b, l)" by fastforce
  note least = best_loop_least [OF best]
  then have b: "b \<in> set obs" "measured results b = Some l" and min: "\<And>ob lat. ob \<in> set obs \<Longrightarrow> measured results ob = Some lat \<Longrightarrow> l \<le> lat"
    by auto
  have wrap: "wrap64 (lat - l) = lat - l" if "measured results ob = Some lat" for ob lat
  proof -
    have "0 \<le> lat \<and> lat < 2 ^ 62" "0 \<le> l \<and> l < 2 ^ 62"
      using assms(4) that b(2) by blast+
    then show ?thesis
      by (intro wrap64_id) simp_all
  qed
  define keep where "keep \<longleftrightarrow> (\<exists>sel lat. uSelected u = Some sel \<and> measured results sel = Some lat \<and> lat - l \<le> uTolerance u)"
  have "keep \<longleftrightarrow> (\<exists>sel lat. uSelected u = Some sel \<and> measured results sel = Some lat \<and> wrap64 (lat - l) \<le> uTolerance u)"
    unfolding keep_def using wrap by metis
  then have step: "selectBest results obs u = (if keep then u else u\<lparr>uSelected := Some b\<rparr>)"
    using selectBest_measured [OF best] by simp
  show ?thesis
  proof (cases keep)
    case True
    then obtain sel lat where sel: "uSelected u = Some sel" "measured results sel = Some lat" "lat - l \<le> uTolerance u"
      unfolding keep_def by blast
    have "lat \<le> lat' + uTolerance u" if "ob \<in> set obs" "measured results ob = Some lat'" for ob lat'
      using sel(3) min [OF that] by linarith
    then show ?thesis
      using True sel assms(3) unfolding step by auto
  next
    case False
    have near: "l \<le> lat' + uTolerance u" if "ob \<in> set obs" "measured results ob = Some lat'" for ob lat'
      using assms(5) min [OF that] by linarith
    have far: "\<not> (\<forall>ob \<in> set obs. \<forall>lat'. measured results ob = Some lat' \<longrightarrow> lat \<le> lat' + uTolerance u)"
      if "uSelected u = Some sel" "measured results sel = Some lat" for sel lat
      using False b that unfolding keep_def by fastforce
    show ?thesis
    proof
      show "\<exists>sel \<in> set obs. \<exists>lat. uSelected (selectBest results obs u) = Some sel \<and> measured results sel = Some lat \<and>
          (\<forall>ob \<in> set obs. \<forall>lat'. measured results ob = Some lat' \<longrightarrow> lat \<le> lat' + uTolerance u)"
        using False b near by (intro bexI [of _ b] exI [of _ l]) (auto simp: step)
    qed (use far in blast)
  qed
qed

theorem url_test_selection_witness:
  "uSelected (selectBest [''a'' \<mapsto> \<lparr>Latency = 120000000, Available = True, UpdatedAt = 0\<rparr>,
       ''b'' \<mapsto> \<lparr>Latency = 100000000, Available = True, UpdatedAt = 0\<rparr>] [\<lparr>Tag = ''a''\<rparr>, \<lparr>Tag = ''b''\<rparr>]
       \<lparr>uTolerance = 50000000, uSelected = Some \<lparr>Tag = ''a''\<rparr>\<rparr>) = Some \<lparr>Tag = ''a''\<rparr>"
proof -
  let ?results = "[''a'' \<mapsto> \<lparr>Latency = 120000000, Available = True, UpdatedAt = 0\<rparr>,
       ''b'' \<mapsto> \<lparr>Latency = 100000000, Available = True, UpdatedAt = 0\<rparr>]"
  let ?u = "\<lparr>uTolerance = 50000000, uSelected = Some \<lparr>Tag = ''a''\<rparr>\<rparr>"
  have m: "measured ?results \<lparr>Tag = ''a''\<rparr> = Some 120000000" "measured ?results \<lparr>Tag = ''b''\<rparr> = Some 100000000"
    by (simp_all add: measured_def)
  have "\<forall>ob lat. measured ?results ob = Some lat \<longrightarrow> 0 \<le> lat \<and> lat < 2 ^ 62"
    by (auto simp: measured_def split: if_splits option.splits)
  with url_test_selection [of "\<lparr>Tag = ''a''\<rparr>" "[\<lparr>Tag = ''a''\<rparr>, \<lparr>Tag = ''b''\<rparr>]" ?results 120000000 ?u] m
  have "selectBest ?results [\<lparr>Tag = ''a''\<rparr>, \<lparr>Tag = ''b''\<rparr>] ?u = ?u"
    by simp
  then show ?thesis by simp
qed

text \<open>A member whose last check failed fast keeps its availability up to the tolerance, and the
  duration of the failed check counts as its latency: the selection moves from a healthy member to
  the failing one.\<close>

lemma url_test_prefers_fast_failure:
  assumes "a = \<lparr>Tag = ''a''\<rparr>" and "b = \<lparr>Tag = ''b''\<rparr>"
    and "round1 = checkAll [(a, StatusCode 204, 120000000, 1), (b, StatusCode 204, 130000000, 2)] [a, b] (NewChecker None, newURLTestState 0)"
    and "round2 = checkAll [(a, StatusCode 204, 120000000, 3), (b, RequestError, 1000000, 4)] [a, b] round1"
  shows "uSelected (snd round1) = Some a" and "uSelected (snd round2) = Some b"
  unfolding assms by code_simp+

end
