(* ===== verification/Spec2Isabelle.thy ===== *)
theory Spec2Isabelle
  imports Trojan Vless Vmess Tuic Hysteria2 UdpFrame Circuit Retry FakeIP Replay Router MeshServer QuicFrames GroupDAG Resilient OutboundGroup
begin

text \<open>
  A verification library of Shuttle, a proxy with routing rules, several transports and a mesh network.
  A client engine takes connections from its inbounds, asks the router for an action, and dials through
  an outbound (a proxy transport, a direct connection or a group of outbounds) that is wrapped in retry
  and a circuit breaker. Transports write a request header with the target address; a server reads it
  and relays. The transport over HTTP/3 uses a fork of a QUIC implementation. Servers also run a mesh:
  they lease virtual addresses to clients, forward packets between them and relay signalling messages
  for peer-to-peer connections. The library models the parts in which decisions are taken and bytes are
  interpreted, each as pure functions over explicit state, in the order of the Go source under
  \<^verbatim>\<open>src/\<close>; names are the names of the source, with \<open>Type_Method\<close> for a method whose bare name is taken.

  \<^bold>\<open>Foundations.\<close> \<open>Prelude\<close> has the types of Go values, errors as sums (\<open>rbind\<close>), the 64-bit wrap-around
  \<open>wrap64\<close>, and the interfaces \<open>codec\<close>, \<open>stream_codec\<close> and \<open>machine\<close>, which the components interpret on their
  own operations. \<open>GoBytes\<close>, \<open>GoStrings\<close>, \<open>GoNet\<close>, \<open>GoTime\<close> and \<open>GoSort\<close> model what the source uses of
  Go's standard library: big-endian integers, \<open>copy\<close> and readers; \<open>strings\<close> and \<open>strconv\<close> on ASCII; IP
  addresses, CIDR and host-port parsing; durations; binary search, stable sorting and shuffling, with
  their correctness lemmas.

  \<^bold>\<open>Routing.\<close>
  \<^item> \<open>DomainTrie\<close> (\<^verbatim>\<open>router/trie.go\<close>): insertion, deletion and lookup refine a finite map from reversed label
    lists to actions (\<open>trie_entries\<close>, interface \<open>suffix_index\<close>); a lookup finds the most specific matching
    rule; the size counts the entries.
  \<^item> \<open>GeoIP\<close> (\<^verbatim>\<open>router/geoip.go\<close>), over \<open>IPv4Nets\<close>: loaders, reload and lookups of the country and site
    databases; a lookup gives the country of the containing network when networks do not overlap, and
    lemmas show what happens when they do.
  \<^item> \<open>RuleProvider\<close> (\<^verbatim>\<open>provider/rule_provider.go\<close>): refresh, the two line formats and matching; a refreshed
    provider matches exactly what its lines denote. The fetched text and the cache file are arguments.
  \<^item> \<open>RuleChain\<close> (\<^verbatim>\<open>router/rule_chain.go\<close>, \<^verbatim>\<open>matcher_port.go\<close>, \<^verbatim>\<open>matcher_srcip.go\<close>): all matchers and the
    compiler. \<open>entry_holds\<close> says what an entry means in terms of its own strings, and a compiled chain takes
    the action of the first entry that holds. Providers are pointers in the source; a chain keeps references
    to them and reads their contents from the environment when it matches.
  \<^item> \<open>Router\<close> (\<^verbatim>\<open>router/router.go\<close>, \<^verbatim>\<open>conflict.go\<close>, \<^verbatim>\<open>convert.go\<close>): rule loading, every matching function,
    the full decision, the dry run, conflict detection. A decision is stated over the configured rules
    (\<open>first_action\<close>, \<open>last_action\<close>, \<open>domain_action\<close>, \<open>unless_default\<close>); conflict detection is exact, and without
    conflicts the order of the rules is irrelevant for domains.
  \<^item> \<open>FakeIP\<close> (\<^verbatim>\<open>router/dns/fakeip\<close>): the filter and the pool; the two maps of the pool stay inverse within the
    usable addresses of the prefix, and an assignment is retained for a round of the pool.

  \<^bold>\<open>Outbounds.\<close>
  \<^item> \<open>Circuit\<close> (\<^verbatim>\<open>engine/circuit.go\<close>): the breaker with explicit timers, whose callbacks may run late; an
    invariant of every interleaving, and the cooldown schedule.
  \<^item> \<open>Retry\<close> (\<^verbatim>\<open>engine/retry.go\<close>) and \<open>Resilient\<close> (\<^verbatim>\<open>engine/outbound_middleware.go\<close>): the retry loops terminate
    in a success, the error of the context or the last error. A dial through the middleware is shown together
    with arbitrary steps of other dials and timers on the breaker between its admission and its report.
  \<^item> \<open>OutboundGroup\<close> (\<^verbatim>\<open>engine/outbound_group*.go\<close>, \<^verbatim>\<open>outbound_quality.go\<close>, \<^verbatim>\<open>outbound/healthcheck/checker.go\<close>):
    every strategy tries all it may try before it fails and reports the last error; load balancing is fair;
    health results follow the tolerance; the url-test choice is near the best.
  \<^item> \<open>GroupDAG\<close> (\<^verbatim>\<open>engine/outbound_group_dag.go\<close>): the reference check finds a cycle exactly if there is one.

  \<^bold>\<open>Wire formats of the transports.\<close> \<open>Addr\<close> (\<^verbatim>\<open>transport/shared/addr.go\<close>) and, over it, \<open>Trojan\<close>, \<open>Vless\<close>, \<open>Vmess\<close>,
  \<open>Tuic\<close> and \<open>Hysteria2\<close> (\<^verbatim>\<open>transport/*/protocol.go\<close>) and \<open>UdpFrame\<close> (\<^verbatim>\<open>proxy/udp_frame.go\<close>): what a writer accepts
  is read back in canonical form, with the payload left untouched; lemmas show the inputs where writer and
  reader disagree. \<open>Replay\<close> (\<^verbatim>\<open>crypto/replay.go\<close>): the cuckoo filters lose nothing on a successful insertion and
  at most one fingerprint on a failed one, never grow beyond their bound, and a replay is detected for half a
  window when no insertion failed.

  \<^bold>\<open>Mesh.\<close> \<open>Mesh\<close> (\<^verbatim>\<open>mesh/mesh.go\<close>, \<^verbatim>\<open>mesh/peertable.go\<close>): frames, handshake, the IPv4, IPv6 and dual allocators
  (interface \<open>lease_pool\<close>) and the peer table. \<open>Signal\<close> (\<^verbatim>\<open>mesh/signal/protocol.go\<close>): every message and payload
  codec. \<open>MeshServer\<close> (\<^verbatim>\<open>mesh/signal/hub.go\<close>, \<open>HandleMeshStream\<close> of \<^verbatim>\<open>server/handler.go\<close>): the inductive relation
  \<open>mesh_step\<close> interleaves any number of sessions; in every reachable state a packet goes to the holder of its
  destination address only, and the hub delivers no message under a foreign source address.

  \<^bold>\<open>QUIC.\<close> \<open>QuicVarint\<close> (\<^verbatim>\<open>quicfork/quicvarint\<close>), \<open>QuicAck\<close> and \<open>QuicFrames\<close> (\<^verbatim>\<open>quicfork/internal/wire\<close>, the frame
  loop of \<^verbatim>\<open>quicfork/connection.go\<close>): writers, announced lengths and parsers of all frames agree, whatever is
  parsed satisfies the invariant \<open>frame_ok\<close>, and splitting takes off the longest front that fits.
  \<open>FrameSorter\<close> (\<^verbatim>\<open>quicfork/frame_sorter.go\<close>): frames pushed in any order come out as the stream, with no
  panic, as long as they end below \<open>MaxByteCount\<close>.

  \<^bold>\<open>Arguments of the model.\<close> Hash functions and ciphers, random draws, clock readings, the order of map
  iteration, IEEE arithmetic, the outcomes of dials, HTTP exchanges and writes, and the cancellation of
  contexts are arguments of the definitions; hypotheses on them are documented properties (the length of a
  digest, decryption undoing encryption), and every property with hypotheses has a witness.

  \<^bold>\<open>Bounds and termination.\<close> Loops are structural recursion or functions with a termination proof. The
  depth-first search of \<open>GroupDAG\<close> counts nested calls; as many as there are groups suffice, and its property
  says that it returns. \<open>Peek\<close> in \<open>FrameSorter\<close> is a partial function, shown to return in \<open>sorter_Peek_ok\<close>. The
  eviction loop of \<open>Replay\<close> has the bound of the source. Words have their width where arithmetic can wrap.
  Counters that only count (failures in a row, at most one per dial) are unbounded.

  \<^bold>\<open>Simplifications.\<close> A critical section is one atomic step. Looking a mesh receiver up and writing to it is
  one step. Case mapping and white space are those of ASCII. Logging is left out.

  \<^bold>\<open>Not modelled.\<close> The goroutines around the modelled parts (engine life cycle, inbounds, listeners, the QUIC
  connection loop, loss recovery and congestion control), TLS and the other cryptographic handshakes, the
  transports that wrap third-party packages, downloads, configuration files, storage, the graphical and
  mobile front ends, and operating-system integration: they are input and output, timers, or code of other
  packages.
\<close>

end
